(* ===== verification/Sponge_Prelude.thy ===== *)
theory Sponge_Prelude
  imports Main "HOL-Library.Word" "HOL-Library.Signed_Division"
begin

text \<open>
  The vocabulary every component of the development shares.

  \<^item> The C++ types the sources use: \<open>size_t\<close> and the fixed-width unsigned types as words, which
    wrap as the language says; \<open>int\<close> as an integer whose operations are checked, because signed
    overflow and a zero divisor are undefined behaviour and not a value.
  \<^item> \<open>std::string\<close> as a list of characters (a \<^typ>\<open>char\<close> is eight bits), with the library
    operations the sources call and what they do out of range.
  \<^item> Exceptions and undefined behaviour as values: \<open>exn\<close>, the result type \<open>'a result\<close> with its
    bind, and state-passing actions \<open>('s, 'a) act\<close> that keep the state an exception leaves behind.
  \<^item> Actions that are safe with respect to a relation on states, and the locale \<open>kept_relation\<close> of how they
    compose, whatever the relation.
  \<^item> Generic lemmas, collected in \<open>cpp_int\<close> (conversions and arithmetic), \<open>result_simps\<close> and
    \<open>act_simps\<close> (how results and actions compose).
\<close>

section \<open>Collections\<close>

named_theorems cpp_int "conversions between the C++ integer types and their arithmetic"
named_theorems result_simps "computation rules of results"
named_theorems act_simps "computation rules of state-passing actions"

section \<open>Exceptions and undefined behaviour\<close>

text \<open>What the language leaves undefined is a value of its own, so a theorem that an operation
  returns normally also says that it stays within the language.\<close>

datatype ub = SignedOverflow | DivByZero | OutOfBounds | BadIterator | DanglingPointer | Uninitialized

datatype error_category = system_category | gai_error_category

datatype exn =
    out_of_range string
  | length_error string
  | invalid_argument string
  | runtime_error string
  | tagged_error error_category string int
  | unix_error string int
  | Undefined ub

type_synonym 'a result = "exn + 'a"

definition bindR :: "'a result \<Rightarrow> ('a \<Rightarrow> 'b result) \<Rightarrow> 'b result" where
  "bindR m f = (case m of Inl e \<Rightarrow> Inl e | Inr x \<Rightarrow> f x)"

lemma bindR_Inl [simp, result_simps]: "bindR (Inl e) f = Inl e"
  by (simp add: bindR_def)

lemma bindR_Inr [simp, result_simps]: "bindR (Inr x) f = f x"
  by (simp add: bindR_def)

lemma bindR_eq_Inr: "bindR m f = Inr y \<longleftrightarrow> (\<exists>x. m = Inr x \<and> f x = Inr y)"
  by (cases m) simp_all

lemma bindR_eq_Inl: "bindR m f = Inl e \<longleftrightarrow> m = Inl e \<or> (\<exists>x. m = Inr x \<and> f x = Inl e)"
  by (cases m) simp_all

lemma bindR_assoc: "bindR (bindR m f) g = bindR m (\<lambda>x. bindR (f x) g)"
  by (cases m) simp_all

text \<open>An action runs on a state and may throw; the state it had reached when it threw is kept,
  because the objects a C++ function has modified stay modified.\<close>

type_synonym ('s, 'a) act = "'s \<Rightarrow> 'a result \<times> 's"

definition retS :: "'a \<Rightarrow> ('s, 'a) act" where
  "retS x = (\<lambda>s. (Inr x, s))"

definition throwS :: "exn \<Rightarrow> ('s, 'a) act" where
  "throwS e = (\<lambda>s. (Inl e, s))"

definition liftS :: "'a result \<Rightarrow> ('s, 'a) act" where
  "liftS r = (\<lambda>s. (r, s))"

definition getS :: "('s \<Rightarrow> 'a) \<Rightarrow> ('s, 'a) act" where
  "getS f = (\<lambda>s. (Inr (f s), s))"

definition modS :: "('s \<Rightarrow> 's) \<Rightarrow> ('s, unit) act" where
  "modS f = (\<lambda>s. (Inr (), f s))"

definition bindS :: "('s, 'a) act \<Rightarrow> ('a \<Rightarrow> ('s, 'b) act) \<Rightarrow> ('s, 'b) act" where
  "bindS m f = (\<lambda>s. case m s of (Inl e, s') \<Rightarrow> (Inl e, s') | (Inr x, s') \<Rightarrow> f x s')"

definition seqS :: "('s, 'a) act \<Rightarrow> ('s, 'b) act \<Rightarrow> ('s, 'b) act" where
  "seqS m n = bindS m (\<lambda>_. n)"

definition whenS :: "bool \<Rightarrow> ('s, unit) act \<Rightarrow> ('s, unit) act" where
  "whenS b m = (if b then m else retS ())"

text \<open>\<open>catchS m h\<close>: a \<open>try\<close> block whose handler sees every exception of \<open>m\<close>.  Undefined
  behaviour is no exception and passes through.\<close>

definition catchS :: "('s, 'a) act \<Rightarrow> (exn \<Rightarrow> ('s, 'a) act) \<Rightarrow> ('s, 'a) act" where
  "catchS m h = (\<lambda>s. case m s of
      (Inl (Undefined u), s') \<Rightarrow> (Inl (Undefined u), s')
    | (Inl e, s') \<Rightarrow> h e s'
    | (Inr x, s') \<Rightarrow> (Inr x, s'))"

lemma retS_run [simp, act_simps]: "retS x s = (Inr x, s)"
  by (simp add: retS_def)

lemma throwS_run [simp, act_simps]: "throwS e s = (Inl e, s)"
  by (simp add: throwS_def)

lemma liftS_run [simp, act_simps]: "liftS r s = (r, s)"
  by (simp add: liftS_def)

lemma getS_run [simp, act_simps]: "getS f s = (Inr (f s), s)"
  by (simp add: getS_def)

lemma modS_run [simp, act_simps]: "modS f s = (Inr (), f s)"
  by (simp add: modS_def)

lemma bindS_run_Inr [act_simps]: "m s = (Inr x, s') \<Longrightarrow> bindS m f s = f x s'"
  by (simp add: bindS_def)

lemma bindS_run_Inl [act_simps]: "m s = (Inl e, s') \<Longrightarrow> bindS m f s = (Inl e, s')"
  by (simp add: bindS_def)

lemma bindS_run: "bindS m f s =
    (case m s of (Inl e, s') \<Rightarrow> (Inl e, s') | (Inr x, s') \<Rightarrow> f x s')"
  by (simp add: bindS_def)

lemma bindS_simps [simp]:
  "bindS (retS x) f = f x"
  "bindS (throwS e) f s = (Inl e, s)"
  "bindS (liftS (Inr y)) f = f y"
  "bindS (liftS (Inl e')) f s = (Inl e', s)"
  "bindS (getS g) f s = f (g s) s"
  "bindS (modS h) k s = k () (h s)"
  by (simp_all add: bindS_def fun_eq_iff)

lemma seqS_run: "seqS m n s =
    (case m s of (Inl e, s') \<Rightarrow> (Inl e, s') | (Inr x, s') \<Rightarrow> n s')"
  by (simp add: seqS_def bindS_def)

lemma seqS_simps [simp]:
  "seqS (retS x) n = n"
  "seqS (throwS e) n s = (Inl e, s)"
  "seqS (modS h) n s = n (h s)"
  by (simp_all add: seqS_def)

lemma whenS_simps [simp]: "whenS True m = m" "whenS False m = retS ()"
  by (simp_all add: whenS_def)

lemma bindS_eq_Inr:
  "bindS m f s = (Inr y, t) \<longleftrightarrow> (\<exists>x u. m s = (Inr x, u) \<and> f x u = (Inr y, t))"
  by (auto simp: bindS_def split: prod.splits sum.splits)

lemma bindS_cases:
  assumes "bindS m f s = (r, t)"
  obtains (throws) e where "m s = (Inl e, t)" and "r = Inl e"
    | (continues) x u where "m s = (Inr x, u)" and "f x u = (r, t)"
  using assms by (auto simp: bindS_def split: prod.splits sum.splits)

section \<open>Actions that keep something\<close>

text \<open>A result within the language: a value or an exception, not undefined behaviour.  An action is safe in a state when its
  result is one, and the state it leaves is related to the one it started in.\<close>

definition defined :: "'a result \<Rightarrow> bool" where
  "defined r \<longleftrightarrow> (\<forall>u. r \<noteq> Inl (Undefined u))"

definition safe_wrt :: "('s \<Rightarrow> 's \<Rightarrow> bool) \<Rightarrow> ('s, 'a) act \<Rightarrow> 's \<Rightarrow> bool" where
  "safe_wrt kept m s \<longleftrightarrow> kept s (snd (m s)) \<and> defined (fst (m s))"

named_theorems safe_intros "how safe actions compose"

lemma defined_simps [simp]:
  "defined (Inr x)" "defined (Inl (out_of_range t))" "defined (Inl (length_error t))"
  "defined (Inl (invalid_argument t))" "defined (Inl (runtime_error t))" "defined (Inl (unix_error t n))"
  "defined (Inl (tagged_error c t n))" "\<not> defined (Inl (Undefined u))"
  by (simp_all add: defined_def)

lemma defined_Inl: "defined (Inl e :: 'a result) \<longleftrightarrow> defined (Inl e :: 'b result)"
  by (simp add: defined_def)

text \<open>What a component keeps is its own relation; that safe actions compose needs of it only that it is a preorder.\<close>

locale kept_relation =
  fixes kept :: "'s \<Rightarrow> 's \<Rightarrow> bool"
  assumes kept_refl: "kept s s"
    and kept_trans: "kept s s' \<Longrightarrow> kept s' s'' \<Longrightarrow> kept s s''"
begin

lemma ret_safe [safe_intros]: "safe_wrt kept (retS x) s"
  by (simp add: safe_wrt_def kept_refl)

lemma throw_safe [safe_intros]: "defined (Inl e :: 'a result) \<Longrightarrow> safe_wrt kept (throwS e :: ('s, 'a) act) s"
  by (simp add: safe_wrt_def kept_refl)

lemma lift_safe [safe_intros]: "defined r \<Longrightarrow> safe_wrt kept (liftS r) s"
  by (simp add: safe_wrt_def kept_refl)

lemma get_safe [safe_intros]: "safe_wrt kept (getS g) s"
  by (simp add: safe_wrt_def kept_refl)

lemma bind_safe [safe_intros]:
  assumes "safe_wrt kept m s" and "\<And>x s'. kept s s' \<Longrightarrow> safe_wrt kept (f x) s'"
  shows "safe_wrt kept (bindS m f) s"
proof (cases "m s")
  case (Pair r s')
  then have k: "kept s s'" "defined r"
    using assms(1) by (simp_all add: safe_wrt_def)
  show ?thesis
  proof (cases r)
    case (Inl e)
    with Pair k show ?thesis by (simp add: safe_wrt_def bindS_run defined_def)
  next
    case (Inr x)
    with Pair k assms(2) [OF k(1), of x] show ?thesis
      by (auto simp: safe_wrt_def bindS_run intro: kept_trans)
  qed
qed

lemma seq_safe [safe_intros]:
  "safe_wrt kept m s \<Longrightarrow> (\<And>s'. kept s s' \<Longrightarrow> safe_wrt kept n s') \<Longrightarrow> safe_wrt kept (seqS m n) s"
  unfolding seqS_def by (rule bind_safe)

lemma if_safe [safe_intros]:
  "(b \<Longrightarrow> safe_wrt kept m s) \<Longrightarrow> (\<not> b \<Longrightarrow> safe_wrt kept n s) \<Longrightarrow> safe_wrt kept (if b then m else n) s"
  by simp

lemma when_safe [safe_intros]: "(b \<Longrightarrow> safe_wrt kept m s) \<Longrightarrow> safe_wrt kept (whenS b m) s"
  by (cases b) (simp_all add: ret_safe)

lemma pair_safe [safe_intros]: "(\<And>a b. x = (a, b) \<Longrightarrow> safe_wrt kept (f a b) s) \<Longrightarrow> safe_wrt kept (case_prod f x) s"
  by (cases x) simp

lemma sum_safe [safe_intros]:
  "(\<And>a. x = Inl a \<Longrightarrow> safe_wrt kept (f a) s) \<Longrightarrow> (\<And>b. x = Inr b \<Longrightarrow> safe_wrt kept (g b) s) \<Longrightarrow>
    safe_wrt kept (case_sum f g x) s"
  by (cases x) simp_all

lemma safe_cases:
  assumes "safe_wrt kept m s"
  obtains (throws) e s' where "m s = (Inl e, s')" "kept s s'" "defined (Inl e :: unit result)"
    | (returns) x s' where "m s = (Inr x, s')" "kept s s'"
  using assms by (cases "m s"; cases "fst (m s)") (auto simp: safe_wrt_def defined_def)

end

section \<open>The integer types of the sources\<close>

text \<open>\<open>size_t\<close> is 64 bits wide and \<open>int\<close> 32, as on the x86-64 Linux systems the project builds on.
  A value of type \<open>int\<close> is a HOL integer inside \<open>int_ok\<close>; \<open>int_add\<close>, \<open>int_sub\<close> and \<open>int_rem\<close> are
  the language's \<open>+\<close>, \<open>-\<close> and \<open>%\<close> on it.  The remainder truncates towards zero.  Unsigned arithmetic
  is that of words.\<close>

type_synonym size_t = "64 word"
type_synonym uint8_t = "8 word"
type_synonym uint16_t = "16 word"
type_synonym uint32_t = "32 word"

definition int_ok :: "int \<Rightarrow> bool" where
  "int_ok i \<longleftrightarrow> - (2 ^ 31) \<le> i \<and> i < 2 ^ 31"

definition check_int :: "int \<Rightarrow> int result" where
  "check_int i = (if int_ok i then Inr i else Inl (Undefined SignedOverflow))"

definition int_add :: "int \<Rightarrow> int \<Rightarrow> int result" where
  "int_add a b = check_int (a + b)"

definition int_sub :: "int \<Rightarrow> int \<Rightarrow> int result" where
  "int_sub a b = check_int (a - b)"

definition int_rem :: "int \<Rightarrow> int \<Rightarrow> int result" where
  "int_rem a b =
     (if b = 0 then Inl (Undefined DivByZero)
      else if a = - (2 ^ 31) \<and> b = -1 then Inl (Undefined SignedOverflow)
      else Inr (a smod b))"

definition size_rem :: "size_t \<Rightarrow> size_t \<Rightarrow> size_t result" where
  "size_rem a b = (if b = 0 then Inl (Undefined DivByZero) else Inr (a mod b))"

text \<open>Conversions: to \<open>int\<close> modulo \<open>2 ^ 32\<close>, from \<open>int\<close> to \<open>size_t\<close> modulo \<open>2 ^ 64\<close>.\<close>

definition to_int :: "int \<Rightarrow> int" where
  "to_int i = (i + 2 ^ 31) mod 2 ^ 32 - 2 ^ 31"

definition int_of_size :: "size_t \<Rightarrow> int" where
  "int_of_size w = to_int (uint w)"

definition size_of_int :: "int \<Rightarrow> size_t" where
  "size_of_int i = of_int i"

lemma int_okI: "- 2147483648 \<le> i \<Longrightarrow> i \<le> 2147483647 \<Longrightarrow> int_ok i"
  by (simp add: int_ok_def)

lemma int_ok_to_int [simp]: "int_ok (to_int i)"
proof -
  have "0 \<le> (i + 2 ^ 31) mod 2 ^ 32" "(i + 2 ^ 31) mod 2 ^ 32 < (2::int) ^ 32"
    by simp_all
  then show ?thesis by (simp add: int_ok_def to_int_def)
qed

lemma to_int_id [cpp_int]: "int_ok i \<Longrightarrow> to_int i = i"
  by (simp add: int_ok_def to_int_def)

lemma int_of_size_small [cpp_int]:
  assumes "unat w < 2 ^ 31"
  shows "int_of_size w = int (unat w)"
proof -
  have "int (unat w) < 2 ^ 31"
    using assms by (metis of_nat_less_iff of_nat_numeral of_nat_power)
  then have "int_ok (int (unat w))"
    unfolding int_ok_def by linarith
  then show ?thesis
    unfolding int_of_size_def uint_nat by (rule to_int_id)
qed

lemma unat_size_of_int [cpp_int]:
  assumes "0 \<le> i" and "i < 2 ^ 64"
  shows "unat (size_of_int i) = nat i"
proof -
  have "size_of_int i = of_nat (nat i)"
    using assms(1) by (simp add: size_of_int_def)
  moreover have "nat i < 2 ^ 64"
    using assms by (simp add: nat_less_iff)
  ultimately show ?thesis
    by (simp add: unat_of_nat take_bit_nat_eq_self)
qed

lemma size_of_int_of_nat [cpp_int]: "size_of_int (int n) = of_nat n"
  by (simp add: size_of_int_def)

lemma unat_of_nat_size [cpp_int]:
  assumes "n < 2 ^ 64"
  shows "unat (of_nat n :: size_t) = n"
  using assms by (simp add: unat_of_nat take_bit_nat_eq_self)

lemma mod_of_nat_size [cpp_int]:
  "a < 2 ^ 64 \<Longrightarrow> b < 2 ^ 64 \<Longrightarrow> (of_nat a :: size_t) mod of_nat b = of_nat (a mod b)"
  by (simp only: word_arith_nat_mod unat_of_nat_size)

lemma of_nat_unat_size [simp]: "of_nat (unat w) = (w :: size_t)"
  by (simp add: ucast_id)

lemma sint_small [cpp_int]:
  fixes w :: size_t
  assumes "unat w < 2 ^ 63"
  shows "sint w = int (unat w)"
proof -
  have "int (unat w) < 2 ^ 63"
    using assms by (metis of_nat_less_iff of_nat_numeral of_nat_power)
  then have "sint (of_nat (unat w) :: size_t) = int (unat w)"
    by (simp add: signed_of_nat signed_take_bit_int_eq_self del: of_nat_unat_size of_nat_unat)
  then show ?thesis
    by (simp only: of_nat_unat_size)
qed

lemma int_ok_small [simp]: "int_ok 0" "int_ok (- 1)"
  by (simp_all add: int_ok_def)

lemma to_int_small [simp]: "to_int 0 = 0" "to_int (- 1) = - 1"
  by (simp_all add: to_int_def)

lemma smod_nonneg: "0 \<le> a \<Longrightarrow> 0 < b \<Longrightarrow> (a::int) smod b = a mod b"
  by (simp add: smod_int_alt_def sgn_if)

lemma smod_small:
  fixes a b :: int
  assumes "- b < a" and "a < b"
  shows "a smod b = a"
proof -
  have "\<bar>a\<bar> mod \<bar>b\<bar> = \<bar>a\<bar>"
    using assms by (intro mod_pos_pos_trivial) auto
  then show ?thesis
    by (simp add: smod_int_alt_def sgn_mult_abs)
qed

lemma check_int_Inr [simp]: "check_int i = Inr j \<longleftrightarrow> int_ok i \<and> i = j"
  by (auto simp: check_int_def)

lemma int_add_ok: "int_ok (a + b) \<Longrightarrow> int_add a b = Inr (a + b)"
  by (simp add: int_add_def)

lemma int_sub_ok: "int_ok (a - b) \<Longrightarrow> int_sub a b = Inr (a - b)"
  by (simp add: int_sub_def)

lemma int_rem_pos: "0 < b \<Longrightarrow> int_rem a b = Inr (a smod b)"
  by (simp add: int_rem_def)

lemma size_rem_pos: "b \<noteq> 0 \<Longrightarrow> size_rem a b = Inr (a mod b)"
  by (simp add: size_rem_def)

section \<open>Strings\<close>

text \<open>\<open>std::string\<close> as a list of characters.  \<open>string(n, c)\<close> throws beyond \<open>max_size()\<close>; \<open>s[i]\<close> is
  defined up to and including \<open>size()\<close>, where it is the terminating null, which may not be changed.\<close>

definition string_max_size :: nat where
  "string_max_size = 2 ^ 63 - 1"

definition string_length :: "string \<Rightarrow> size_t" where
  "string_length s = of_nat (length s)"

definition string_fill :: "size_t \<Rightarrow> char \<Rightarrow> string result" where
  "string_fill n c =
     (if string_max_size < unat n then Inl (length_error ''basic_string::_M_create'')
      else Inr (replicate (unat n) c))"

definition string_get :: "string \<Rightarrow> size_t \<Rightarrow> char result" where
  "string_get s i =
     (if unat i < length s then Inr (s ! unat i)
      else if unat i = length s then Inr (CHR 0x00)
      else Inl (Undefined OutOfBounds))"

definition string_set :: "string \<Rightarrow> size_t \<Rightarrow> char \<Rightarrow> string result" where
  "string_set s i c =
     (if unat i < length s then Inr (s[unat i := c])
      else if unat i = length s \<and> c = CHR 0x00 then Inr s
      else Inl (Undefined OutOfBounds))"

text \<open>A string a program can hold: its size is a \<open>size_t\<close> value.\<close>

definition string_ok :: "string \<Rightarrow> bool" where
  "string_ok s \<longleftrightarrow> length s \<le> string_max_size"

lemma unat_string_length [cpp_int]: "string_ok s \<Longrightarrow> unat (string_length s) = length s"
  by (simp add: string_ok_def string_max_size_def string_length_def unat_of_nat_size)

lemma string_get_in [simp]: "unat i < length s \<Longrightarrow> string_get s i = Inr (s ! unat i)"
  by (simp add: string_get_def)

lemma string_set_in [simp]: "unat i < length s \<Longrightarrow> string_set s i c = Inr (s[unat i := c])"
  by (simp add: string_set_def)

text \<open>\<open>uint8_t\<close> values and characters are the same eight bits.\<close>

definition uint8_of_char :: "char \<Rightarrow> uint8_t" where
  "uint8_of_char c = of_char c"

definition char_of_uint8 :: "uint8_t \<Rightarrow> char" where
  "char_of_uint8 b = char_of (unat b)"

lemma uint8_of_char_of_uint8 [simp]: "uint8_of_char (char_of_uint8 b) = b"
proof -
  have "unat b < 256"
    using unsigned_less [of b] by simp
  then have "of_nat (of_char (char_of (unat b) :: char)) = b"
    by (simp add: ucast_id)
  then show ?thesis
    unfolding uint8_of_char_def char_of_uint8_def of_nat_of_char .
qed

lemma unat_uint8_of_char: "unat (uint8_of_char c) = of_char c"
proof -
  have "(of_char c :: nat) < 2 ^ 8"
    using nat_of_char_less_256 [of c] by simp
  then have "unat (of_nat (of_char c) :: uint8_t) = of_char c"
    by (simp add: unat_of_nat take_bit_nat_eq_self)
  then show ?thesis
    by (simp add: uint8_of_char_def of_nat_of_char)
qed

lemma char_of_uint8_of_char [simp]: "char_of_uint8 (uint8_of_char c) = c"
  by (simp add: char_of_uint8_def unat_uint8_of_char)

end
