(* ===== verification/Stream_Contract.thy ===== *)
theory Stream_Contract
  imports Sponge_Prelude
begin

text \<open>
  What \<open>ByteStream\<close> promises, without its representation: a queue of at most \<open>capacity\<close> bytes, two
  counters and two flags.  \<open>as_step\<close> gives the effect and the answer of every public method on this
  abstract stream.  The locale \<open>stream_impl\<close> is the contract an implementation signs (each of its
  steps returns and refines the abstract step) and proves, once for every implementation, what
  follows for whole sequences of calls.
\<close>

section \<open>The abstract stream\<close>

record abs_stream =
  as_capacity :: nat
  as_queue :: string
  as_written :: size_t
  as_popped :: size_t
  as_ended :: bool
  as_failed :: bool

text \<open>A call of a public method, and what the caller sees of it.\<close>

datatype stream_op =
    OpWrite string
  | OpPeek size_t
  | OpPop size_t
  | OpRead size_t
  | OpEndInput
  | OpSetError
  | OpBufferSize
  | OpRemainingCapacity
  | OpBytesWritten
  | OpBytesRead
  | OpBufferEmpty
  | OpInputEnded
  | OpError
  | OpEof

datatype stream_obs = Done | Count size_t | Bytes string | Flag bool

definition as_new :: "nat \<Rightarrow> abs_stream" where
  "as_new capacity = \<lparr>as_capacity = capacity, as_queue = [], as_written = 0, as_popped = 0,
     as_ended = False, as_failed = False\<rparr>"

definition as_room :: "abs_stream \<Rightarrow> nat" where
  "as_room a = as_capacity a - length (as_queue a)"

definition as_pop :: "abs_stream \<Rightarrow> size_t \<Rightarrow> abs_stream" where
  "as_pop a n = a\<lparr>as_queue := drop (unat n) (as_queue a),
     as_popped := as_popped a + of_nat (min (length (as_queue a)) (unat n))\<rparr>"

fun as_step :: "abs_stream \<Rightarrow> stream_op \<Rightarrow> stream_obs \<times> abs_stream" where
  "as_step a (OpWrite d) =
     (let k = min (length d) (as_room a) in
      (Count (of_nat k),
       a\<lparr>as_queue := as_queue a @ take k d, as_written := as_written a + of_nat k\<rparr>))"
| "as_step a (OpPeek n) = (Bytes (take (unat n) (as_queue a)), a)"
| "as_step a (OpPop n) = (Done, as_pop a n)"
| "as_step a (OpRead n) = (Bytes (take (unat n) (as_queue a)), as_pop a n)"
| "as_step a OpEndInput = (Done, a\<lparr>as_ended := True\<rparr>)"
| "as_step a OpSetError = (Done, a\<lparr>as_failed := True\<rparr>)"
| "as_step a OpBufferSize = (Count (of_nat (length (as_queue a))), a)"
| "as_step a OpRemainingCapacity = (Count (of_nat (as_room a)), a)"
| "as_step a OpBytesWritten = (Count (as_written a), a)"
| "as_step a OpBytesRead = (Count (as_popped a), a)"
| "as_step a OpBufferEmpty = (Flag (as_queue a = []), a)"
| "as_step a OpInputEnded = (Flag (as_ended a), a)"
| "as_step a OpError = (Flag (as_failed a), a)"
| "as_step a OpEof = (Flag (as_ended a \<and> as_queue a = []), a)"

fun as_run :: "abs_stream \<Rightarrow> stream_op list \<Rightarrow> stream_obs list \<times> abs_stream" where
  "as_run a [] = ([], a)"
| "as_run a (x # xs) =
     (let (ob, a') = as_step a x; (obs, a'') = as_run a' xs in (ob # obs, a''))"

text \<open>Calls a C++ program can make: the data of a \<open>write\<close> is a string.\<close>

fun op_ok :: "stream_op \<Rightarrow> bool" where
  "op_ok (OpWrite d) = string_ok d"
| "op_ok _ = True"

text \<open>The bytes a step puts into the queue and the bytes it takes out.\<close>

fun as_in :: "abs_stream \<Rightarrow> stream_op \<Rightarrow> string" where
  "as_in a (OpWrite d) = take (as_room a) d"
| "as_in a _ = []"

fun as_out :: "abs_stream \<Rightarrow> stream_op \<Rightarrow> string" where
  "as_out a (OpPop n) = take (unat n) (as_queue a)"
| "as_out a (OpRead n) = take (unat n) (as_queue a)"
| "as_out a _ = []"

fun as_ins :: "abs_stream \<Rightarrow> stream_op list \<Rightarrow> string" where
  "as_ins a [] = []"
| "as_ins a (x # xs) = as_in a x @ as_ins (snd (as_step a x)) xs"

fun as_outs :: "abs_stream \<Rightarrow> stream_op list \<Rightarrow> string" where
  "as_outs a [] = []"
| "as_outs a (x # xs) = as_out a x @ as_outs (snd (as_step a x)) xs"

definition as_ok :: "abs_stream \<Rightarrow> bool" where
  "as_ok a \<longleftrightarrow> length (as_queue a) \<le> as_capacity a \<and>
     as_written a = as_popped a + of_nat (length (as_queue a))"

text \<open>The history of a stream as its users see it: the bytes accepted, by the counts that \<open>write\<close> returned, and how many of
  them are gone, by the bytes that \<open>read\<close> returned and the bytes there were to \<open>pop\<close>.  And the bytes that \<open>read\<close>
  returned.\<close>

fun seen :: "string \<times> nat \<Rightarrow> stream_op \<times> stream_obs \<Rightarrow> string \<times> nat" where
  "seen (accepted, gone) (OpWrite d, Count k) = (accepted @ take (unat k) d, gone)"
| "seen (accepted, gone) (OpRead n, Bytes b) = (accepted, gone + length b)"
| "seen (accepted, gone) (OpPop n, ob) = (accepted, min (length accepted) (gone + unat n))"
| "seen h c = h"

definition history :: "(stream_op \<times> stream_obs) list \<Rightarrow> string \<times> nat" where
  "history cs = foldl seen ([], 0) cs"

fun bytes_read_out :: "(stream_op \<times> stream_obs) list \<Rightarrow> string" where
  "bytes_read_out [] = []"
| "bytes_read_out ((OpRead n, Bytes b) # cs) = b @ bytes_read_out cs"
| "bytes_read_out (c # cs) = bytes_read_out cs"

section \<open>Laws of the abstract stream\<close>

lemma as_step_fifo: "as_queue a @ as_in a x = as_out a x @ as_queue (snd (as_step a x))"
  by (cases x) (simp_all add: as_pop_def Let_def min_def)

lemma as_step_ok: "as_ok a \<Longrightarrow> as_ok (snd (as_step a x))"
  by (cases x) (auto simp: as_ok_def as_pop_def as_room_def Let_def min_def of_nat_diff ac_simps)

lemma as_step_capacity [simp]: "as_capacity (snd (as_step a x)) = as_capacity a"
  by (cases x) (simp_all add: as_pop_def Let_def)

lemma as_step_ended: "as_ended (snd (as_step a x)) = (as_ended a \<or> x = OpEndInput)"
  by (cases x) (simp_all add: as_pop_def Let_def)

lemma as_run_Cons: "as_run a (x # xs) =
    (fst (as_step a x) # fst (as_run (snd (as_step a x)) xs), snd (as_run (snd (as_step a x)) xs))"
  by (simp add: split_beta Let_def)

lemma as_run_fifo: "as_queue a @ as_ins a xs = as_outs a xs @ as_queue (snd (as_run a xs))"
proof (induction xs arbitrary: a)
  case Nil
  then show ?case by simp
next
  case (Cons x xs)
  have "as_queue a @ as_ins a (x # xs) = as_out a x @ (as_queue (snd (as_step a x)) @ as_ins (snd (as_step a x)) xs)"
    using as_step_fifo [of a x] by (metis append.assoc as_ins.simps(2))
  also have "\<dots> = as_out a x @ (as_outs (snd (as_step a x)) xs @ as_queue (snd (as_run (snd (as_step a x)) xs)))"
    by (simp only: Cons.IH)
  finally show ?case
    by (simp add: as_run_Cons del: as_run.simps)
qed

lemma as_run_ok: "as_ok a \<Longrightarrow> as_ok (snd (as_run a xs))"
  by (induction xs arbitrary: a) (simp_all add: as_run_Cons as_step_ok del: as_run.simps(2))

lemma as_run_capacity: "as_capacity (snd (as_run a xs)) = as_capacity a"
  by (induction xs arbitrary: a) (simp_all add: as_run_Cons del: as_run.simps(2))

lemma as_run_ended: "as_ended (snd (as_run a xs)) = (as_ended a \<or> OpEndInput \<in> set xs)"
  by (induction xs arbitrary: a) (auto simp: as_run_Cons as_step_ended simp del: as_run.simps(2))

text \<open>The queue is what the history leaves of the accepted bytes.\<close>

lemma seen_prefix: "\<exists>ws. fst (seen (acc, t) c) = acc @ ws"
  by (cases "((acc, t), c)" rule: seen.cases) auto

lemma seen_step:
  assumes "op_ok x" and "as_queue a = drop t acc" and "t \<le> length acc"
    and "seen (acc, t) (x, fst (as_step a x)) = (acc', t')"
  shows "as_queue (snd (as_step a x)) = drop t' acc' \<and> t' \<le> length acc'"
proof (cases x)
  case (OpWrite d)
  let ?k = "min (length d) (as_room a)"
  have "?k < 2 ^ 64"
    using assms(1) OpWrite by (auto simp: string_ok_def string_max_size_def min_def)
  then have "unat (of_nat ?k :: size_t) = ?k"
    by (rule unat_of_nat_size)
  with assms OpWrite show ?thesis by (auto simp: Let_def)
qed (use assms in \<open>auto simp: as_pop_def Let_def min_def ac_simps\<close>)

lemma as_run_history:
  assumes "list_all op_ok xs" and "as_queue a = drop t acc" and "t \<le> length acc"
    and "foldl seen (acc, t) (zip xs (fst (as_run a xs))) = (acc', t')"
  shows "as_queue (snd (as_run a xs)) = drop t' acc' \<and> t' \<le> length acc' \<and> (\<exists>ws. acc' = acc @ ws)"
  using assms
proof (induction xs arbitrary: a acc t)
  case (Cons x xs)
  obtain acc1 t1 where h: "seen (acc, t) (x, fst (as_step a x)) = (acc1, t1)" by fastforce
  have "as_queue (snd (as_step a x)) = drop t1 acc1 \<and> t1 \<le> length acc1"
    using Cons.prems by (intro seen_step [OF _ _ _ h]) simp_all
  moreover obtain ws where "acc1 = acc @ ws"
    using seen_prefix [of acc t "(x, fst (as_step a x))"] h by auto
  ultimately show ?case
    using Cons.IH [of "snd (as_step a x)" t1 acc1] Cons.prems(1,4) h
    by (auto simp: as_run_Cons simp del: as_run.simps)
qed simp

lemma as_run_answer:
  assumes "list_all op_ok xs" and "as_queue a = drop t acc" and "t \<le> length acc"
    and "i < length xs" and "xs ! i = OpRead n \<or> xs ! i = OpPeek n"
    and "foldl seen (acc, t) (zip (take i xs) (fst (as_run a xs))) = (acc', t')"
  shows "fst (as_run a xs) ! i = Bytes (take (unat n) (drop t' acc'))"
  using assms
proof (induction xs arbitrary: a acc t i)
  case (Cons x xs)
  show ?case
  proof (cases i)
    case 0
    with Cons.prems show ?thesis by (auto simp: as_run_Cons simp del: as_run.simps)
  next
    case (Suc j)
    obtain acc1 t1 where h: "seen (acc, t) (x, fst (as_step a x)) = (acc1, t1)" by fastforce
    have "as_queue (snd (as_step a x)) = drop t1 acc1 \<and> t1 \<le> length acc1"
      using Cons.prems by (intro seen_step [OF _ _ _ h]) simp_all
    with Cons.IH [of "snd (as_step a x)" t1 acc1 j] Cons.prems Suc h show ?thesis
      by (simp add: as_run_Cons del: as_run.simps)
  qed
qed simp

lemma as_run_reads:
  assumes "list_all op_ok xs" and "as_queue a = drop t acc" and "t \<le> length acc" and "\<forall>n. OpPop n \<notin> set xs"
    and "foldl seen (acc, t) (zip xs (fst (as_run a xs))) = (acc', t')"
  shows "drop t acc' = bytes_read_out (zip xs (fst (as_run a xs))) @ as_queue (snd (as_run a xs))"
  using assms
proof (induction xs arbitrary: a acc t)
  case (Cons x xs)
  obtain acc1 t1 where h: "seen (acc, t) (x, fst (as_step a x)) = (acc1, t1)" by fastforce
  have q: "as_queue (snd (as_step a x)) = drop t1 acc1" "t1 \<le> length acc1"
    using seen_step [OF _ Cons.prems(2,3) h] Cons.prems(1) by simp_all
  let ?obs = "fst (as_run (snd (as_step a x)) xs)" and ?q = "as_queue (snd (as_run (snd (as_step a x)) xs))"
  have rest: "foldl seen (acc1, t1) (zip xs ?obs) = (acc', t')"
    using Cons.prems(5) h by (simp add: as_run_Cons del: as_run.simps)
  have ih: "drop t1 acc' = bytes_read_out (zip xs ?obs) @ ?q"
    using Cons.prems(1,4) by (intro Cons.IH [OF _ q _ rest]) simp_all
  obtain ws where ws: "acc' = acc1 @ ws"
    using as_run_history [OF _ q rest] Cons.prems(1) by auto
  show ?case
  proof (cases "\<exists>n. x = OpRead n")
    case True
    then obtain n where n: "x = OpRead n" ..
    let ?b = "take (unat n) (drop t acc)"
    have "acc1 = acc" "t1 = t + length ?b"
      using h n Cons.prems(2) by auto
    moreover have "?b = take (length ?b) (drop t (acc @ ws))"
      using Cons.prems(3) by (simp add: min_def)
    then have "drop t (acc @ ws) = ?b @ drop (t + length ?b) (acc @ ws)"
      by (metis add.commute append_take_drop_id drop_drop)
    ultimately show ?thesis
      using ih ws n Cons.prems(2) by (simp add: as_run_Cons del: as_run.simps)
  next
    case False
    with h Cons.prems(4) have "t1 = t" "bytes_read_out ((x, fst (as_step a x)) # cs) = bytes_read_out cs" for cs
      by (cases x; auto simp: Let_def)+
    with ih show ?thesis by (simp add: as_run_Cons del: as_run.simps)
  qed
qed simp

lemma as_new_ok: "as_ok (as_new c)"
  by (simp add: as_ok_def as_new_def)

section \<open>The contract\<close>

text \<open>A sequence of calls on an implementation; the first exception ends it.\<close>

fun run_ops :: "('s \<Rightarrow> stream_op \<Rightarrow> (stream_obs \<times> 's) result) \<Rightarrow> 's \<Rightarrow> stream_op list \<Rightarrow>
    (stream_obs list \<times> 's) result" where
  "run_ops step s [] = Inr ([], s)"
| "run_ops step s (x # xs) =
     bindR (step s x) (\<lambda>(ob, s'). bindR (run_ops step s' xs) (\<lambda>(obs, s''). Inr (ob # obs, s'')))"

locale stream_impl =
  fixes inv :: "'s \<Rightarrow> bool"
    and abs :: "'s \<Rightarrow> abs_stream"
    and step :: "'s \<Rightarrow> stream_op \<Rightarrow> (stream_obs \<times> 's) result"
  assumes step_refines: "inv s \<Longrightarrow> op_ok x \<Longrightarrow>
      \<exists>s'. step s x = Inr (fst (as_step (abs s) x), s') \<and> inv s' \<and> abs s' = snd (as_step (abs s) x)"
begin

lemma run_refines:
  assumes "inv s" and "list_all op_ok xs"
  shows "\<exists>s'. run_ops step s xs = Inr (fst (as_run (abs s) xs), s') \<and> inv s' \<and>
           abs s' = snd (as_run (abs s) xs)"
  using assms
proof (induction xs arbitrary: s)
  case Nil
  then show ?case by simp
next
  case (Cons x xs)
  from Cons.prems have x: "op_ok x" "list_all op_ok xs" by simp_all
  obtain t where t: "step s x = Inr (fst (as_step (abs s) x), t)" "inv t"
      "abs t = snd (as_step (abs s) x)"
    using step_refines [OF Cons.prems(1) x(1)] by blast
  obtain s' where "run_ops step t xs = Inr (fst (as_run (abs t) xs), s')" "inv s'"
      "abs s' = snd (as_run (abs t) xs)"
    using Cons.IH [OF t(2) x(2)] by blast
  with t show ?case
    by (simp add: as_run_Cons del: as_run.simps)
qed

lemma run_history:
  assumes "inv s" and "as_queue (abs s) = []" and "list_all op_ok xs" and "run_ops step s xs = Inr (obs, s')"
    and "history (zip xs obs) = (accepted, gone)"
  shows "as_queue (abs s') = drop gone accepted" and "gone \<le> length accepted"
    and "\<forall>n. OpPop n \<notin> set xs \<Longrightarrow> accepted = bytes_read_out (zip xs obs) @ as_queue (abs s')"
proof -
  have run: "obs = fst (as_run (abs s) xs)" "abs s' = snd (as_run (abs s) xs)"
    using run_refines [OF assms(1,3)] assms(4) by auto
  have h: "foldl seen ([], 0) (zip xs (fst (as_run (abs s) xs))) = (accepted, gone)"
    using assms(5) run(1) by (simp add: history_def)
  show "as_queue (abs s') = drop gone accepted" "gone \<le> length accepted"
    using as_run_history [OF assms(3) _ _ h] assms(2) run(2) by auto
  show "accepted = bytes_read_out (zip xs obs) @ as_queue (abs s')" if "\<forall>n. OpPop n \<notin> set xs"
    using as_run_reads [OF assms(3) _ _ that h] assms(2) run by simp
qed

lemma run_answer:
  assumes "inv s" and "as_queue (abs s) = []" and "list_all op_ok xs" and "run_ops step s xs = Inr (obs, s')"
    and "i < length xs" and "xs ! i = OpRead n \<or> xs ! i = OpPeek n"
    and "history (zip (take i xs) obs) = (accepted, gone)"
  shows "obs ! i = Bytes (take (unat n) (drop gone accepted))"
  using as_run_answer [OF assms(3) _ _ assms(5,6), of "abs s" 0 "[]" accepted gone] assms(2,7) run_refines [OF assms(1,3)] assms(4)
  by (auto simp: history_def)

lemma run_fifo:
  assumes "inv s" and "list_all op_ok xs" and "run_ops step s xs = Inr (obs, s')"
  shows "as_queue (abs s) @ as_ins (abs s) xs = as_outs (abs s) xs @ as_queue (abs s')"
  using run_refines [OF assms(1,2)] assms(3) by (auto simp: as_run_fifo)

lemma run_ok:
  assumes "inv s" and "as_ok (abs s)" and "list_all op_ok xs" and "run_ops step s xs = Inr (obs, s')"
  shows "as_ok (abs s')" and "as_capacity (abs s') = as_capacity (abs s)"
  using run_refines [OF assms(1,3)] assms(2,4) by (auto simp: as_run_ok as_run_capacity)

end

end
