(* ===== verification/Byte_Stream.thy ===== *)
theory Byte_Stream
  imports Stream_Contract
begin

text \<open>
  The class \<open>ByteStream\<close> of \<open>libsponge/byte_stream.hh\<close> and \<open>libsponge/byte_stream.cc\<close>: a bounded
  in-order byte stream kept in a circular buffer.  The first part translates the class method by
  method; the second proves what the methods do to the stream's contents, the bytes written and not
  yet popped, under the class invariant \<open>bs_ok\<close>.
\<close>

section \<open>The class\<close>

text \<open>The private members, in the order of their declaration.  \<open>sind = -1\<close> marks an empty buffer;
  \<open>eind\<close> is then stale.\<close>

record ByteStream =
  maxlen :: int
  buffer :: string
  sind :: int
  eind :: int
  cnt_read :: size_t
  cnt_write :: size_t
  bs_error :: bool
  bs_input_active :: bool

text \<open>The constructor.  The capacity is converted to \<open>int\<close>, then back to \<open>size_t\<close> for the
  length of the buffer.\<close>

definition ByteStream_new :: "size_t \<Rightarrow> ByteStream result" where
  "ByteStream_new capacity =
     (let m = int_of_size capacity in
      bindR (string_fill (size_of_int m) CHR '' '') (\<lambda>b.
        Inr \<lparr>maxlen = m, buffer = b, sind = -1, eind = -1, cnt_read = 0, cnt_write = 0,
             bs_error = False, bs_input_active = True\<rparr>))"

definition ByteStream_buffer_empty :: "ByteStream \<Rightarrow> bool" where
  "ByteStream_buffer_empty s \<longleftrightarrow> sind s = -1"

text \<open>\<open>(maxlen + (eind - sind) % maxlen) % maxlen + 1\<close>, every operation on \<open>int\<close>.\<close>

definition ByteStream_buffer_size :: "ByteStream \<Rightarrow> size_t result" where
  "ByteStream_buffer_size s =
     (if ByteStream_buffer_empty s then Inr 0
      else
        bindR (int_sub (eind s) (sind s)) (\<lambda>d.
        bindR (int_rem d (maxlen s)) (\<lambda>r.
        bindR (int_add (maxlen s) r) (\<lambda>t.
        bindR (int_rem t (maxlen s)) (\<lambda>u.
        bindR (int_add u 1) (\<lambda>v. Inr (size_of_int v)))))))"

definition ByteStream_remaining_capacity :: "ByteStream \<Rightarrow> size_t result" where
  "ByteStream_remaining_capacity s =
     bindR (ByteStream_buffer_size s) (\<lambda>n. Inr (size_of_int (maxlen s) - n))"

text \<open>One round of the loop in \<open>write\<close>, and the loop over \<open>data[0], \<dots>, data[writenum - 1]\<close>.\<close>

definition write_byte :: "ByteStream \<Rightarrow> char \<Rightarrow> ByteStream result" where
  "write_byte s c =
     bindR (int_add (eind s) 1) (\<lambda>a.
     bindR (int_rem a (maxlen s)) (\<lambda>e.
     bindR (string_set (buffer s) (size_of_int e) c) (\<lambda>b.
       Inr (s\<lparr>eind := e, buffer := b\<rparr>))))"

fun write_loop :: "ByteStream \<Rightarrow> string \<Rightarrow> ByteStream result" where
  "write_loop s [] = Inr s"
| "write_loop s (c # cs) = bindR (write_byte s c) (\<lambda>s'. write_loop s' cs)"

definition ByteStream_write :: "ByteStream \<Rightarrow> string \<Rightarrow> (size_t \<times> ByteStream) result" where
  "ByteStream_write s data =
     bindR (ByteStream_remaining_capacity s) (\<lambda>room.
       let writenum = min (string_length data) room in
       if writenum = 0 then Inr (0, s)
       else
         let s' = (if ByteStream_buffer_empty s then s\<lparr>sind := 0, eind := -1\<rparr> else s) in
         bindR (write_loop s' (take (unat writenum) data)) (\<lambda>s''.
           Inr (writenum, s''\<lparr>cnt_write := cnt_write s'' + writenum\<rparr>)))"

text \<open>\<open>peek_output\<close>: \<open>out[i] = buffer[(sind + i) % maxlen]\<close> for each index.  The index is computed in
  \<open>size_t\<close>, because \<open>i\<close> is one.\<close>

fun peek_loop :: "ByteStream \<Rightarrow> nat list \<Rightarrow> string \<Rightarrow> string result" where
  "peek_loop s [] out = Inr out"
| "peek_loop s (i # is) out =
     bindR (size_rem (size_of_int (sind s) + of_nat i) (size_of_int (maxlen s))) (\<lambda>j.
     bindR (string_get (buffer s) j) (\<lambda>c.
     bindR (string_set out (of_nat i) c) (\<lambda>out'. peek_loop s is out')))"

definition ByteStream_peek_output :: "ByteStream \<Rightarrow> size_t \<Rightarrow> string result" where
  "ByteStream_peek_output s len =
     bindR (ByteStream_buffer_size s) (\<lambda>n.
       let readnum = min n len in
       bindR (string_fill readnum CHR '' '') (\<lambda>out. peek_loop s [0..<unat readnum] out))"

definition ByteStream_pop_output :: "ByteStream \<Rightarrow> size_t \<Rightarrow> ByteStream result" where
  "ByteStream_pop_output s len =
     bindR (ByteStream_buffer_size s) (\<lambda>n.
       if n \<le> len
       then bindR (ByteStream_buffer_size s) (\<lambda>n'.
              Inr (s\<lparr>cnt_read := cnt_read s + n', sind := -1\<rparr>))
       else bindR (size_rem (size_of_int (sind s) + len) (size_of_int (maxlen s))) (\<lambda>j.
              Inr (s\<lparr>cnt_read := cnt_read s + len, sind := int_of_size j\<rparr>)))"

definition ByteStream_read :: "ByteStream \<Rightarrow> size_t \<Rightarrow> (string \<times> ByteStream) result" where
  "ByteStream_read s len =
     bindR (ByteStream_peek_output s len) (\<lambda>out.
     bindR (ByteStream_pop_output s len) (\<lambda>s'. Inr (out, s')))"

definition ByteStream_end_input :: "ByteStream \<Rightarrow> ByteStream" where
  "ByteStream_end_input s = s\<lparr>bs_input_active := False\<rparr>"

definition ByteStream_set_error :: "ByteStream \<Rightarrow> ByteStream" where
  "ByteStream_set_error s = s\<lparr>bs_error := True\<rparr>"

definition ByteStream_input_ended :: "ByteStream \<Rightarrow> bool" where
  "ByteStream_input_ended s \<longleftrightarrow> \<not> bs_input_active s"

definition ByteStream_error :: "ByteStream \<Rightarrow> bool" where
  "ByteStream_error s \<longleftrightarrow> bs_error s"

definition ByteStream_eof :: "ByteStream \<Rightarrow> bool" where
  "ByteStream_eof s \<longleftrightarrow> \<not> bs_input_active s \<and> ByteStream_buffer_empty s"

definition ByteStream_bytes_written :: "ByteStream \<Rightarrow> size_t" where
  "ByteStream_bytes_written s = cnt_write s"

definition ByteStream_bytes_read :: "ByteStream \<Rightarrow> size_t" where
  "ByteStream_bytes_read s = cnt_read s"

section \<open>Reading a ring\<close>

text \<open>\<open>ring_read b start n\<close>: the \<open>n\<close> elements of the circular list \<open>b\<close> from position \<open>start\<close>.\<close>

definition ring_read :: "'a list \<Rightarrow> nat \<Rightarrow> nat \<Rightarrow> 'a list" where
  "ring_read b start n = map (\<lambda>i. b ! ((start + i) mod length b)) [0..<n]"

lemma length_ring_read [simp]: "length (ring_read b start n) = n"
  by (simp add: ring_read_def)

lemma nth_ring_read [simp]: "i < n \<Longrightarrow> ring_read b start n ! i = b ! ((start + i) mod length b)"
  by (simp add: ring_read_def)

lemma mod_add_inj:
  fixes i n m :: nat
  assumes "(k + i) mod m = (k + n) mod m" and "i < m" and "n < m"
  shows "i = n"
proof -
  have "int (k + i) mod int m = int (k + n) mod int m"
    using assms(1) by (metis zmod_int)
  then have "(int (k + i) - int k) mod int m = (int (k + n) - int k) mod int m"
    by (rule mod_diff_cong) simp
  with assms(2,3) show ?thesis by simp
qed

lemma ring_read_snoc:
  assumes "n < length b"
  shows "ring_read (b[(start + n) mod length b := c]) start (Suc n) = ring_read b start n @ [c]"
proof (rule nth_equalityI)
  fix i assume "i < length (ring_read (b[(start + n) mod length b := c]) start (Suc n))"
  then consider "i < n" | "i = n" by fastforce
  then show "ring_read (b[(start + n) mod length b := c]) start (Suc n) ! i
      = (ring_read b start n @ [c]) ! i"
  proof cases
    case 1
    then have "(start + n) mod length b \<noteq> (start + i) mod length b"
      using assms mod_add_inj [of start n "length b" i] by fastforce
    with 1 show ?thesis by (simp add: nth_append)
  next
    case 2
    have "(start + n) mod length b < length b"
      using assms by (intro mod_less_divisor) auto
    with 2 show ?thesis by (simp add: nth_append)
  qed
qed simp

lemma ring_read_drop:
  assumes "k \<le> n"
  shows "ring_read b ((start + k) mod length b) (n - k) = drop k (ring_read b start n)"
  using assms by (intro nth_equalityI) (simp_all add: mod_add_left_eq add.assoc)

section \<open>The class invariant and the contents of a stream\<close>

text \<open>The indices stay inside the buffer, and the capacity is at most \<open>2 ^ 30\<close>: up to there
  \<open>maxlen + (eind - sind) % maxlen\<close> is a value of type \<open>int\<close>.\<close>

definition max_capacity :: int where
  "max_capacity = 2 ^ 30"

definition bs_ok :: "ByteStream \<Rightarrow> bool" where
  "bs_ok s \<longleftrightarrow>
     0 \<le> maxlen s \<and> maxlen s \<le> max_capacity \<and> length (buffer s) = nat (maxlen s) \<and>
     (sind s = -1 \<or> 0 \<le> sind s \<and> sind s < maxlen s \<and> 0 \<le> eind s \<and> eind s < maxlen s)"

definition bs_len :: "ByteStream \<Rightarrow> nat" where
  "bs_len s = (if sind s = -1 then 0 else nat ((eind s - sind s) mod maxlen s) + 1)"

definition bs_contents :: "ByteStream \<Rightarrow> string" where
  "bs_contents s = ring_read (buffer s) (nat (sind s)) (bs_len s)"

definition bs_capacity :: "ByteStream \<Rightarrow> nat" where
  "bs_capacity s = nat (maxlen s)"

lemma length_bs_contents [simp]: "length (bs_contents s) = bs_len s"
  by (simp add: bs_contents_def)

lemma bs_ok_capacity: "bs_ok s \<Longrightarrow> bs_capacity s \<le> 2 ^ 30"
  by (auto simp: bs_ok_def bs_capacity_def max_capacity_def)

lemma bs_len_le: "bs_ok s \<Longrightarrow> bs_len s \<le> bs_capacity s"
proof (cases "sind s = -1")
  case False
  assume "bs_ok s"
  with False have "0 < maxlen s" by (auto simp: bs_ok_def)
  then have "0 \<le> (eind s - sind s) mod maxlen s" "(eind s - sind s) mod maxlen s < maxlen s"
    by simp_all
  with False show ?thesis by (simp add: bs_len_def bs_capacity_def Suc_le_eq)
qed (simp add: bs_len_def)

lemma bs_len_small: "bs_ok s \<Longrightarrow> bs_len s < 2 ^ 31"
  using bs_len_le [of s] bs_ok_capacity [of s] by simp

lemma bs_len_0_iff: "bs_len s = 0 \<longleftrightarrow> ByteStream_buffer_empty s"
  by (simp add: bs_len_def ByteStream_buffer_empty_def)

lemma bs_contents_Nil_iff: "bs_contents s = [] \<longleftrightarrow> ByteStream_buffer_empty s"
  using bs_len_0_iff [of s] by (metis length_0_conv length_bs_contents)

text \<open>The doubled remainder of \<open>buffer_size\<close> is the Euclidean one.\<close>

lemma doubled_remainder:
  fixes d m :: int
  assumes "- m < d" and "d < m"
  shows "d smod m = d" and "(m + d) smod m = d mod m"
proof -
  show "d smod m = d" using assms by (rule smod_small)
  have "(m + d) smod m = (m + d) mod m"
    using assms by (intro smod_nonneg) auto
  then show "(m + d) smod m = d mod m" by simp
qed

lemma buffer_size_eq:
  assumes "bs_ok s"
  shows "ByteStream_buffer_size s = Inr (of_nat (bs_len s))"
proof (cases "sind s = -1")
  case True
  then show ?thesis
    by (simp add: ByteStream_buffer_size_def ByteStream_buffer_empty_def bs_len_def)
next
  case False
  let ?m = "maxlen s" and ?d = "eind s - sind s"
  have m: "0 < ?m" "?m \<le> 1073741824" "- ?m < ?d" "?d < ?m"
    using assms False by (auto simp: bs_ok_def max_capacity_def)
  have r: "0 \<le> ?d mod ?m" "?d mod ?m < ?m"
    using m(1) by simp_all
  have ok: "int_ok ?d" "int_ok (?m + ?d)" "int_ok (?d mod ?m + 1)"
    by (rule int_okI; use m r in linarith)+
  from False m r ok show ?thesis
    by (simp add: ByteStream_buffer_size_def ByteStream_buffer_empty_def bs_len_def
        int_sub_ok int_add_ok int_rem_pos doubled_remainder size_of_int_def)
qed

lemma remaining_capacity_eq:
  assumes "bs_ok s"
  shows "ByteStream_remaining_capacity s = Inr (of_nat (bs_capacity s - bs_len s))"
proof -
  have "size_of_int (maxlen s) = of_nat (bs_capacity s)"
    using assms by (simp add: size_of_int_def bs_capacity_def bs_ok_def)
  then show ?thesis
    using assms bs_len_le [of s]
    by (simp add: ByteStream_remaining_capacity_def buffer_size_eq of_nat_diff)
qed

subsection \<open>The write loop\<close>

text \<open>While the loop runs, the buffer holds \<open>n\<close> bytes from \<open>sind\<close> on and \<open>eind\<close> is the position
  before the next one; for \<open>n = 0\<close> that is \<open>-1\<close>, which \<open>bs_ok\<close> excludes.  The loop needs less of the
  capacity than \<open>bs_ok\<close> says: any positive \<open>int\<close> will do.\<close>

definition bs_filled :: "ByteStream \<Rightarrow> nat \<Rightarrow> bool" where
  "bs_filled s n \<longleftrightarrow>
     int_ok (maxlen s) \<and> length (buffer s) = nat (maxlen s) \<and>
     0 \<le> sind s \<and> sind s < maxlen s \<and> -1 \<le> eind s \<and> eind s < maxlen s \<and>
     (eind s + 1) mod maxlen s = (sind s + int n) mod maxlen s"

definition write_pos :: "ByteStream \<Rightarrow> int" where
  "write_pos s = (eind s + 1) mod maxlen s"

text \<open>The loop changes \<open>buffer\<close> and \<open>eind\<close> only.\<close>

definition same_frame :: "ByteStream \<Rightarrow> ByteStream \<Rightarrow> bool" where
  "same_frame s t \<longleftrightarrow>
     maxlen t = maxlen s \<and> sind t = sind s \<and> cnt_read t = cnt_read s \<and> cnt_write t = cnt_write s \<and>
     bs_error t = bs_error s \<and> bs_input_active t = bs_input_active s"

lemma write_byte_eq:
  assumes "bs_filled s n"
  shows "write_byte s c = Inr (s\<lparr>eind := write_pos s, buffer := (buffer s)[nat (write_pos s) := c]\<rparr>)"
proof -
  have m: "0 < maxlen s" "maxlen s \<le> 2147483647" "-1 \<le> eind s" "eind s < maxlen s"
    using assms by (auto simp: bs_filled_def int_ok_def)
  have w: "0 \<le> write_pos s" "write_pos s < maxlen s"
    using m(1) by (simp_all add: write_pos_def)
  have "int_ok (eind s + 1)"
    by (rule int_okI; use m in linarith)
  moreover have "(eind s + 1) smod maxlen s = write_pos s"
    unfolding write_pos_def using m by (intro smod_nonneg) auto
  moreover have u: "unat (size_of_int (write_pos s)) = nat (write_pos s)"
    using w m by (intro unat_size_of_int) auto
  moreover from u have "unat (size_of_int (write_pos s)) < length (buffer s)"
    using assms w by (simp add: bs_filled_def)
  ultimately show ?thesis
    using m by (simp add: write_byte_def int_add_ok int_rem_pos)
qed

lemma write_pos_ring:
  assumes "bs_filled s n"
  shows "nat (write_pos s) = (nat (sind s) + n) mod length (buffer s)"
proof -
  have "write_pos s = (int (nat (sind s)) + int n) mod int (length (buffer s))"
    using assms by (auto simp: bs_filled_def write_pos_def)
  then show ?thesis
    by (metis nat_int of_nat_add zmod_int)
qed

lemma write_byte_filled:
  assumes "bs_filled s n" and "n < bs_capacity s" and "write_byte s c = Inr s'"
  shows "bs_filled s' (Suc n)" and "0 \<le> eind s'"
    and "same_frame s s'"
    and "ring_read (buffer s') (nat (sind s)) (Suc n) = ring_read (buffer s) (nat (sind s)) n @ [c]"
proof -
  have s': "s' = s\<lparr>eind := write_pos s, buffer := (buffer s)[nat (write_pos s) := c]\<rparr>"
    using assms(3) write_byte_eq [OF assms(1)] by simp
  have m: "0 < maxlen s"
    using assms(1) by (auto simp: bs_filled_def)
  then have w: "0 \<le> write_pos s" "write_pos s < maxlen s"
    by (simp_all add: write_pos_def)
  have "(write_pos s + 1) mod maxlen s = (sind s + int (Suc n)) mod maxlen s"
  proof -
    have "(write_pos s + 1) mod maxlen s = ((sind s + int n) mod maxlen s + 1) mod maxlen s"
      using assms(1) by (simp add: write_pos_def bs_filled_def)
    also have "\<dots> = (sind s + int (Suc n)) mod maxlen s"
      by (simp add: mod_simps ac_simps)
    finally show ?thesis .
  qed
  with assms(1) w show "bs_filled s' (Suc n)" "0 \<le> eind s'"
    by (simp_all add: s' bs_filled_def)
  show "same_frame s s'"
    by (simp add: s' same_frame_def)
  have "n < length (buffer s)"
    using assms(1,2) by (simp add: bs_filled_def bs_capacity_def)
  then show "ring_read (buffer s') (nat (sind s)) (Suc n)
      = ring_read (buffer s) (nat (sind s)) n @ [c]"
    using assms(1) by (simp add: s' write_pos_ring ring_read_snoc)
qed

lemma write_loop_filled:
  assumes "bs_filled s n" and "n + length cs \<le> bs_capacity s"
  shows "\<exists>s'. write_loop s cs = Inr s' \<and> bs_filled s' (n + length cs) \<and> (cs \<noteq> [] \<longrightarrow> 0 \<le> eind s') \<and>
           same_frame s s' \<and>
           ring_read (buffer s') (nat (sind s)) (n + length cs)
             = ring_read (buffer s) (nat (sind s)) n @ cs"
  using assms
proof (induction cs arbitrary: s n)
  case Nil
  then show ?case by (simp add: same_frame_def)
next
  case (Cons c cs)
  obtain t where t: "write_byte s c = Inr t"
    using write_byte_eq [OF Cons.prems(1)] by blast
  have n: "n < bs_capacity s"
    using Cons.prems(2) by simp
  note step = write_byte_filled [OF Cons.prems(1) n t]
  have fr: "sind t = sind s" "bs_capacity t = bs_capacity s"
    using step(3) by (simp_all add: same_frame_def bs_capacity_def)
  obtain s' where s': "write_loop t cs = Inr s'" "bs_filled s' (Suc n + length cs)"
      "cs \<noteq> [] \<longrightarrow> 0 \<le> eind s'" "same_frame t s'"
      "ring_read (buffer s') (nat (sind t)) (Suc n + length cs)
        = ring_read (buffer t) (nat (sind t)) (Suc n) @ cs"
    using Cons.IH [OF step(1)] Cons.prems(2) fr by auto
  have "0 \<le> eind s'"
    using s'(1,3) step(2) by (cases cs) auto
  moreover have "same_frame s s'"
    using s'(4) step(3) by (simp add: same_frame_def)
  ultimately show ?case
    using s' t step(4) fr by (intro exI [of _ s']) simp
qed

lemma bs_ok_filled:
  assumes "bs_ok s" and "sind s \<noteq> -1"
  shows "bs_filled s (bs_len s)"
proof -
  have m: "0 < maxlen s"
    using assms by (auto simp: bs_ok_def)
  then have "(sind s + int (bs_len s)) mod maxlen s
      = ((eind s - sind s) mod maxlen s + (sind s + 1)) mod maxlen s"
    using assms(2) by (simp add: bs_len_def ac_simps)
  also have "\<dots> = (eind s + 1) mod maxlen s"
    by (subst mod_add_left_eq) (simp add: algebra_simps)
  finally show ?thesis
    using assms by (auto simp: bs_filled_def bs_ok_def max_capacity_def int_ok_def)
qed

lemma bs_filled_distance:
  assumes "bs_filled s n" and "0 < n" and "n \<le> bs_capacity s"
  shows "(eind s - sind s) mod maxlen s = int n - 1"
proof -
  have "((eind s + 1) - (sind s + 1)) mod maxlen s = ((sind s + int n) - (sind s + 1)) mod maxlen s"
    using assms(1) by (intro mod_diff_cong) (simp_all add: bs_filled_def)
  moreover have "(int n - 1) mod maxlen s = int n - 1"
    using assms(2,3) by (intro mod_pos_pos_trivial) (auto simp: bs_capacity_def)
  ultimately show ?thesis
    by (simp add: algebra_simps)
qed

lemma bs_filled_ok:
  assumes "bs_filled s n" and "maxlen s \<le> max_capacity" and "0 < n" and "n \<le> bs_capacity s" and "0 \<le> eind s"
  shows "bs_ok s" and "bs_len s = n"
proof -
  show "bs_ok s"
    using assms by (auto simp: bs_filled_def bs_ok_def)
  show "bs_len s = n"
    using bs_filled_distance [OF assms(1,3,4)] assms(1,3) by (auto simp: bs_len_def bs_filled_def)
qed

lemma take_unat_min:
  assumes "string_ok data" and "room < 2 ^ 64"
  shows "min (string_length data) (of_nat room) = of_nat (min (length data) room)"
    and "unat (of_nat (min (length data) room) :: size_t) = min (length data) room"
proof -
  have "min (length data) room < 2 ^ 64"
    using assms(2) by simp
  then show u: "unat (of_nat (min (length data) room) :: size_t) = min (length data) room"
    by (rule unat_of_nat_size)
  have "unat (string_length data) = length data" "unat (of_nat room :: size_t) = room"
    using assms by (simp_all add: unat_string_length unat_of_nat_size)
  then show "min (string_length data) (of_nat room) = of_nat (min (length data) room)"
    by (simp add: min_def word_le_nat_alt string_length_def)
qed

text \<open>What \<open>write\<close> does: it accepts as much of the data as there is room for, appends it to the
  contents, counts it, and changes nothing else.\<close>

lemma write_some:
  assumes "bs_ok s" and "0 < k" and "k \<le> length data" and "bs_len s + k \<le> bs_capacity s"
    and "t = (if ByteStream_buffer_empty s then s\<lparr>sind := 0, eind := -1\<rparr> else s)"
  shows "\<exists>s'. write_loop t (take k data) = Inr s' \<and> bs_ok s' \<and> same_frame t s' \<and>
    bs_contents s' = bs_contents s @ take k data"
proof -
  have fill: "bs_filled t (bs_len s)" "bs_capacity t = bs_capacity s"
    using assms bs_ok_filled [OF assms(1)]
    by (auto simp: ByteStream_buffer_empty_def bs_filled_def bs_len_def bs_capacity_def
        bs_ok_def max_capacity_def int_ok_def)
  obtain s' where s': "write_loop t (take k data) = Inr s'" "bs_filled s' (bs_len s + k)"
      "0 \<le> eind s'" "same_frame t s'"
      "ring_read (buffer s') (nat (sind t)) (bs_len s + k)
        = ring_read (buffer t) (nat (sind t)) (bs_len s) @ take k data"
    using write_loop_filled [OF fill(1), of "take k data"] assms(2-4) fill(2) by auto
  have "bs_capacity s' = bs_capacity s"
    using s'(4) fill(2) by (simp add: same_frame_def bs_capacity_def)
  then have ok: "bs_ok s'" "bs_len s' = bs_len s + k"
    using bs_filled_ok [OF s'(2)] s'(3,4) assms
    by (simp_all add: same_frame_def bs_ok_def)
  have "ring_read (buffer t) (nat (sind t)) (bs_len s) = bs_contents s"
    by (simp add: assms(5) bs_contents_def ByteStream_buffer_empty_def bs_len_def ring_read_def)
  then have "bs_contents s' = bs_contents s @ take k data"
    using s'(4,5) ok(2) by (simp add: bs_contents_def same_frame_def)
  with s'(1,4) ok(1) show ?thesis by blast
qed

lemma write_eq:
  assumes "bs_ok s" and "string_ok data" and "k = min (length data) (bs_capacity s - bs_len s)"
  shows "\<exists>s'. ByteStream_write s data = Inr (of_nat k, s') \<and> bs_ok s' \<and>
           bs_contents s' = bs_contents s @ take k data \<and> bs_capacity s' = bs_capacity s \<and>
           cnt_write s' = cnt_write s + of_nat k \<and> cnt_read s' = cnt_read s \<and>
           bs_error s' = bs_error s \<and> bs_input_active s' = bs_input_active s"
proof -
  have cap: "bs_capacity s - bs_len s < 2 ^ 64"
    using bs_ok_capacity [OF assms(1)] by simp
  note k = take_unat_min [OF assms(2) cap, folded assms(3)]
  define t where "t = (if ByteStream_buffer_empty s then s\<lparr>sind := 0, eind := -1\<rparr> else s)"
  show ?thesis
  proof (cases "k = 0")
    case True
    then show ?thesis
      using assms(1) k by (simp add: ByteStream_write_def remaining_capacity_eq)
  next
    case False
    then have kpos: "0 < k" "of_nat k \<noteq> (0 :: size_t)"
      using k(2) by auto
    have "k \<le> length data" "bs_len s + k \<le> bs_capacity s"
      using assms(3) bs_len_le [OF assms(1)] by auto
    from write_some [OF assms(1) kpos(1) this t_def] obtain s' where s': "write_loop t (take k data) = Inr s'"
        "bs_ok s'" "same_frame t s'" "bs_contents s' = bs_contents s @ take k data"
      by blast
    let ?r = "s'\<lparr>cnt_write := cnt_write s' + of_nat k\<rparr>"
    have "ByteStream_write s data = Inr (of_nat k, ?r)"
      using assms(1) k kpos s'(1)
      by (simp add: ByteStream_write_def remaining_capacity_eq t_def [symmetric] Let_def)
    moreover have "bs_ok ?r" "bs_contents ?r = bs_contents s'" "bs_capacity ?r = bs_capacity s'"
      using s'(2) by (simp_all add: bs_ok_def bs_contents_def bs_len_def bs_capacity_def)
    ultimately show ?thesis
      using s'(3,4) by (intro exI [of _ ?r]) (simp add: same_frame_def t_def bs_capacity_def)
  qed
qed

subsection \<open>Reading\<close>

lemma ring_index:
  assumes "0 \<le> i" and "i < m" and "m \<le> 2147483647" and "k < 2 ^ 31"
  shows "size_rem (size_of_int i + of_nat k) (size_of_int m) = Inr (of_nat ((nat i + k) mod nat m))"
proof -
  have "size_of_int i + of_nat k = (of_nat (nat i + k) :: size_t)" "size_of_int m = (of_nat (nat m) :: size_t)"
    using assms by (simp_all add: size_of_int_def)
  moreover have "(of_nat (nat i + k) :: size_t) mod of_nat (nat m) = of_nat ((nat i + k) mod nat m)"
    by (rule mod_of_nat_size) (use assms in auto)
  moreover have "unat (of_nat (nat m) :: size_t) = nat m"
    by (rule unat_of_nat_size) (use assms in auto)
  then have "(of_nat (nat m) :: size_t) \<noteq> 0"
    using assms by (metis linorder_not_less nat_0_iff order.strict_trans1 unat_0)
  ultimately show ?thesis
    by (simp add: size_rem_def del: of_nat_add of_nat_nat)
qed

lemma peek_index:
  assumes "bs_ok s" and "sind s \<noteq> -1" and "i < 2 ^ 31"
  shows "size_rem (size_of_int (sind s) + of_nat i) (size_of_int (maxlen s))
      = Inr (of_nat ((nat (sind s) + i) mod length (buffer s)))"
  using ring_index [of "sind s" "maxlen s" i] assms by (auto simp: bs_ok_def max_capacity_def)

text \<open>The loop of \<open>peek_output\<close> started at index \<open>k\<close>, with the first \<open>k\<close> bytes of \<open>out\<close> already there.\<close>

lemma peek_loop_eq:
  assumes "bs_ok s" and "n \<le> bs_len s" and "length out = n" and "k \<le> n"
    and "take k out = take k (bs_contents s)"
  shows "peek_loop s [k..<n] out = Inr (take n (bs_contents s))"
  using assms(3-)
proof (induction "n - k" arbitrary: k out)
  case 0
  then show ?case by simp
next
  case (Suc d)
  have "k < n" using Suc.hyps(2) by simp
  have ne: "sind s \<noteq> -1"
    using \<open>k < n\<close> assms(2) by (auto simp: bs_len_def)
  have small: "k < 2 ^ 31" "n < 2 ^ 64"
    using \<open>k < n\<close> assms(2) bs_len_small [OF assms(1)] by simp_all
  define j where "j = (nat (sind s) + k) mod length (buffer s)"
  have "0 < length (buffer s)" "length (buffer s) < 2 ^ 64"
    using assms(1) ne by (auto simp: bs_ok_def max_capacity_def)
  then have j: "j < length (buffer s)" "unat (of_nat j :: size_t) = j"
    unfolding j_def by (simp, intro unat_of_nat_size) (meson mod_less_divisor less_trans)
  have k: "unat (of_nat k :: size_t) = k"
    using small by (simp add: unat_of_nat_size)
  define out' where "out' = out[k := buffer s ! j]"
  have step: "peek_loop s [k..<n] out = peek_loop s [Suc k..<n] out'"
    using \<open>k < n\<close> j k Suc.prems(1)
    by (simp add: upt_conv_Cons peek_index [OF assms(1) ne small(1)] j_def [symmetric] out'_def)
  have "bs_contents s ! k = buffer s ! j"
    using \<open>k < n\<close> assms(2) by (simp add: bs_contents_def j_def)
  then have "take (Suc k) out' = take (Suc k) (bs_contents s)"
    using Suc.prems \<open>k < n\<close> assms(2) by (simp add: take_Suc_conv_app_nth out'_def)
  then show ?case
    using Suc.hyps Suc.prems(1) \<open>k < n\<close> step by (simp add: out'_def)
qed

lemma min_len_size:
  assumes "bs_ok s"
  shows "min (of_nat (bs_len s)) len = (of_nat (min (bs_len s) (unat len)) :: size_t)"
    and "unat (min (of_nat (bs_len s)) len) = min (bs_len s) (unat len)"
proof -
  have "unat (of_nat (bs_len s) :: size_t) = bs_len s"
    using bs_len_small [OF assms] by (simp add: unat_of_nat_size)
  then show "unat (min (of_nat (bs_len s)) len) = min (bs_len s) (unat len)"
    by (simp add: min_def word_le_nat_alt)
  with \<open>unat (of_nat (bs_len s) :: size_t) = bs_len s\<close>
  show "min (of_nat (bs_len s)) len = (of_nat (min (bs_len s) (unat len)) :: size_t)"
    by (simp add: min_def word_le_nat_alt ucast_id)
qed

lemma peek_eq:
  assumes "bs_ok s"
  shows "ByteStream_peek_output s len = Inr (take (unat len) (bs_contents s))"
proof -
  let ?n = "min (bs_len s) (unat len)"
  have "?n \<le> string_max_size"
    using bs_len_small [OF assms] by (simp add: string_max_size_def)
  then have "string_fill (min (of_nat (bs_len s)) len) CHR '' '' = Inr (replicate ?n CHR '' '')"
    using min_len_size [OF assms, of len] by (auto simp: string_fill_def)
  moreover have "peek_loop s [0..<?n] (replicate ?n CHR '' '') = Inr (take ?n (bs_contents s))"
    by (rule peek_loop_eq) (simp_all add: assms)
  ultimately show ?thesis
    using assms min_len_size [OF assms, of len]
    by (simp add: ByteStream_peek_output_def buffer_size_eq Let_def min_def)
qed

subsection \<open>Popping\<close>

lemma bs_len_pop:
  assumes "bs_ok s" and "k < bs_len s"
  shows "nat ((eind s - (sind s + int k) mod maxlen s) mod maxlen s) + 1 = bs_len s - k"
proof -
  have ne: "sind s \<noteq> -1" and m: "0 < maxlen s"
    using assms by (auto simp: bs_len_def bs_ok_def split: if_splits)
  let ?d = "(eind s - sind s) mod maxlen s"
  have d: "0 \<le> ?d" "?d < maxlen s"
    using m by simp_all
  with assms(2) ne have "int k \<le> ?d"
    by (simp add: bs_len_def less_Suc_eq_le le_nat_iff)
  have "(eind s - (sind s + int k) mod maxlen s) mod maxlen s = (?d - int k) mod maxlen s"
    by (simp add: mod_simps diff_diff_eq)
  also have "\<dots> = ?d - int k"
    using d \<open>int k \<le> ?d\<close> by (intro mod_pos_pos_trivial) auto
  finally show ?thesis
    using d \<open>int k \<le> ?d\<close> ne by (simp add: bs_len_def nat_diff_distrib' Suc_diff_le le_nat_iff)
qed

lemma pop_part_run:
  assumes "bs_ok s" and "unat len < bs_len s" and "j = (nat (sind s) + unat len) mod length (buffer s)"
  shows "ByteStream_pop_output s len = Inr (s\<lparr>cnt_read := cnt_read s + len, sind := int j\<rparr>)"
    and "int j = (sind s + int (unat len)) mod maxlen s" and "j < length (buffer s)"
proof -
  have gt: "\<not> of_nat (bs_len s) \<le> len"
    using assms(2) bs_len_small [OF assms(1)] by (simp add: word_le_nat_alt unat_of_nat_size)
  have ne: "sind s \<noteq> -1"
    using assms(2) by (auto simp: bs_len_def)
  have m: "0 \<le> sind s" "0 < maxlen s" "maxlen s \<le> 1073741824" "length (buffer s) = nat (maxlen s)"
    using assms(1) ne by (auto simp: bs_ok_def max_capacity_def)
  have "len = of_nat (unat len)" by (simp add: ucast_id)
  then have rem: "size_rem (size_of_int (sind s) + len) (size_of_int (maxlen s)) = Inr (of_nat j)"
    using peek_index [OF assms(1) ne, of "unat len"] assms(2) bs_len_small [OF assms(1)]
    by (simp add: assms(3))
  show j: "j < length (buffer s)"
    using m by (simp add: assms(3))
  then have "int_of_size (of_nat j) = int j"
    using m by (subst int_of_size_small) (simp_all add: unat_of_nat_size)
  with rem show "ByteStream_pop_output s len = Inr (s\<lparr>cnt_read := cnt_read s + len, sind := int j\<rparr>)"
    using gt assms(1) by (simp add: ByteStream_pop_output_def buffer_size_eq)
  show "int j = (sind s + int (unat len)) mod maxlen s"
    using m by (simp only: assms(3) zmod_int of_nat_add) simp
qed

lemma pop_eq:
  assumes "bs_ok s" and "k = min (bs_len s) (unat len)"
  shows "\<exists>s'. ByteStream_pop_output s len = Inr s' \<and> bs_ok s' \<and>
           bs_contents s' = drop (unat len) (bs_contents s) \<and> bs_capacity s' = bs_capacity s \<and>
           cnt_read s' = cnt_read s + of_nat k \<and> cnt_write s' = cnt_write s \<and>
           bs_error s' = bs_error s \<and> bs_input_active s' = bs_input_active s"
proof (cases "bs_len s \<le> unat len")
  case True
  then have "of_nat (bs_len s) \<le> len"
    using bs_len_small [OF assms(1)] by (simp add: word_le_nat_alt unat_of_nat_size)
  then have "ByteStream_pop_output s len
      = Inr (s\<lparr>cnt_read := cnt_read s + of_nat k, sind := -1\<rparr>)"
    using True assms by (simp add: ByteStream_pop_output_def buffer_size_eq)
  with True assms(1) show ?thesis
    by (simp add: bs_ok_def bs_contents_def bs_len_def bs_capacity_def ring_read_def)
next
  case False
  define j where "j = (nat (sind s) + unat len) mod length (buffer s)"
  let ?s' = "s\<lparr>cnt_read := cnt_read s + len, sind := int j\<rparr>"
  have k: "of_nat k = len" "unat len < bs_len s"
    using False assms(2) by (simp_all add: ucast_id)
  note pop = pop_part_run [OF assms(1) k(2) j_def]
  have "bs_len ?s' = bs_len s - unat len"
    using bs_len_pop [OF assms(1) k(2), folded pop(2)] by (simp add: bs_len_def)
  then have "bs_contents ?s' = drop (unat len) (bs_contents s)"
    using ring_read_drop [of "unat len" "bs_len s" "buffer s" "nat (sind s)"] k(2)
    by (simp add: bs_contents_def j_def)
  moreover have "bs_ok ?s'"
    using assms(1) k(2) pop(3) by (auto simp: bs_ok_def bs_len_def)
  ultimately show ?thesis
    using pop(1) k(1) by (simp add: bs_capacity_def)
qed

text \<open>\<open>read\<close> returns what \<open>peek_output\<close> shows and removes it.\<close>

lemma read_eq:
  assumes "bs_ok s" and "ByteStream_pop_output s len = Inr s'"
  shows "ByteStream_read s len = Inr (take (unat len) (bs_contents s), s')"
  using assms by (simp add: ByteStream_read_def peek_eq)

section \<open>The stream as a whole\<close>

subsection \<open>The contract\<close>

text \<open>One call of a public method, as the contract numbers them.\<close>

fun ByteStream_step :: "ByteStream \<Rightarrow> stream_op \<Rightarrow> (stream_obs \<times> ByteStream) result" where
  "ByteStream_step s (OpWrite d) = bindR (ByteStream_write s d) (\<lambda>(k, s'). Inr (Count k, s'))"
| "ByteStream_step s (OpPeek n) = bindR (ByteStream_peek_output s n) (\<lambda>b. Inr (Bytes b, s))"
| "ByteStream_step s (OpPop n) = bindR (ByteStream_pop_output s n) (\<lambda>s'. Inr (Done, s'))"
| "ByteStream_step s (OpRead n) = bindR (ByteStream_read s n) (\<lambda>(b, s'). Inr (Bytes b, s'))"
| "ByteStream_step s OpEndInput = Inr (Done, ByteStream_end_input s)"
| "ByteStream_step s OpSetError = Inr (Done, ByteStream_set_error s)"
| "ByteStream_step s OpBufferSize = bindR (ByteStream_buffer_size s) (\<lambda>n. Inr (Count n, s))"
| "ByteStream_step s OpRemainingCapacity =
     bindR (ByteStream_remaining_capacity s) (\<lambda>n. Inr (Count n, s))"
| "ByteStream_step s OpBytesWritten = Inr (Count (ByteStream_bytes_written s), s)"
| "ByteStream_step s OpBytesRead = Inr (Count (ByteStream_bytes_read s), s)"
| "ByteStream_step s OpBufferEmpty = Inr (Flag (ByteStream_buffer_empty s), s)"
| "ByteStream_step s OpInputEnded = Inr (Flag (ByteStream_input_ended s), s)"
| "ByteStream_step s OpError = Inr (Flag (ByteStream_error s), s)"
| "ByteStream_step s OpEof = Inr (Flag (ByteStream_eof s), s)"

definition bs_abs :: "ByteStream \<Rightarrow> abs_stream" where
  "bs_abs s = \<lparr>as_capacity = bs_capacity s, as_queue = bs_contents s, as_written = cnt_write s,
     as_popped = cnt_read s, as_ended = \<not> bs_input_active s, as_failed = bs_error s\<rparr>"

lemma bs_abs_simps [simp]:
  "as_capacity (bs_abs s) = bs_capacity s" "as_queue (bs_abs s) = bs_contents s"
  "as_written (bs_abs s) = cnt_write s" "as_popped (bs_abs s) = cnt_read s"
  "as_ended (bs_abs s) = (\<not> bs_input_active s)" "as_failed (bs_abs s) = bs_error s"
  "as_room (bs_abs s) = bs_capacity s - bs_len s"
  by (simp_all add: bs_abs_def as_room_def)

lemma abs_stream_eqI:
  assumes "as_capacity a = as_capacity b" "as_queue a = as_queue b" "as_written a = as_written b"
    "as_popped a = as_popped b" "as_ended a = as_ended b" "as_failed a = as_failed b"
  shows "a = (b :: abs_stream)"
  using assms by (cases a, cases b) simp

lemmas bs_observers =
  ByteStream_bytes_written_def ByteStream_bytes_read_def ByteStream_input_ended_def
  ByteStream_error_def ByteStream_eof_def

lemma step_write:
  assumes "bs_ok s" and "string_ok d"
  shows "\<exists>s'. ByteStream_step s (OpWrite d) = Inr (fst (as_step (bs_abs s) (OpWrite d)), s') \<and>
    bs_ok s' \<and> bs_abs s' = snd (as_step (bs_abs s) (OpWrite d))"
proof -
  obtain s' where "ByteStream_write s d = Inr (of_nat (min (length d) (bs_capacity s - bs_len s)), s')"
      "bs_ok s'" "bs_contents s' = bs_contents s @ take (min (length d) (bs_capacity s - bs_len s)) d"
      "bs_capacity s' = bs_capacity s"
      "cnt_write s' = cnt_write s + of_nat (min (length d) (bs_capacity s - bs_len s))"
      "cnt_read s' = cnt_read s" "bs_error s' = bs_error s" "bs_input_active s' = bs_input_active s"
    using write_eq [OF assms refl] by blast
  then show ?thesis
    by (intro exI [of _ s'] conjI abs_stream_eqI) (simp_all add: Let_def)
qed

lemma step_pop:
  assumes "bs_ok s"
  shows "\<exists>s'. ByteStream_pop_output s n = Inr s' \<and> bs_ok s' \<and> bs_abs s' = as_pop (bs_abs s) n"
proof -
  obtain s' where "ByteStream_pop_output s n = Inr s'" "bs_ok s'"
      "bs_contents s' = drop (unat n) (bs_contents s)" "bs_capacity s' = bs_capacity s"
      "cnt_read s' = cnt_read s + of_nat (min (bs_len s) (unat n))" "cnt_write s' = cnt_write s"
      "bs_error s' = bs_error s" "bs_input_active s' = bs_input_active s"
    using pop_eq [OF assms refl, of n] by blast
  then show ?thesis
    by (intro exI [of _ s'] conjI abs_stream_eqI) (simp_all add: as_pop_def)
qed

text \<open>A change of a flag keeps the buffer.\<close>

lemma bs_flags [simp]:
  "bs_ok (s\<lparr>bs_input_active := a\<rparr>) = bs_ok s" "bs_ok (s\<lparr>bs_error := e\<rparr>) = bs_ok s"
  "bs_contents (s\<lparr>bs_input_active := a\<rparr>) = bs_contents s" "bs_contents (s\<lparr>bs_error := e\<rparr>) = bs_contents s"
  "bs_capacity (s\<lparr>bs_input_active := a\<rparr>) = bs_capacity s" "bs_capacity (s\<lparr>bs_error := e\<rparr>) = bs_capacity s"
  by (simp_all add: bs_ok_def bs_contents_def bs_len_def bs_capacity_def)

interpretation bs: stream_impl bs_ok bs_abs ByteStream_step
proof unfold_locales
  fix s x
  assume ok: "bs_ok s" and x: "op_ok x"
  show "\<exists>s'. ByteStream_step s x = Inr (fst (as_step (bs_abs s) x), s') \<and> bs_ok s' \<and>
      bs_abs s' = snd (as_step (bs_abs s) x)"
  proof (cases x)
    case (OpWrite d)
    with x step_write [OF ok] show ?thesis by simp
  next
    case (OpPop n)
    with step_pop [OF ok, of n] show ?thesis by auto
  next
    case (OpRead n)
    with step_pop [OF ok, of n] show ?thesis by (auto simp: read_eq [OF ok])
  next
    case OpEndInput
    with ok show ?thesis
      by (auto intro: abs_stream_eqI simp: ByteStream_end_input_def)
  next
    case OpSetError
    with ok show ?thesis
      by (auto intro: abs_stream_eqI simp: ByteStream_set_error_def)
  qed (simp_all add: ok peek_eq buffer_size_eq remaining_capacity_eq bs_observers bs_contents_Nil_iff)
qed

subsection \<open>Construction\<close>

lemma new_eq:
  assumes "unat c < 2 ^ 31"
  shows "\<exists>s. ByteStream_new c = Inr s \<and> maxlen s = int (unat c) \<and>
    buffer s = replicate (unat c) CHR '' '' \<and> sind s = -1 \<and> eind s = -1 \<and> bs_abs s = as_new (unat c)"
proof -
  have m: "int_of_size c = int (unat c)"
    using assms by (rule int_of_size_small)
  have "size_of_int (int (unat c)) = c"
    by (simp add: size_of_int_def)
  then have "string_fill (size_of_int (int (unat c))) CHR '' '' = Inr (replicate (unat c) CHR '' '')"
    using assms by (simp add: string_fill_def string_max_size_def)
  then show ?thesis
    unfolding ByteStream_new_def m
    by (simp add: Let_def bs_abs_def as_new_def bs_capacity_def bs_contents_def bs_len_def ring_read_def)
qed

lemma new_ok:
  assumes "unat c \<le> 2 ^ 30"
  shows "\<exists>s. ByteStream_new c = Inr s \<and> bs_ok s \<and> bs_abs s = as_new (unat c)"
proof -
  obtain s where "ByteStream_new c = Inr s" "maxlen s = int (unat c)"
      "buffer s = replicate (unat c) CHR '' ''" "sind s = -1" "bs_abs s = as_new (unat c)"
    using new_eq [of c] assms by auto
  moreover have "int (unat c) \<le> 2 ^ 30"
    using assms by (metis of_nat_le_iff of_nat_numeral of_nat_power)
  ultimately show ?thesis
    by (simp add: bs_ok_def max_capacity_def)
qed

subsection \<open>Every capacity\<close>

text \<open>The ring for any capacity, also one for which \<open>buffer_size\<close> may overflow: \<open>n\<close> bytes were written and not yet read, the
  indices lie in the buffer, and \<open>eind\<close> is \<open>n - 1\<close> places after \<open>sind\<close>.  An operation that returns has not overflowed, and
  that is enough for it to keep this.\<close>

definition bs_ring :: "ByteStream \<Rightarrow> nat \<Rightarrow> bool" where
  "bs_ring s n \<longleftrightarrow> int_ok (maxlen s) \<and> 0 \<le> maxlen s \<and> length (buffer s) = nat (maxlen s) \<and>
     cnt_write s = cnt_read s + of_nat n \<and>
     (if n = 0 then sind s = -1 else bs_filled s n \<and> 0 \<le> eind s \<and> n \<le> bs_capacity s)"

lemma bs_ring_empty: "bs_ring s n \<Longrightarrow> sind s = -1 \<longleftrightarrow> n = 0"
  by (auto simp: bs_ring_def bs_filled_def split: if_splits)

lemma bs_ring_small: "bs_ring s n \<Longrightarrow> n \<le> bs_capacity s \<and> bs_capacity s < 2 ^ 31"
  by (auto simp: bs_ring_def bs_capacity_def int_ok_def split: if_splits)

lemma ring_buffer_size:
  assumes "bs_ring s n" and "ByteStream_buffer_size s = Inr k"
  shows "k = of_nat n"
proof (cases "n = 0")
  case True
  with assms show ?thesis
    by (simp add: ByteStream_buffer_size_def ByteStream_buffer_empty_def bs_ring_empty)
next
  case False
  let ?m = "maxlen s" and ?d = "eind s - sind s"
  have f: "bs_filled s n" "0 \<le> eind s" "n \<le> bs_capacity s" "sind s \<noteq> -1"
    using assms(1) False bs_ring_empty [OF assms(1)] by (simp_all add: bs_ring_def)
  then have m: "0 < ?m" "- ?m < ?d" "?d < ?m"
    by (auto simp: bs_filled_def)
  have "?d mod ?m = int n - 1"
    using f(1,3) False by (intro bs_filled_distance) simp_all
  with assms(2) f(4) m show ?thesis
    by (auto simp: ByteStream_buffer_size_def ByteStream_buffer_empty_def bindR_eq_Inr int_sub_def int_add_def
        check_int_def int_rem_pos doubled_remainder size_of_int_def split: if_splits)
qed

lemma ring_room:
  assumes "bs_ring s n" and "ByteStream_remaining_capacity s = Inr r"
  shows "r = of_nat (bs_capacity s - n)"
proof -
  have "size_of_int (maxlen s) = of_nat (bs_capacity s)"
    using assms(1) by (simp add: size_of_int_def bs_capacity_def bs_ring_def)
  then show ?thesis
    using assms(2) ring_buffer_size [OF assms(1)] bs_ring_small [OF assms(1)]
    by (cases "ByteStream_buffer_size s") (auto simp: ByteStream_remaining_capacity_def of_nat_diff)
qed

lemma accepted_le:
  assumes "room < 2 ^ 64" and "w = min (string_length d) (of_nat room)"
  shows "unat w \<le> room" and "unat w \<le> length d"
proof -
  have "unat w \<le> unat (of_nat room :: size_t)" "unat w \<le> unat (string_length d)"
    by (simp_all add: assms(2) word_le_nat_alt [symmetric])
  moreover have "unat (string_length d) \<le> length d"
    by (simp add: string_length_def unat_of_nat take_bit_nat_less_eq_self)
  ultimately show "unat w \<le> room" "unat w \<le> length d"
    using unat_of_nat_size [OF assms(1)] by simp_all
qed

lemma ring_write:
  assumes "bs_ring s n" and "ByteStream_write s d = Inr (k, s')"
  shows "\<exists>n'. bs_ring s' n' \<and> maxlen s' = maxlen s"
proof -
  note cap = bs_ring_small [OF assms(1)]
  have room: "ByteStream_remaining_capacity s = Inr (of_nat (bs_capacity s - n))"
    using assms(2) ring_room [OF assms(1)]
    by (cases "ByteStream_remaining_capacity s") (simp_all add: ByteStream_write_def)
  define w where "w = min (string_length d) (of_nat (bs_capacity s - n))"
  have "bs_capacity s - n < 2 ^ 64" using cap by auto
  note w = accepted_le [OF this w_def]
  show ?thesis
  proof (cases "w = 0")
    case True
    with assms room show ?thesis
      by (auto simp: ByteStream_write_def w_def [symmetric] Let_def)
  next
    case False
    then have pos: "0 < unat w" by (simp add: unat_gt_0)
    define t where "t = (if ByteStream_buffer_empty s then s\<lparr>sind := 0, eind := -1\<rparr> else s)"
    have t: "bs_filled t n" "bs_capacity t = bs_capacity s" "cnt_write t = cnt_read t + of_nat n" "maxlen t = maxlen s"
      using assms(1) pos w(1) bs_ring_empty [OF assms(1)]
      by (auto simp: t_def bs_ring_def bs_filled_def bs_capacity_def ByteStream_buffer_empty_def split: if_splits)
    have "length (take (unat w) d) = unat w" "take (unat w) d \<noteq> []" "n + unat w \<le> bs_capacity t"
      using w pos cap t(2) by auto
    with write_loop_filled [OF t(1), of "take (unat w) d"] obtain u where
        u: "write_loop t (take (unat w) d) = Inr u" "bs_filled u (n + unat w)" "0 \<le> eind u" "same_frame t u" by auto
    have "s' = u\<lparr>cnt_write := cnt_write u + w\<rparr>"
      using assms(2) room False u(1)
      by (auto simp: ByteStream_write_def w_def [symmetric] t_def [symmetric] Let_def)
    moreover have "bs_ring (u\<lparr>cnt_write := cnt_write u + w\<rparr>) (n + unat w)"
      using u t pos w(1) cap by (auto simp: bs_ring_def same_frame_def bs_filled_def bs_capacity_def)
    ultimately show ?thesis using u(4) t(4) by (auto simp: same_frame_def)
  qed
qed

lemma ring_advance:
  assumes "0 \<le> i" and "i < m" and "m \<le> 2147483647" and "unat len < nat m"
  shows "size_rem (size_of_int i + len) (size_of_int m) = Inr (of_nat ((nat i + unat len) mod nat m))"
    and "int_of_size (of_nat ((nat i + unat len) mod nat m)) = (i + int (unat len)) mod m"
proof -
  let ?j = "(nat i + unat len) mod nat m"
  have len: "unat len < 2 ^ 31" "of_nat (unat len) = len"
    using assms(3,4) by (auto simp: ucast_id)
  show "size_rem (size_of_int i + len) (size_of_int m) = Inr (of_nat ?j)"
    using ring_index [OF assms(1-3) len(1)] by (simp only: len(2))
  have "?j < nat m" using assms(4) by simp
  then have "int_of_size (of_nat ?j) = int ?j"
    using assms(3) by (subst int_of_size_small) (simp_all add: unat_of_nat_size)
  also have "int ?j = (i + int (unat len)) mod m"
    using assms(1,2) by (simp only: zmod_int of_nat_add int_nat_eq) simp
  finally show "int_of_size (of_nat ?j) = (i + int (unat len)) mod m" .
qed

lemma ring_pop:
  assumes "bs_ring s n" and "ByteStream_pop_output s len = Inr s'"
  shows "\<exists>n'. bs_ring s' n' \<and> maxlen s' = maxlen s"
proof -
  have z: "ByteStream_buffer_size s = Inr (of_nat n)"
    using assms(2) ring_buffer_size [OF assms(1)]
    by (cases "ByteStream_buffer_size s") (simp_all add: ByteStream_pop_output_def)
  have un: "unat (of_nat n :: size_t) = n"
    using bs_ring_small [OF assms(1)] by (simp add: unat_of_nat_size)
  show ?thesis
  proof (cases "n \<le> unat len")
    case True
    then have "s' = s\<lparr>cnt_read := cnt_read s + of_nat n, sind := -1\<rparr>"
      using assms(2) z un by (simp add: ByteStream_pop_output_def word_le_nat_alt)
    then have "bs_ring s' 0 \<and> maxlen s' = maxlen s"
      using assms(1) by (simp add: bs_ring_def)
    then show ?thesis ..
  next
    case False
    then have f: "bs_filled s n" "0 \<le> eind s" "n \<le> bs_capacity s"
      using assms(1) by (simp_all add: bs_ring_def)
    then have m: "0 \<le> sind s" "sind s < maxlen s" "maxlen s \<le> 2147483647" "unat len < nat (maxlen s)"
      using False by (auto simp: bs_filled_def int_ok_def bs_capacity_def)
    let ?j = "(sind s + int (unat len)) mod maxlen s"
    have j: "0 \<le> ?j" "?j < maxlen s"
      using m by simp_all
    have s': "s' = s\<lparr>cnt_read := cnt_read s + len, sind := ?j\<rparr>"
      using assms(2) z un False ring_advance [OF m] by (simp add: ByteStream_pop_output_def word_le_nat_alt)
    have "int (n - unat len) = int n - int (unat len)"
      using False by (intro of_nat_diff) simp
    then have "(?j + int (n - unat len)) mod maxlen s = (sind s + int n) mod maxlen s"
      by (simp add: mod_simps)
    then have "bs_filled s' (n - unat len)"
      using f(1) j by (simp add: s' bs_filled_def)
    moreover have "cnt_write s = cnt_read s + len + of_nat (n - unat len)"
      using assms(1) False by (simp add: bs_ring_def of_nat_diff)
    ultimately have "bs_ring s' (n - unat len) \<and> maxlen s' = maxlen s"
      using assms(1) False f by (auto simp: s' bs_ring_def bs_capacity_def)
    then show ?thesis ..
  qed
qed

lemma ring_flags:
  "bs_ring s n \<Longrightarrow> bs_ring (ByteStream_end_input s) n" "bs_ring s n \<Longrightarrow> bs_ring (ByteStream_set_error s) n"
  by (simp_all add: ByteStream_end_input_def ByteStream_set_error_def bs_ring_def bs_filled_def bs_capacity_def split: if_splits)

lemma ring_step:
  assumes "bs_ring s n" and "ByteStream_step s x = Inr (ob, s')"
  shows "\<exists>n'. bs_ring s' n' \<and> maxlen s' = maxlen s"
proof (cases x)
  case (OpWrite d)
  with assms ring_write [OF assms(1)] show ?thesis by (auto simp: bindR_eq_Inr)
next
  case (OpPop k)
  with assms ring_pop [OF assms(1)] show ?thesis by (auto simp: bindR_eq_Inr)
next
  case (OpRead k)
  with assms ring_pop [OF assms(1)] show ?thesis by (auto simp: bindR_eq_Inr ByteStream_read_def)
qed (use assms ring_flags [OF assms(1)] in
    \<open>auto simp: bindR_eq_Inr ByteStream_end_input_def ByteStream_set_error_def\<close>)

lemma run_ring:
  "bs_ring s n \<Longrightarrow> run_ops ByteStream_step s xs = Inr (obs, s') \<Longrightarrow> \<exists>n'. bs_ring s' n' \<and> maxlen s' = maxlen s"
proof (induction xs arbitrary: s n obs)
  case (Cons x xs)
  then obtain ob t os where t: "ByteStream_step s x = Inr (ob, t)" "run_ops ByteStream_step t xs = Inr (os, s')"
    by (auto simp: bindR_eq_Inr)
  from ring_step [OF Cons.prems(1) t(1)] Cons.IH [OF _ t(2)] show ?case by force
qed auto

lemma size_of_negative_int:
  assumes "- (2 ^ 31) \<le> i" and "i < 0"
  shows "2 ^ 63 \<le> unat (size_of_int i)"
proof -
  have "uint (size_of_int i) = i mod 2 ^ 64"
    by (simp add: size_of_int_def uint_word_of_int)
  also have "\<dots> = (i + 2 ^ 64) mod 2 ^ 64"
    by simp
  also have "\<dots> = i + 2 ^ 64"
    using assms by (intro mod_pos_pos_trivial) auto
  finally have "2 ^ 63 \<le> uint (size_of_int i)"
    using assms by simp
  then have "nat (2 ^ 63) \<le> nat (uint (size_of_int i))"
    by (rule nat_mono)
  then show ?thesis
    by simp
qed

lemma new_ring:
  assumes "ByteStream_new c = Inr s"
  shows "bs_ring s 0" and "maxlen s = int_of_size c"
proof -
  let ?m = "int_of_size c"
  have s: "\<not> string_max_size < unat (size_of_int ?m)" "maxlen s = ?m" "sind s = -1" "cnt_write s = 0" "cnt_read s = 0"
      "length (buffer s) = unat (size_of_int ?m)"
    using assms by (auto simp: ByteStream_new_def Let_def bindR_eq_Inr string_fill_def split: if_splits)
  have ok: "int_ok ?m" by (simp add: int_of_size_def)
  have "0 \<le> ?m"
  proof (rule ccontr)
    assume neg: "\<not> 0 \<le> ?m"
    then have "string_max_size < unat (size_of_int ?m)"
      using ok size_of_negative_int [of ?m] by (simp add: int_ok_def string_max_size_def)
    with s(1) show False by simp
  qed
  moreover from this ok have "unat (size_of_int ?m) = nat ?m"
    by (intro unat_size_of_int) (simp_all add: int_ok_def)
  ultimately show "bs_ring s 0" using s ok by (simp add: bs_ring_def)
  show "maxlen s = ?m" by (rule s(2))
qed

section \<open>Properties\<close>

text \<open>C1. A fresh stream of capacity at most \<open>2 ^ 30\<close> implements the abstract bounded queue: whatever
  sequence of public methods is called on it, every call returns (no exception, no undefined
  behaviour), the answers are those of the abstract stream, and the circular buffer represents the
  abstract queue at the end.\<close>

theorem bytestream_refines:
  assumes "unat c \<le> 2 ^ 30" and "list_all op_ok xs"
  shows "\<exists>s s'. ByteStream_new c = Inr s \<and>
    run_ops ByteStream_step s xs = Inr (fst (as_run (as_new (unat c)) xs), s') \<and>
    bs_ok s' \<and> bs_abs s' = snd (as_run (as_new (unat c)) xs)"
proof -
  obtain s where s: "ByteStream_new c = Inr s" "bs_ok s" "bs_abs s = as_new (unat c)"
    using new_ok [OF assms(1)] by blast
  with bs.run_refines [OF s(2) assms(2)] show ?thesis by auto
qed

text \<open>Instance at the test "overwrite-pop-overwrite" of \<open>tests/byte_stream_capacity.cc\<close>.\<close>

theorem bytestream_refines_witness:
  "\<exists>s s'. ByteStream_new 2 = Inr s \<and>
    run_ops ByteStream_step s [OpWrite ''cat'', OpPop 1, OpWrite ''tac'', OpPeek 2, OpBytesWritten]
      = Inr ([Count 2, Done, Count 1, Bytes ''at'', Count 3], s') \<and> bs_contents s' = ''at''"
  using bytestream_refines [of 2 "[OpWrite ''cat'', OpPop 1, OpWrite ''tac'', OpPeek 2, OpBytesWritten]"]
  by (auto simp: as_new_def as_room_def as_pop_def string_ok_def string_max_size_def Let_def
      dest: arg_cong [where f = as_queue])

text \<open>C2. First in, first out, in terms of what the calls returned.  Take the bytes accepted, by the counts \<open>write\<close> returned, and
  the number of bytes gone, by what \<open>read\<close> returned and \<open>pop_output\<close> removed.  Every \<open>peek_output(n)\<close> and \<open>read(n)\<close>
  returned the next \<open>n\<close> accepted bytes (or as many as there were) after those gone at that moment; what is in the
  buffer at the end are the accepted bytes after those gone; and when bytes leave by \<open>read\<close> only, the bytes accepted are
  the bytes returned by \<open>read\<close>, one call after the other, followed by those in the buffer.\<close>

theorem bytestream_fifo:
  assumes "unat c \<le> 2 ^ 30" and "list_all op_ok xs"
    and "ByteStream_new c = Inr s" and "run_ops ByteStream_step s xs = Inr (obs, s')"
    and "history (zip xs obs) = (accepted, gone)"
  shows "(\<forall>i n. i < length xs \<and> (xs ! i = OpRead n \<or> xs ! i = OpPeek n) \<longrightarrow>
      (case history (zip (take i xs) obs) of (accepted, gone) \<Rightarrow>
         obs ! i = Bytes (take (unat n) (drop gone accepted)))) \<and>
    bs_contents s' = drop gone accepted \<and> gone \<le> length accepted \<and>
    ((\<forall>n. OpPop n \<notin> set xs) \<longrightarrow> accepted = bytes_read_out (zip xs obs) @ bs_contents s')"
proof -
  have s: "bs_ok s" "as_queue (bs_abs s) = []"
    using new_ok [OF assms(1)] assms(3) by (auto simp: as_new_def simp del: bs_abs_simps)
  note bs.run_answer [OF s assms(2,4)]
  with bs.run_history [OF s assms(2,4,5)] show ?thesis
    by (auto split: prod.splits)
qed

theorem bytestream_fifo_witness:
  "\<exists>s obs s'. ByteStream_new 2 = Inr s \<and>
    run_ops ByteStream_step s [OpWrite ''cat'', OpRead 1, OpWrite ''tac'', OpPeek 2] = Inr (obs, s') \<and>
    obs ! 3 = Bytes ''at'' \<and> bs_contents s' = ''at'' \<and>
    bytes_read_out (zip [OpWrite ''cat'', OpRead 1, OpWrite ''tac'', OpPeek 2] obs) @ bs_contents s' = ''cat''"
proof -
  let ?xs = "[OpWrite ''cat'', OpRead 1, OpWrite ''tac'', OpPeek 2]"
  have c: "unat (2 :: size_t) \<le> 2 ^ 30" and xs: "list_all op_ok ?xs"
    by (simp_all add: string_ok_def string_max_size_def)
  obtain s where s: "ByteStream_new 2 = Inr s" "bs_ok s" "bs_abs s = as_new 2"
    using new_ok [OF c] by auto
  obtain s' where r: "run_ops ByteStream_step s ?xs = Inr (fst (as_run (as_new 2) ?xs), s')"
    using bs.run_refines [OF s(2) xs] s(3) by auto
  have obs: "fst (as_run (as_new 2) ?xs) = [Count 2, Bytes ''c'', Count 1, Bytes ''at'']"
    by (simp add: as_new_def as_room_def as_pop_def Let_def)
  have h: "history (zip ?xs [Count 2, Bytes ''c'', Count 1, Bytes ''at'']) = (''cat'', 1)"
    by (simp add: history_def)
  note run = r [unfolded obs]
  have "bs_contents s' = ''at''"
    using bytestream_fifo [OF c xs s(1) run h, THEN conjunct2, THEN conjunct1] by simp
  with s(1) run show ?thesis
    by (intro exI [of _ s] exI [of _ "[Count 2, Bytes ''c'', Count 1, Bytes ''at'']"] exI [of _ s'] conjI) simp_all
qed

text \<open>C3. The accounting of a stream: after any calls, the buffer holds at most \<open>capacity\<close> bytes, the
  free space is what is left of the capacity, and the bytes written are the bytes read plus those in
  the buffer.\<close>

theorem bytestream_accounting:
  assumes "unat c \<le> 2 ^ 30" and "list_all op_ok xs"
    and "ByteStream_new c = Inr s" and "run_ops ByteStream_step s xs = Inr (obs, s')"
  shows "\<exists>n. ByteStream_buffer_size s' = Inr n \<and> n \<le> c \<and>
    ByteStream_remaining_capacity s' = Inr (c - n) \<and>
    ByteStream_bytes_written s' = ByteStream_bytes_read s' + n \<and>
    (ByteStream_buffer_empty s' \<longleftrightarrow> n = 0)"
proof -
  have s: "bs_ok s" "bs_abs s = as_new (unat c)"
    using new_ok [OF assms(1)] assms(3) by auto
  obtain t where t: "run_ops ByteStream_step s xs = Inr (fst (as_run (bs_abs s) xs), t)" "bs_ok t"
    using bs.run_refines [OF s(1) assms(2)] by blast
  then have ok': "bs_ok s'" using assms(4) by simp
  have acc: "as_ok (bs_abs s')" "bs_capacity s' = unat c"
    using bs.run_ok [OF s(1) _ assms(2,4)] by (simp_all add: s(2) as_new_ok) (simp add: as_new_def)
  have u: "unat (of_nat (bs_len s') :: size_t) = bs_len s'"
    using bs_len_small [OF ok'] by (simp add: unat_of_nat_size)
  have "of_nat (unat c - bs_len s') = c - of_nat (bs_len s')"
    using acc by (simp add: as_ok_def of_nat_diff ucast_id)
  moreover have "(of_nat (bs_len s') :: size_t) = 0 \<longleftrightarrow> bs_len s' = 0"
    using u by (auto dest: arg_cong [where f = unat])
  ultimately show ?thesis
    using ok' acc u
    by (simp add: buffer_size_eq remaining_capacity_eq as_ok_def word_le_nat_alt bs_len_0_iff
        ByteStream_bytes_written_def ByteStream_bytes_read_def)
qed

theorem bytestream_accounting_witness:
  "\<exists>s obs s' n. ByteStream_new 2 = Inr s \<and>
    run_ops ByteStream_step s [OpWrite ''cat'', OpPop 1] = Inr (obs, s') \<and>
    ByteStream_buffer_size s' = Inr n \<and> n \<le> 2 \<and> ByteStream_remaining_capacity s' = Inr (2 - n) \<and>
    ByteStream_bytes_written s' = ByteStream_bytes_read s' + n"
proof -
  let ?xs = "[OpWrite ''cat'', OpPop 1]"
  have c: "unat (2 :: size_t) \<le> 2 ^ 30" and xs: "list_all op_ok ?xs"
    by (simp_all add: string_ok_def string_max_size_def)
  obtain s where s: "ByteStream_new 2 = Inr s" "bs_ok s"
    using new_ok [OF c] by blast
  obtain obs s' where r: "run_ops ByteStream_step s ?xs = Inr (obs, s')"
    using bs.run_refines [OF s(2) xs] by blast
  from bytestream_accounting [OF c xs s(1) r] obtain n where "ByteStream_buffer_size s' = Inr n"
      "n \<le> 2" "ByteStream_remaining_capacity s' = Inr (2 - n)"
      "ByteStream_bytes_written s' = ByteStream_bytes_read s' + n"
    by blast
  with s(1) r show ?thesis by (intro exI conjI)
qed

text \<open>C4. End of file: after any calls on a fresh stream, \<open>eof()\<close> holds exactly when \<open>end_input()\<close> was
  called and every byte the stream accepted has been taken out.\<close>

theorem bytestream_eof:
  assumes "unat c \<le> 2 ^ 30" and "list_all op_ok xs"
    and "ByteStream_new c = Inr s" and "run_ops ByteStream_step s xs = Inr (obs, s')"
  shows "ByteStream_eof s' \<longleftrightarrow>
    OpEndInput \<in> set xs \<and> as_ins (bs_abs s) xs = as_outs (bs_abs s) xs"
proof -
  have s: "bs_ok s" "bs_abs s = as_new (unat c)"
    using new_ok [OF assms(1)] assms(3) by auto
  have "bs_abs s' = snd (as_run (bs_abs s) xs)"
    using bs.run_refines [OF s(1) assms(2)] assms(4) by auto
  then have "(\<not> bs_input_active s') = (OpEndInput \<in> set xs)"
    using as_run_ended [of "bs_abs s" xs] s(2) by (metis as_new_def abs_stream.select_convs(5) bs_abs_simps(5))
  moreover have "as_ins (bs_abs s) xs = as_outs (bs_abs s) xs @ bs_contents s'"
    using bs.run_fifo [OF s(1) assms(2,4)] by (simp add: s(2) as_new_def)
  ultimately show ?thesis
    by (simp add: ByteStream_eof_def flip: bs_contents_Nil_iff)
qed

theorem bytestream_eof_witness:
  "\<exists>s obs s'. ByteStream_new 3 = Inr s \<and>
    run_ops ByteStream_step s [OpWrite ''cat'', OpEndInput, OpRead 3] = Inr (obs, s') \<and> ByteStream_eof s'"
proof -
  let ?xs = "[OpWrite ''cat'', OpEndInput, OpRead 3]"
  have c: "unat (3 :: size_t) \<le> 2 ^ 30" and xs: "list_all op_ok ?xs"
    by (simp_all add: string_ok_def string_max_size_def)
  obtain s where s: "ByteStream_new 3 = Inr s" "bs_ok s" "bs_abs s = as_new (unat (3 :: size_t))"
    using new_ok [OF c] by blast
  obtain obs s' where r: "run_ops ByteStream_step s ?xs = Inr (obs, s')"
    using bs.run_refines [OF s(2) xs] by blast
  have "as_ins (bs_abs s) ?xs = as_outs (bs_abs s) ?xs"
    by (simp add: s(3) as_new_def as_room_def Let_def)
  with bytestream_eof [OF c xs s(1) r] have "ByteStream_eof s'"
    by (simp only: list.set insert_iff simp_thms)
  with s(1) r show ?thesis by (intro exI conjI)
qed

text \<open>C5. Ending the input does not stop the writer: \<open>write\<close> after \<open>end_input\<close> still accepts what fits,
  and a stream that was at its end is no longer.\<close>

theorem write_after_end_input:
  assumes "bs_ok s" and "string_ok data" and "data \<noteq> []" and "bs_len s < bs_capacity s"
  shows "\<exists>k s'. ByteStream_write (ByteStream_end_input s) data = Inr (k, s') \<and> 0 < k \<and>
    ByteStream_input_ended s' \<and> \<not> ByteStream_eof s' \<and>
    bs_contents s' = bs_contents s @ take (unat k) data"
proof -
  define k where "k = min (length data) (bs_capacity s - bs_len s)"
  have k: "0 < k" "k < 2 ^ 64"
    using assms bs_ok_capacity [OF assms(1)] by (simp_all add: k_def)
  have e: "bs_ok (ByteStream_end_input s)"
    "k = min (length data) (bs_capacity (ByteStream_end_input s) - bs_len (ByteStream_end_input s))"
    using assms(1) by (simp_all add: ByteStream_end_input_def k_def bs_capacity_def bs_len_def)
  obtain s' where s': "ByteStream_write (ByteStream_end_input s) data = Inr (of_nat k, s')"
      "bs_contents s' = bs_contents s @ take k data" "\<not> bs_input_active s'"
    using write_eq [OF e(1) assms(2) e(2)] by (auto simp: ByteStream_end_input_def)
  have "(0 :: size_t) < of_nat k"
    using k by (simp add: word_less_nat_alt unat_of_nat_size)
  moreover have "bs_contents s' \<noteq> []"
    using s'(2) assms(3) k by simp
  ultimately show ?thesis
    using s' k bs_contents_Nil_iff [of s']
    by (auto simp: ByteStream_input_ended_def ByteStream_eof_def unat_of_nat_size)
qed

text \<open>Instance on a fresh stream whose input was ended at once: it is at its end before the write.\<close>

theorem write_after_end_input_witness:
  "\<exists>s k s'. ByteStream_new 2 = Inr s \<and> ByteStream_eof (ByteStream_end_input s) \<and>
    ByteStream_write (ByteStream_end_input s) ''x'' = Inr (k, s') \<and> 0 < k \<and> \<not> ByteStream_eof s'"
proof -
  have "unat (2 :: size_t) \<le> 2 ^ 30" by simp
  then obtain s where s: "ByteStream_new 2 = Inr s" "bs_ok s" "bs_abs s = as_new (unat (2 :: size_t))"
    using new_ok by blast
  then have len: "bs_capacity s = 2" "bs_contents s = []"
    by (simp_all add: as_new_def bs_abs_def)
  have "string_ok ''x''" "bs_len s < bs_capacity s"
    using len by (simp_all add: string_ok_def string_max_size_def flip: length_bs_contents)
  from write_after_end_input [OF s(2) this(1) _ this(2)] obtain k s' where
      "ByteStream_write (ByteStream_end_input s) ''x'' = Inr (k, s')" "0 < k" "\<not> ByteStream_eof s'"
    by auto
  moreover have "ByteStream_eof (ByteStream_end_input s)"
    using len(2) bs_contents_Nil_iff [of s]
    by (simp add: ByteStream_eof_def ByteStream_end_input_def ByteStream_buffer_empty_def)
  ultimately show ?thesis
    using s(1) by (intro exI conjI)
qed

text \<open>A stream that is full from position 0 on: \<open>eind\<close> is the last index, and
  \<open>maxlen + (eind - sind) % maxlen\<close> is \<open>2 * maxlen - 1\<close>.\<close>

lemma full_buffer_size_overflow:
  assumes "sind s = 0" and "eind s = maxlen s - 1" and "2 ^ 30 < maxlen s" and "maxlen s < 2 ^ 31"
  shows "ByteStream_buffer_size s = Inl (Undefined SignedOverflow)"
proof -
  have "int_ok (maxlen s - 1)" "\<not> int_ok (maxlen s + (maxlen s - 1))" "(maxlen s - 1) smod maxlen s = maxlen s - 1"
    using assms by (auto simp: int_ok_def intro!: smod_small)
  with assms show ?thesis
    by (simp add: ByteStream_buffer_size_def ByteStream_buffer_empty_def int_sub_def int_add_def
        check_int_def int_rem_pos)
qed

lemma fresh_write_full:
  assumes "maxlen s = int n" and "buffer s = replicate n CHR '' ''" and "sind s = -1"
    and "0 < n" and "n < 2 ^ 31" and "length data = n"
  shows "\<exists>s'. ByteStream_write s data = Inr (of_nat n, s') \<and> sind s' = 0 \<and>
    eind s' = int n - 1 \<and> maxlen s' = int n"
proof -
  let ?t = "s\<lparr>sind := 0, eind := -1\<rparr>"
  have fill: "bs_filled ?t 0" and cap: "bs_capacity ?t = n"
    using assms by (simp_all add: bs_filled_def bs_capacity_def int_ok_def)
  obtain s' where s': "write_loop ?t data = Inr s'" "bs_filled s' n" "same_frame ?t s'" "0 \<le> eind s'"
    using write_loop_filled [OF fill, of data] cap assms(4,6) by auto
  have m: "maxlen s' = int n" "sind s' = 0"
    using s'(3) assms(1) by (simp_all add: same_frame_def)
  then have e: "(eind s' + 1) mod int n = 0" "eind s' < int n"
    using s'(2) by (simp_all add: bs_filled_def)
  then have "eind s' = int n - 1"
    using s'(4) by (metis add.commute add_diff_cancel_left' add_le_same_cancel2 linorder_not_le
        mod_pos_pos_trivial not_less_iff_gr_or_eq zless_add1_eq zle_add1_eq_le)
  moreover have n: "of_nat n \<noteq> (0 :: size_t)" "unat (of_nat n :: size_t) = n"
    using assms(4,5) by (auto simp: unat_of_nat_size dest!: arg_cong [where f = unat])
  have "ByteStream_remaining_capacity s = Inr (of_nat n)"
    using assms by (simp add: ByteStream_remaining_capacity_def ByteStream_buffer_size_def
        ByteStream_buffer_empty_def size_of_int_def)
  then have "ByteStream_write s data = Inr (of_nat n, s'\<lparr>cnt_write := cnt_write s' + of_nat n\<rparr>)"
    using assms s'(1) n
    by (simp add: ByteStream_write_def ByteStream_buffer_empty_def string_length_def Let_def)
  ultimately show ?thesis
    using m by simp
qed

text \<open>C7. The ring stays consistent for every capacity, also those the class cannot serve: after any calls that returned,
  \<open>maxlen\<close> is the capacity converted to \<open>int\<close>, the buffer has \<open>maxlen\<close> places, and with \<open>n\<close> the bytes written and not yet
  read, which fit in the buffer, the stream is empty exactly if \<open>n\<close> is 0; otherwise \<open>sind\<close> is a place of the buffer and
  \<open>eind\<close> is the place \<open>n - 1\<close> after it, going round.\<close>

theorem bytestream_indices:
  assumes "ByteStream_new c = Inr s" and "run_ops ByteStream_step s xs = Inr (obs, s')"
  shows "\<exists>n. maxlen s' = int_of_size c \<and> length (buffer s') = nat (maxlen s') \<and> n \<le> length (buffer s') \<and>
    ByteStream_bytes_written s' = ByteStream_bytes_read s' + of_nat n \<and> (ByteStream_buffer_empty s' \<longleftrightarrow> n = 0) \<and>
    (n \<noteq> 0 \<longrightarrow> 0 \<le> sind s' \<and> sind s' < maxlen s' \<and> eind s' = (sind s' + int n - 1) mod maxlen s')"
proof -
  obtain n where n: "bs_ring s' n" "maxlen s' = int_of_size c"
    using run_ring [OF new_ring(1) [OF assms(1)] assms(2)] new_ring(2) [OF assms(1)] by auto
  have "eind s' = (sind s' + int n - 1) mod maxlen s'" if "n \<noteq> 0"
  proof -
    have f: "bs_filled s' n" "0 \<le> eind s'" using n(1) that by (simp_all add: bs_ring_def)
    then have "((eind s' + 1) - 1) mod maxlen s' = ((sind s' + int n) - 1) mod maxlen s'"
      by (intro mod_diff_cong) (simp_all add: bs_filled_def)
    with f show ?thesis by (simp add: bs_filled_def)
  qed
  with n bs_ring_empty [OF n(1)] bs_ring_small [OF n(1)] show ?thesis
    by (intro exI [of _ n]) (auto simp: bs_ring_def bs_filled_def bs_capacity_def ByteStream_bytes_written_def
        ByteStream_bytes_read_def ByteStream_buffer_empty_def)
qed

theorem bytestream_indices_witness:
  "\<exists>s obs s' n. ByteStream_new 2 = Inr s \<and>
     run_ops ByteStream_step s [OpWrite ''cat'', OpPop 1, OpWrite ''t''] = Inr (obs, s') \<and>
     length (buffer s') = 2 \<and> eind s' = (sind s' + int n - 1) mod 2 \<and> 0 \<le> sind s' \<and> sind s' < 2"
proof -
  let ?xs = "[OpWrite ''cat'', OpPop 1, OpWrite ''t'']"
  have xs: "list_all op_ok ?xs"
    by (simp add: string_ok_def string_max_size_def)
  obtain s where s: "ByteStream_new 2 = Inr s" "bs_ok s" "bs_abs s = as_new 2"
    using new_ok [of 2] by auto
  obtain s' where r: "run_ops ByteStream_step s ?xs = Inr (fst (as_run (as_new 2) ?xs), s')"
      "bs_abs s' = snd (as_run (as_new 2) ?xs)"
    using bs.run_refines [OF s(2) xs] s(3) by auto
  have "bs_contents s' = ''at''"
    using arg_cong [OF r(2), where f = as_queue] by (simp add: as_new_def as_room_def as_pop_def Let_def)
  then have "\<not> ByteStream_buffer_empty s'"
    using bs_contents_Nil_iff [of s'] by auto
  moreover have "int_of_size 2 = 2"
    by (simp add: int_of_size_small)
  ultimately show ?thesis
    using bytestream_indices [OF s(1) r(1)] s(1) r(1) by auto
qed

text \<open>C6. Above \<open>2 ^ 30\<close> the class breaks: for every capacity between \<open>2 ^ 30\<close> and \<open>2 ^ 31\<close>, filling a
  fresh stream succeeds, and the next \<open>buffer_size()\<close> (so also \<open>remaining_capacity()\<close>, \<open>write\<close>,
  \<open>peek_output\<close> and \<open>pop_output\<close>) overflows a signed \<open>int\<close>, which is undefined behaviour.\<close>

theorem bytestream_large_capacity_overflow:
  assumes "2 ^ 30 < n" and "n < 2 ^ 31" and "length data = n"
  shows "\<exists>s s'. ByteStream_new (of_nat n) = Inr s \<and> ByteStream_write s data = Inr (of_nat n, s') \<and>
    ByteStream_buffer_size s' = Inl (Undefined SignedOverflow) \<and>
    ByteStream_pop_output s' len = Inl (Undefined SignedOverflow)"
proof -
  have n: "0 < n" "int n < 2 ^ 31" "2 ^ 30 < int n"
    using assms(1,2) by simp_all
  have "unat (of_nat n :: size_t) = n"
    using assms(2) by (simp add: unat_of_nat_size)
  then obtain s where s: "ByteStream_new (of_nat n) = Inr s" "maxlen s = int n"
      "buffer s = replicate n CHR '' ''" "sind s = -1"
    using new_eq [of "of_nat n"] assms(2) by auto
  obtain s' where s': "ByteStream_write s data = Inr (of_nat n, s')" "sind s' = 0"
      "eind s' = int n - 1" "maxlen s' = int n"
    using fresh_write_full [OF s(2-4) n(1) assms(2,3)] by blast
  then have "ByteStream_buffer_size s' = Inl (Undefined SignedOverflow)"
    using n by (intro full_buffer_size_overflow) simp_all
  with s(1) s'(1) show ?thesis
    by (simp add: ByteStream_pop_output_def)
qed

theorem bytestream_large_capacity_overflow_witness:
  "\<exists>s s'. ByteStream_new (of_nat (2 ^ 30 + 1)) = Inr s \<and>
    ByteStream_write s (replicate (2 ^ 30 + 1) CHR ''a'') = Inr (of_nat (2 ^ 30 + 1), s') \<and>
    ByteStream_buffer_size s' = Inl (Undefined SignedOverflow)"
proof -
  have "(2::nat) ^ 30 < 2 ^ 30 + 1" "(2::nat) ^ 30 + 1 < 2 ^ 31"
      "length (replicate (2 ^ 30 + 1) CHR ''a'') = 2 ^ 30 + 1"
    by simp_all
  from bytestream_large_capacity_overflow [OF this] show ?thesis by blast
qed

lemma to_int_cong: "i mod 2 ^ 32 = j mod 2 ^ 32 \<Longrightarrow> to_int i = to_int j"
  unfolding to_int_def by (metis mod_add_cong)

lemma int_of_size_add: "int_of_size (c + 2 ^ 32) = int_of_size c"
  unfolding int_of_size_def
proof (rule to_int_cong)
  have "uint (c + 2 ^ 32) = (uint c + 2 ^ 32) mod 2 ^ 64"
    by (simp add: uint_word_ariths)
  then have "uint (c + 2 ^ 32) mod 2 ^ 32 = (uint c + 2 ^ 32) mod 2 ^ 64 mod 2 ^ 32"
    by (simp only:)
  also have "\<dots> = (uint c + 2 ^ 32) mod 2 ^ 32"
    by (rule mod_mod_cancel) simp
  finally show "uint (c + 2 ^ 32) mod 2 ^ 32 = uint c mod 2 ^ 32"
    by simp
qed

text \<open>The constructor keeps the capacity modulo \<open>2 ^ 32\<close> only: capacities that differ by \<open>2 ^ 32\<close>
  construct the same stream, and a capacity that is negative as an \<open>int\<close> throws \<open>length_error\<close>.\<close>

theorem bytestream_capacity_truncated:
  "ByteStream_new (c + 2 ^ 32) = ByteStream_new c \<and>
   (2 ^ 31 \<le> unat c \<and> unat c < 2 ^ 32 \<longrightarrow>
      ByteStream_new c = Inl (length_error ''basic_string::_M_create''))"
proof (intro conjI impI)
  show "ByteStream_new (c + 2 ^ 32) = ByteStream_new c"
    unfolding ByteStream_new_def int_of_size_add ..
next
  assume c: "2 ^ 31 \<le> unat c \<and> unat c < 2 ^ 32"
  have "int (unat c) < 2 ^ 32" "2 ^ 31 \<le> int (unat c)"
    using c by (metis of_nat_less_iff of_nat_numeral of_nat_power)
      (metis c of_nat_le_iff of_nat_numeral of_nat_power)
  then have "int_of_size c = int (unat c) - 2 ^ 32"
    unfolding int_of_size_def to_int_def uint_nat
    by (subst mod_pos_geq) (simp_all add: mod_pos_pos_trivial)
  then have "2 ^ 63 \<le> unat (size_of_int (int_of_size c))"
    using \<open>int (unat c) < 2 ^ 32\<close> \<open>2 ^ 31 \<le> int (unat c)\<close> by (intro size_of_negative_int) simp_all
  then show "ByteStream_new c = Inl (length_error ''basic_string::_M_create'')"
    by (simp add: ByteStream_new_def string_fill_def string_max_size_def)
qed

theorem bytestream_capacity_truncated_witness:
  "ByteStream_new (3000000000 + 2 ^ 32) = ByteStream_new 3000000000 \<and>
   ByteStream_new 3000000000 = Inl (length_error ''basic_string::_M_create'')"
proof -
  have "2 ^ 31 \<le> unat (3000000000 :: size_t) \<and> unat (3000000000 :: size_t) < 2 ^ 32"
    by simp
  with bytestream_capacity_truncated [of 3000000000] show ?thesis by blast
qed

end
