(* ===== verification/Buffers.thy ===== *)
theory Buffers
  imports Sponge_Prelude
begin

text \<open>
  The classes \<open>Buffer\<close>, \<open>BufferList\<close> and \<open>BufferViewList\<close> of \<open>libsponge/util/buffer.hh\<close> and
  \<open>libsponge/util/buffer.cc\<close>: read-only strings that can discard bytes from the front.

  The storage of a \<open>Buffer\<close> is shared between its copies and never written after construction, so a
  copy is modelled by value: the \<open>shared_ptr\<close> is an optional string.  A \<open>string_view\<close> is the string it
  shows.  \<open>prefix_container\<close> is the contract the three classes have in common.
\<close>

section \<open>Buffer\<close>

record Buffer =
  buf_storage :: "string option"
  buf_starting_offset :: size_t

definition Buffer_default :: Buffer where
  "Buffer_default = \<lparr>buf_storage = None, buf_starting_offset = 0\<rparr>"

definition Buffer_new :: "string \<Rightarrow> Buffer" where
  "Buffer_new s = \<lparr>buf_storage = Some s, buf_starting_offset = 0\<rparr>"

definition Buffer_str :: "Buffer \<Rightarrow> string" where
  "Buffer_str b = (case buf_storage b of None \<Rightarrow> [] | Some s \<Rightarrow> drop (unat (buf_starting_offset b)) s)"

definition Buffer_at :: "Buffer \<Rightarrow> size_t \<Rightarrow> uint8_t result" where
  "Buffer_at b n =
     (if unat n < length (Buffer_str b) then Inr (uint8_of_char (Buffer_str b ! unat n))
      else Inl (out_of_range ''basic_string_view::at''))"

definition Buffer_size :: "Buffer \<Rightarrow> size_t" where
  "Buffer_size b = string_length (Buffer_str b)"

definition Buffer_copy :: "Buffer \<Rightarrow> string" where
  "Buffer_copy b = Buffer_str b"

text \<open>The storage is released when nothing of it is left.\<close>

definition Buffer_remove_prefix :: "Buffer \<Rightarrow> size_t \<Rightarrow> Buffer result" where
  "Buffer_remove_prefix b n =
     (if Buffer_size b < n then Inl (out_of_range ''Buffer::remove_prefix'')
      else
        let b' = b\<lparr>buf_starting_offset := buf_starting_offset b + n\<rparr> in
        case buf_storage b' of
          None \<Rightarrow> Inr b'
        | Some s \<Rightarrow>
            if buf_starting_offset b' = string_length s then Inr (b'\<lparr>buf_storage := None\<rparr>)
            else Inr b')"

section \<open>BufferList\<close>

type_synonym BufferList = "Buffer list"

definition BufferList_default :: BufferList where
  "BufferList_default = []"

definition BufferList_of_Buffer :: "Buffer \<Rightarrow> BufferList" where
  "BufferList_of_Buffer b = [b]"

definition BufferList_buffers :: "BufferList \<Rightarrow> Buffer list" where
  "BufferList_buffers bs = bs"

text \<open>\<open>append\<close> pushes the buffers of the other list one by one.\<close>

fun BufferList_append :: "BufferList \<Rightarrow> BufferList \<Rightarrow> BufferList" where
  "BufferList_append bs [] = bs"
| "BufferList_append bs (b # other) = BufferList_append (bs @ [b]) other"

definition BufferList_of_string :: "string \<Rightarrow> BufferList" where
  "BufferList_of_string s = BufferList_append BufferList_default (BufferList_of_Buffer (Buffer_new s))"

definition BufferList_to_Buffer :: "BufferList \<Rightarrow> Buffer result" where
  "BufferList_to_Buffer bs =
     (case bs of
        [] \<Rightarrow> Inr Buffer_default
      | [b] \<Rightarrow> Inr b
      | _ \<Rightarrow> Inl (runtime_error
          ''BufferList: please use concatenate() to combine a multi-Buffer BufferList into one Buffer''))"

fun concatenate_loop :: "string \<Rightarrow> BufferList \<Rightarrow> string" where
  "concatenate_loop ret [] = ret"
| "concatenate_loop ret (b # bs) = concatenate_loop (ret @ Buffer_str b) bs"

definition BufferList_concatenate :: "BufferList \<Rightarrow> string" where
  "BufferList_concatenate bs = concatenate_loop [] bs"

fun size_loop :: "size_t \<Rightarrow> BufferList \<Rightarrow> size_t" where
  "size_loop ret [] = ret"
| "size_loop ret (b # bs) = size_loop (ret + Buffer_size b) bs"

definition BufferList_size :: "BufferList \<Rightarrow> size_t" where
  "BufferList_size bs = size_loop 0 bs"

text \<open>The loop of \<open>remove_prefix\<close>.  It pops the front buffer as long as all of it goes, so it recurses
  on the list; an exception leaves the list as the loop had made it.\<close>

fun BufferList_remove_prefix :: "BufferList \<Rightarrow> size_t \<Rightarrow> unit result \<times> BufferList" where
  "BufferList_remove_prefix [] n =
     (if 0 < n then (Inl (out_of_range ''BufferList::remove_prefix''), []) else (Inr (), []))"
| "BufferList_remove_prefix (b # bs) n =
     (if 0 < n then
        if n < Buffer_size b then
          (case Buffer_remove_prefix b n of
             Inl e \<Rightarrow> (Inl e, b # bs)
           | Inr b' \<Rightarrow> (Inr (), b' # bs))
        else BufferList_remove_prefix bs (n - Buffer_size b)
      else (Inr (), b # bs))"

section \<open>BufferViewList\<close>

type_synonym BufferViewList = "string list"

definition BufferViewList_of_view :: "string \<Rightarrow> BufferViewList" where
  "BufferViewList_of_view v = [v]"

definition BufferViewList_of_string :: "string \<Rightarrow> BufferViewList" where
  "BufferViewList_of_string s = BufferViewList_of_view s"

text \<open>A C string ends at its first null character.\<close>

definition BufferViewList_of_cstring :: "string \<Rightarrow> BufferViewList" where
  "BufferViewList_of_cstring s = BufferViewList_of_view (takeWhile (\<lambda>c. c \<noteq> CHR 0x00) s)"

fun push_views :: "BufferViewList \<Rightarrow> BufferList \<Rightarrow> BufferViewList" where
  "push_views vs [] = vs"
| "push_views vs (b # bs) = push_views (vs @ [Buffer_str b]) bs"

definition BufferViewList_of_BufferList :: "BufferList \<Rightarrow> BufferViewList" where
  "BufferViewList_of_BufferList bs = push_views [] (BufferList_buffers bs)"

fun BufferViewList_remove_prefix :: "BufferViewList \<Rightarrow> size_t \<Rightarrow> unit result \<times> BufferViewList" where
  "BufferViewList_remove_prefix [] n =
     (if 0 < n then (Inl (out_of_range ''BufferListView::remove_prefix''), []) else (Inr (), []))"
| "BufferViewList_remove_prefix (v # vs) n =
     (if 0 < n then
        if n < string_length v then (Inr (), drop (unat n) v # vs)
        else BufferViewList_remove_prefix vs (n - string_length v)
      else (Inr (), v # vs))"

fun view_size_loop :: "size_t \<Rightarrow> BufferViewList \<Rightarrow> size_t" where
  "view_size_loop ret [] = ret"
| "view_size_loop ret (v # vs) = view_size_loop (ret + string_length v) vs"

definition BufferViewList_size :: "BufferViewList \<Rightarrow> size_t" where
  "BufferViewList_size vs = view_size_loop 0 vs"

text \<open>An \<open>iovec\<close>: the memory its base points to, and how many bytes of it are meant.\<close>

record iovec =
  iov_base :: string
  iov_len :: size_t

fun iovecs_loop :: "iovec list \<Rightarrow> BufferViewList \<Rightarrow> iovec list" where
  "iovecs_loop ret [] = ret"
| "iovecs_loop ret (v # vs) = iovecs_loop (ret @ [\<lparr>iov_base = v, iov_len = string_length v\<rparr>]) vs"

definition BufferViewList_as_iovecs :: "BufferViewList \<Rightarrow> iovec list" where
  "BufferViewList_as_iovecs vs = iovecs_loop [] vs"

text \<open>The bytes a kernel finds in a vector of \<open>iovec\<close>s.\<close>

definition iovecs_bytes :: "iovec list \<Rightarrow> string" where
  "iovecs_bytes vs = concat (map (\<lambda>v. take (unat (iov_len v)) (iov_base v)) vs)"

section \<open>What the loops compute\<close>

lemma BufferList_append_eq [simp]: "BufferList_append bs other = bs @ other"
  by (induction bs other rule: BufferList_append.induct) simp_all

lemma concatenate_loop_eq: "concatenate_loop ret bs = ret @ concat (map Buffer_str bs)"
  by (induction ret bs rule: concatenate_loop.induct) simp_all

lemma concatenate_eq [simp]: "BufferList_concatenate bs = concat (map Buffer_str bs)"
  by (simp add: BufferList_concatenate_def concatenate_loop_eq)

lemma size_loop_eq: "size_loop ret bs = ret + of_nat (length (concat (map Buffer_str bs)))"
  by (induction ret bs rule: size_loop.induct) (simp_all add: Buffer_size_def string_length_def ac_simps)

lemma size_eq: "BufferList_size bs = of_nat (length (BufferList_concatenate bs))"
  by (simp only: BufferList_size_def size_loop_eq concatenate_eq) simp

lemma push_views_eq: "push_views vs bs = vs @ map Buffer_str bs"
  by (induction vs bs rule: push_views.induct) simp_all

lemma of_BufferList_eq [simp]: "BufferViewList_of_BufferList bs = map Buffer_str bs"
  by (simp add: BufferViewList_of_BufferList_def push_views_eq BufferList_buffers_def)

lemma view_size_loop_eq: "view_size_loop ret vs = ret + of_nat (length (concat vs))"
  by (induction ret vs rule: view_size_loop.induct) (simp_all add: string_length_def ac_simps)

lemma view_size_eq: "BufferViewList_size vs = of_nat (length (concat vs))"
  by (simp add: BufferViewList_size_def view_size_loop_eq)

lemma iovecs_loop_eq:
  "iovecs_loop ret vs = ret @ map (\<lambda>v. \<lparr>iov_base = v, iov_len = string_length v\<rparr>) vs"
  by (induction ret vs rule: iovecs_loop.induct) simp_all

lemma as_iovecs_bytes:
  assumes "list_all string_ok vs"
  shows "iovecs_bytes (BufferViewList_as_iovecs vs) = concat vs"
  using assms
  by (induction vs)
    (simp_all add: BufferViewList_as_iovecs_def iovecs_loop_eq iovecs_bytes_def unat_string_length)

section \<open>Invariants\<close>

definition buf_ok :: "Buffer \<Rightarrow> bool" where
  "buf_ok b \<longleftrightarrow> (case buf_storage b of None \<Rightarrow> True
     | Some s \<Rightarrow> string_ok s \<and> unat (buf_starting_offset b) \<le> length s)"

text \<open>A list whose total length is a \<open>size_t\<close> value, as anything in memory is.\<close>

definition bl_ok :: "BufferList \<Rightarrow> bool" where
  "bl_ok bs \<longleftrightarrow> list_all buf_ok bs \<and> length (concat (map Buffer_str bs)) < 2 ^ 64"

definition bvl_ok :: "BufferViewList \<Rightarrow> bool" where
  "bvl_ok vs \<longleftrightarrow> list_all string_ok vs \<and> length (concat vs) < 2 ^ 64"

lemma buf_ok_default [simp]: "buf_ok Buffer_default" "Buffer_str Buffer_default = []"
  by (simp_all add: buf_ok_def Buffer_default_def Buffer_str_def)

lemma buf_ok_new [simp]: "string_ok s \<Longrightarrow> buf_ok (Buffer_new s)" "Buffer_str (Buffer_new s) = s"
  by (simp_all add: buf_ok_def Buffer_new_def Buffer_str_def)

lemma string_ok_drop: "string_ok s \<Longrightarrow> string_ok (drop n s)"
  by (simp add: string_ok_def)

lemma buf_ok_str: "buf_ok b \<Longrightarrow> string_ok (Buffer_str b)"
  by (auto simp: buf_ok_def Buffer_str_def string_ok_def split: option.splits)

lemma unat_Buffer_size: "buf_ok b \<Longrightarrow> unat (Buffer_size b) = length (Buffer_str b)"
  by (simp add: Buffer_size_def unat_string_length buf_ok_str)

lemma bl_ok_views: "bl_ok bs \<Longrightarrow> bvl_ok (map Buffer_str bs)"
  by (auto simp: bl_ok_def bvl_ok_def list_all_iff buf_ok_str)

text \<open>\<open>Buffer::remove_prefix\<close> drops the bytes, or throws and leaves the buffer as it was.\<close>

lemma Buffer_remove_prefix_ok:
  assumes "buf_ok b" and "unat n \<le> length (Buffer_str b)"
  shows "\<exists>b'. Buffer_remove_prefix b n = Inr b' \<and> buf_ok b' \<and> Buffer_str b' = drop (unat n) (Buffer_str b)"
proof (cases "buf_storage b")
  case None
  then show ?thesis
    using assms by (simp add: Buffer_remove_prefix_def word_less_nat_alt unat_Buffer_size Let_def
        buf_ok_def Buffer_str_def)
next
  case (Some s)
  let ?o = "buf_starting_offset b"
  have s: "string_ok s" "unat ?o \<le> length s" "unat ?o + unat n \<le> length s"
    using assms Some by (auto simp: buf_ok_def Buffer_str_def)
  have "length s < 2 ^ 64"
    using s(1) by (simp add: string_ok_def string_max_size_def)
  then have o: "unat (?o + n) = unat ?o + unat n"
    using s(3) by (intro unat_add_lem [THEN iffD1]) simp
  have "(?o + n = string_length s) = (unat ?o + unat n = length s)"
    using s(1) o unat_string_length [OF s(1)] by (metis word_unat_eq_iff)
  moreover have "drop (unat ?o + unat n) s = drop (unat n) (drop (unat ?o) s)"
    by (simp add: add.commute)
  moreover have "\<not> Buffer_size b < n"
    using assms by (simp add: word_less_nat_alt unat_Buffer_size)
  ultimately show ?thesis
    using Some s o by (simp add: Buffer_remove_prefix_def Let_def buf_ok_def Buffer_str_def)
qed

lemma Buffer_remove_prefix_throws:
  assumes "buf_ok b" and "length (Buffer_str b) < unat n"
  shows "Buffer_remove_prefix b n = Inl (out_of_range ''Buffer::remove_prefix'')"
  using assms by (simp add: Buffer_remove_prefix_def word_less_nat_alt unat_Buffer_size)

section \<open>Removing a prefix of a list\<close>

lemma unat_size_diff:
  assumes "string_ok v" and "\<not> n < string_length v"
  shows "unat (n - string_length v) = unat n - length v" and "length v \<le> unat n"
proof -
  show "length v \<le> unat n"
    using assms by (simp add: word_less_nat_alt unat_string_length not_less)
  show "unat (n - string_length v) = unat n - length v"
    using assms by (simp add: unat_sub not_less unat_string_length)
qed

lemma view_remove_ok:
  assumes "bvl_ok vs" and "unat n \<le> length (concat vs)"
  shows "\<exists>vs'. BufferViewList_remove_prefix vs n = (Inr (), vs') \<and> bvl_ok vs' \<and>
           concat vs' = drop (unat n) (concat vs)"
  using assms
proof (induction vs n rule: BufferViewList_remove_prefix.induct)
  case (1 n)
  then show ?case by (simp add: word_neq_0_conv [symmetric] unat_eq_zero)
next
  case (2 v vs n)
  have ok: "string_ok v" "bvl_ok vs" "bvl_ok (drop (unat n) v # vs)"
    using "2.prems"(1) by (auto simp: bvl_ok_def string_ok_drop)
  consider (zero) "n = 0" | (part) "0 < n" "n < string_length v" | (all) "0 < n" "\<not> n < string_length v"
    by (metis word_neq_0_conv)
  then show ?case
  proof cases
    case zero
    with "2.prems" show ?thesis by simp
  next
    case part
    then have "unat n < length v"
      using ok(1) by (simp add: word_less_nat_alt unat_string_length)
    with part ok(3) show ?thesis by simp
  next
    case all
    note d = unat_size_diff [OF ok(1) all(2)]
    with "2.prems"(2) have "unat (n - string_length v) \<le> length (concat vs)" by simp
    with "2.IH" [OF all ok(2)] d all show ?thesis by simp
  qed
qed

lemma view_remove_throws:
  assumes "bvl_ok vs" and "length (concat vs) < unat n"
  shows "BufferViewList_remove_prefix vs n = (Inl (out_of_range ''BufferListView::remove_prefix''), [])"
  using assms
proof (induction vs n rule: BufferViewList_remove_prefix.induct)
  case (1 n)
  then show ?case by (simp add: word_less_nat_alt)
next
  case (2 v vs n)
  have ok: "string_ok v" "bvl_ok vs"
    using "2.prems"(1) by (auto simp: bvl_ok_def)
  have n: "0 < n" "\<not> n < string_length v"
    using "2.prems"(2) ok(1) by (simp_all add: word_less_nat_alt unat_string_length)
  with "2.IH" [OF n ok(2)] "2.prems"(2) unat_size_diff [OF ok(1) n(2)] show ?case by simp
qed

text \<open>A \<open>BufferList\<close> and the list of its views shrink in step, and fail in the same cases.\<close>

definition same_outcome :: "unit result \<Rightarrow> unit result \<Rightarrow> bool" where
  "same_outcome r r' \<longleftrightarrow>
     (r = Inr () \<and> r' = Inr ()) \<or> (\<exists>e e'. r = Inl (out_of_range e) \<and> r' = Inl (out_of_range e'))"

lemma remove_prefix_views:
  assumes "list_all buf_ok bs" and "BufferList_remove_prefix bs n = (r, bs')"
    and "BufferViewList_remove_prefix (map Buffer_str bs) n = (r', vs')"
  shows "list_all buf_ok bs' \<and> vs' = map Buffer_str bs' \<and> same_outcome r r'"
  using assms
proof (induction bs n rule: BufferList_remove_prefix.induct)
  case (1 n)
  then show ?case by (auto simp: same_outcome_def split: if_splits)
next
  case (2 b bs n)
  show ?case
  proof (cases "0 < n \<and> n < Buffer_size b")
    case True
    then have "unat n \<le> length (Buffer_str b)"
      using "2.prems"(1) by (simp add: word_less_nat_alt unat_Buffer_size)
    then obtain b' where "Buffer_remove_prefix b n = Inr b'" "buf_ok b'"
        "Buffer_str b' = drop (unat n) (Buffer_str b)"
      using Buffer_remove_prefix_ok [of b n] "2.prems"(1) by auto
    with True "2.prems" show ?thesis
      by (auto simp: Buffer_size_def same_outcome_def)
  next
    case False
    with "2.prems" "2.IH" show ?thesis
      by (auto simp: Buffer_size_def same_outcome_def split: if_splits)
  qed
qed

lemma bl_ok_of_views: "list_all buf_ok bs \<Longrightarrow> bvl_ok (map Buffer_str bs) \<Longrightarrow> bl_ok bs"
  by (simp add: bl_ok_def bvl_ok_def)

lemma list_remove_ok:
  assumes "bl_ok bs" and "unat n \<le> length (BufferList_concatenate bs)"
  shows "\<exists>bs'. BufferList_remove_prefix bs n = (Inr (), bs') \<and> bl_ok bs' \<and>
           BufferList_concatenate bs' = drop (unat n) (BufferList_concatenate bs)"
proof -
  obtain r bs' where r: "BufferList_remove_prefix bs n = (r, bs')" by fastforce
  obtain vs' where vs': "BufferViewList_remove_prefix (map Buffer_str bs) n = (Inr (), vs')" "bvl_ok vs'"
      "concat vs' = drop (unat n) (BufferList_concatenate bs)"
    using view_remove_ok [OF bl_ok_views [OF assms(1)]] assms(2) by auto
  have "list_all buf_ok bs' \<and> vs' = map Buffer_str bs' \<and> same_outcome r (Inr ())"
    using assms(1) by (intro remove_prefix_views [OF _ r vs'(1)]) (simp add: bl_ok_def)
  with r vs' show ?thesis
    by (auto simp: same_outcome_def bl_ok_of_views)
qed

lemma list_remove_throws:
  assumes "bl_ok bs" and "length (BufferList_concatenate bs) < unat n"
  shows "\<exists>e. BufferList_remove_prefix bs n = (Inl (out_of_range e), [])"
proof -
  obtain r bs' where r: "BufferList_remove_prefix bs n = (r, bs')" by fastforce
  have v: "BufferViewList_remove_prefix (map Buffer_str bs) n
      = (Inl (out_of_range ''BufferListView::remove_prefix''), [])"
    using view_remove_throws [OF bl_ok_views [OF assms(1)]] assms(2) by simp
  have "list_all buf_ok bs' \<and> [] = map Buffer_str bs' \<and>
      same_outcome r (Inl (out_of_range ''BufferListView::remove_prefix''))"
    using assms(1) by (intro remove_prefix_views [OF _ r v]) (simp add: bl_ok_def)
  with r show ?thesis
    by (auto simp: same_outcome_def)
qed

section \<open>The common contract\<close>

text \<open>A container of bytes of which a prefix can be removed: its size is the length of its bytes, and
  \<open>remove\<close> drops exactly the bytes asked for or throws \<open>out_of_range\<close>.\<close>

locale prefix_container =
  fixes inv :: "'b \<Rightarrow> bool"
    and bytes :: "'b \<Rightarrow> string"
    and sz :: "'b \<Rightarrow> size_t"
    and remove :: "'b \<Rightarrow> size_t \<Rightarrow> unit result \<times> 'b"
  assumes bytes_bound: "inv b \<Longrightarrow> length (bytes b) < 2 ^ 64"
    and size_bytes: "inv b \<Longrightarrow> sz b = of_nat (length (bytes b))"
    and remove_drops: "inv b \<Longrightarrow> unat n \<le> length (bytes b) \<Longrightarrow>
      \<exists>b'. remove b n = (Inr (), b') \<and> inv b' \<and> bytes b' = drop (unat n) (bytes b)"
    and remove_throws: "inv b \<Longrightarrow> length (bytes b) < unat n \<Longrightarrow>
      \<exists>e b'. remove b n = (Inl (out_of_range e), b')"
begin

lemma unat_sz: "inv b \<Longrightarrow> unat (sz b) = length (bytes b)"
  using bytes_bound [of b] by (simp add: size_bytes unat_of_nat_size)

lemma sz_0_iff: "inv b \<Longrightarrow> sz b = 0 \<longleftrightarrow> bytes b = []"
  using unat_sz [of b] by (metis length_0_conv unat_eq_zero)

text \<open>Success is decided by the size.\<close>

lemma remove_Inr_iff:
  assumes "inv b"
  shows "fst (remove b n) = Inr () \<longleftrightarrow> n \<le> sz b"
proof (cases "unat n \<le> length (bytes b)")
  case True
  with remove_drops [OF assms True] show ?thesis
    by (auto simp: word_le_nat_alt unat_sz [OF assms])
next
  case False
  with remove_throws [OF assms, of n] show ?thesis
    by (auto simp: word_le_nat_alt unat_sz [OF assms])
qed

text \<open>Removing in two steps is removing the sum.\<close>

lemma remove_twice:
  assumes "inv b" and "unat m + unat n \<le> length (bytes b)" and "remove b m = (Inr (), b1)"
    and "remove b1 n = (Inr (), b2)" and "remove b (m + n) = (Inr (), b3)"
  shows "bytes b2 = bytes b3" and "inv b2"
proof -
  have "unat (m + n) = unat m + unat n"
    using assms(2) bytes_bound [OF assms(1)] by (intro unat_add_lem [THEN iffD1]) simp
  moreover have "inv b1" "bytes b1 = drop (unat m) (bytes b)"
    using remove_drops [OF assms(1), of m] assms(2,3) by auto
  moreover from this have "inv b2 \<and> bytes b2 = drop (unat n) (bytes b1)"
    using remove_drops [of b1 n] assms(2,4) by auto
  ultimately show "bytes b2 = bytes b3" and "inv b2"
    using remove_drops [OF assms(1), of "m + n"] assms(2,5) by (auto simp: add.commute)
qed

end

text \<open>A \<open>Buffer\<close> keeps its value when \<open>remove_prefix\<close> throws.\<close>

definition Buffer_remove :: "Buffer \<Rightarrow> size_t \<Rightarrow> unit result \<times> Buffer" where
  "Buffer_remove b n = (case Buffer_remove_prefix b n of Inl e \<Rightarrow> (Inl e, b) | Inr b' \<Rightarrow> (Inr (), b'))"

interpretation buf: prefix_container buf_ok Buffer_str Buffer_size Buffer_remove
proof unfold_locales
  fix b n
  assume ok: "buf_ok b"
  show "length (Buffer_str b) < 2 ^ 64"
    using buf_ok_str [OF ok] by (simp add: string_ok_def string_max_size_def)
  show "Buffer_size b = of_nat (length (Buffer_str b))"
    by (simp add: Buffer_size_def string_length_def)
  show "\<exists>b'. Buffer_remove b n = (Inr (), b') \<and> buf_ok b' \<and> Buffer_str b' = drop (unat n) (Buffer_str b)"
    if "unat n \<le> length (Buffer_str b)"
    using Buffer_remove_prefix_ok [OF ok that] by (auto simp: Buffer_remove_def)
  show "\<exists>e b'. Buffer_remove b n = (Inl (out_of_range e), b')" if "length (Buffer_str b) < unat n"
    using Buffer_remove_prefix_throws [OF ok that] by (simp add: Buffer_remove_def)
qed

interpretation bl: prefix_container bl_ok BufferList_concatenate BufferList_size BufferList_remove_prefix
proof unfold_locales
  fix bs n
  assume ok: "bl_ok bs"
  show "length (BufferList_concatenate bs) < 2 ^ 64"
    using ok by (simp add: bl_ok_def)
  show "BufferList_size bs = of_nat (length (BufferList_concatenate bs))"
    by (rule size_eq)
qed (blast intro: list_remove_ok, metis list_remove_throws)

interpretation bvl: prefix_container bvl_ok concat BufferViewList_size BufferViewList_remove_prefix
proof unfold_locales
  fix vs :: BufferViewList
  assume ok: "bvl_ok vs"
  show "length (concat vs) < 2 ^ 64"
    using ok by (simp add: bvl_ok_def)
  show "BufferViewList_size vs = of_nat (length (concat vs))"
    by (rule view_size_eq)
qed (blast intro: view_remove_ok, metis view_remove_throws)

section \<open>Properties\<close>

text \<open>C8. Discarding a prefix of a discontiguous string: when \<open>n\<close> bytes are there,
  \<open>BufferList::remove_prefix(n)\<close> removes exactly the first \<open>n\<close> of them, across buffer boundaries, and
  \<open>size()\<close> is the length of what \<open>concatenate()\<close> then returns; when fewer are there it throws
  \<open>out_of_range\<close>, having emptied the list.\<close>

theorem bufferlist_remove_prefix:
  assumes "bl_ok bs"
  shows "if n \<le> BufferList_size bs
    then \<exists>bs'. BufferList_remove_prefix bs n = (Inr (), bs') \<and> bl_ok bs' \<and>
           BufferList_concatenate bs' = drop (unat n) (BufferList_concatenate bs) \<and>
           BufferList_size bs' = BufferList_size bs - n
    else \<exists>e. BufferList_remove_prefix bs n = (Inl (out_of_range e), [])"
proof (cases "n \<le> BufferList_size bs")
  case True
  then have n: "unat n \<le> length (BufferList_concatenate bs)"
    by (simp add: word_le_nat_alt bl.unat_sz [OF assms])
  obtain bs' where bs': "BufferList_remove_prefix bs n = (Inr (), bs')" "bl_ok bs'"
      "BufferList_concatenate bs' = drop (unat n) (BufferList_concatenate bs)"
    using bl.remove_drops [OF assms n] by blast
  have "BufferList_size bs' = of_nat (length (BufferList_concatenate bs) - unat n)"
    by (simp only: size_eq bs'(3) length_drop)
  also have "\<dots> = BufferList_size bs - n"
    using n by (simp only: of_nat_diff size_eq of_nat_unat ucast_id)
  finally show ?thesis
    using True bs' by simp
next
  case False
  then have "length (BufferList_concatenate bs) < unat n"
    by (simp add: word_le_nat_alt bl.unat_sz [OF assms] not_le)
  with False list_remove_throws [OF assms this] show ?thesis by simp
qed

theorem bufferlist_remove_prefix_witness:
  "bl_ok [Buffer_new ''abc'', Buffer_new ''de''] \<and>
   (\<exists>bs'. BufferList_remove_prefix [Buffer_new ''abc'', Buffer_new ''de''] 4 = (Inr (), bs') \<and>
      BufferList_concatenate bs' = ''e'')"
proof -
  let ?bs = "[Buffer_new ''abc'', Buffer_new ''de'']"
  have ok: "bl_ok ?bs"
    by (simp add: bl_ok_def buf_ok_def Buffer_new_def Buffer_str_def string_ok_def string_max_size_def)
  have "4 \<le> BufferList_size ?bs"
    by (simp add: size_eq del: concatenate_eq) (simp add: word_le_nat_alt)
  with bufferlist_remove_prefix [OF ok, of 4] ok show ?thesis
    by (auto simp del: BufferList_remove_prefix.simps)
qed

text \<open>C9. A \<open>BufferViewList\<close> made from a \<open>BufferList\<close> stands for its bytes: removing a prefix from the views gives the views of
  the list with the prefix removed, the two throw in the same cases, and afterwards \<open>as_iovecs()\<close> has one entry per
  buffer, pointing at its bytes with their number, so that what the kernel finds there are the bytes of the list and
  \<open>size()\<close> is how many.\<close>

theorem views_follow_bufferlist:
  assumes "bl_ok bs" and "BufferList_remove_prefix bs n = (r, bs')"
  shows "\<exists>r' vs'. BufferViewList_remove_prefix (BufferViewList_of_BufferList bs) n = (r', vs') \<and>
    vs' = BufferViewList_of_BufferList bs' \<and> same_outcome r r' \<and>
    BufferViewList_as_iovecs vs' = map (\<lambda>b. \<lparr>iov_base = Buffer_str b, iov_len = Buffer_size b\<rparr>) bs' \<and>
    iovecs_bytes (BufferViewList_as_iovecs vs') = BufferList_concatenate bs' \<and>
    BufferViewList_size vs' = BufferList_size bs'"
proof -
  obtain r' vs' where v: "BufferViewList_remove_prefix (map Buffer_str bs) n = (r', vs')" by fastforce
  have "list_all buf_ok bs" using assms(1) by (simp add: bl_ok_def)
  from remove_prefix_views [OF this assms(2) v]
  have vs': "list_all buf_ok bs'" "vs' = map Buffer_str bs'" "same_outcome r r'" by simp_all
  then have "list_all string_ok vs'"
    by (auto simp: list_all_iff buf_ok_str)
  then have "iovecs_bytes (BufferViewList_as_iovecs vs') = BufferList_concatenate bs'"
    using vs'(2) by (simp add: as_iovecs_bytes)
  moreover have "BufferViewList_as_iovecs vs' = map (\<lambda>b. \<lparr>iov_base = Buffer_str b, iov_len = Buffer_size b\<rparr>) bs'"
    by (simp add: vs'(2) BufferViewList_as_iovecs_def iovecs_loop_eq Buffer_size_def)
  moreover have "BufferViewList_size vs' = BufferList_size bs'"
    using vs'(2) by (simp add: view_size_eq size_eq)
  ultimately show ?thesis
    using v vs' by simp
qed

theorem views_follow_bufferlist_witness:
  "\<exists>r bs' r' vs'. BufferList_remove_prefix [Buffer_new ''abc'', Buffer_new ''de''] 4 = (r, bs') \<and>
    BufferViewList_remove_prefix (BufferViewList_of_BufferList [Buffer_new ''abc'', Buffer_new ''de'']) 4 = (r', vs') \<and>
    same_outcome r r' \<and> iovecs_bytes (BufferViewList_as_iovecs vs') = BufferList_concatenate bs'"
proof -
  let ?bs = "[Buffer_new ''abc'', Buffer_new ''de'']"
  have ok: "bl_ok ?bs"
    by (simp add: bl_ok_def buf_ok_def Buffer_new_def Buffer_str_def string_ok_def string_max_size_def)
  obtain r bs' where r: "BufferList_remove_prefix ?bs 4 = (r, bs')" by fastforce
  with views_follow_bufferlist [OF ok r] show ?thesis by blast
qed

end
