(* ===== verification/Net_Parser.thy ===== *)
theory Net_Parser
  imports Buffers
begin

unbundle bit_operations_syntax

text \<open>
  \<open>NetParser\<close> and \<open>NetUnparser\<close> of \<open>libsponge/util/parser.hh\<close> and \<open>libsponge/util/parser.cc\<close>: reading and
  writing integers in network byte order.  The template methods are polymorphic in the word length,
  with \<open>sizeof(T)\<close> the length in bytes; \<open>u32\<close>, \<open>u16\<close> and \<open>u8\<close> are their three instances.
\<close>

section \<open>ParseResult\<close>

datatype ParseResult =
    NoError
  | BadChecksum
  | PacketTooShort
  | WrongIPVersion
  | HeaderTooShort
  | TruncatedPacket
  | Unsupported

text \<open>\<open>static_cast<size_t>(r)\<close>: the enumerators count from 0, and are ordered by that number.\<close>

fun ParseResult_code :: "ParseResult \<Rightarrow> nat" where
  "ParseResult_code NoError = 0"
| "ParseResult_code BadChecksum = 1"
| "ParseResult_code PacketTooShort = 2"
| "ParseResult_code WrongIPVersion = 3"
| "ParseResult_code HeaderTooShort = 4"
| "ParseResult_code TruncatedPacket = 5"
| "ParseResult_code Unsupported = 6"

lemma ParseResult_code_inj: "ParseResult_code r = ParseResult_code r' \<longleftrightarrow> r = r'"
  by (cases r; cases r') simp_all

instantiation ParseResult :: linorder
begin

definition less_eq_ParseResult :: "ParseResult \<Rightarrow> ParseResult \<Rightarrow> bool" where
  "less_eq_ParseResult r r' \<longleftrightarrow> ParseResult_code r \<le> ParseResult_code r'"

definition less_ParseResult :: "ParseResult \<Rightarrow> ParseResult \<Rightarrow> bool" where
  "less_ParseResult r r' \<longleftrightarrow> ParseResult_code r < ParseResult_code r'"

instance
  by standard (auto simp: less_eq_ParseResult_def less_ParseResult_def ParseResult_code_inj
      simp flip: ParseResult_code_inj)

end

definition parse_result_names :: "string list" where
  "parse_result_names = [''NoError'', ''BadChecksum'', ''PacketTooShort'', ''WrongIPVersion'',
     ''HeaderTooShort'', ''TruncatedPacket'']"

text \<open>\<open>as_string\<close> indexes the array of names with the enumerator.\<close>

definition as_string :: "ParseResult \<Rightarrow> string result" where
  "as_string r =
     (if ParseResult_code r < length parse_result_names
      then Inr (parse_result_names ! ParseResult_code r)
      else Inl (Undefined OutOfBounds))"

section \<open>NetParser\<close>

record NetParser =
  np_buffer :: Buffer
  np_error :: ParseResult

definition NetParser_new :: "Buffer \<Rightarrow> NetParser" where
  "NetParser_new b = \<lparr>np_buffer = b, np_error = NoError\<rparr>"

definition NetParser_buffer :: "NetParser \<Rightarrow> Buffer" where
  "NetParser_buffer p = np_buffer p"

definition NetParser_get_error :: "NetParser \<Rightarrow> ParseResult" where
  "NetParser_get_error p = np_error p"

definition NetParser_set_error :: "NetParser \<Rightarrow> ParseResult \<Rightarrow> NetParser" where
  "NetParser_set_error p r = p\<lparr>np_error := r\<rparr>"

definition NetParser_error :: "NetParser \<Rightarrow> bool" where
  "NetParser_error p \<longleftrightarrow> NetParser_get_error p \<noteq> NoError"

definition NetParser_check_size :: "NetParser \<Rightarrow> size_t \<Rightarrow> NetParser" where
  "NetParser_check_size p sz =
     (if Buffer_size (np_buffer p) < sz then NetParser_set_error p PacketTooShort else p)"

text \<open>\<open>_parse_int<T>\<close>: \<open>ret <<= 8; ret += buffer.at(i)\<close> for each byte of \<open>T\<close>.\<close>

fun parse_loop :: "Buffer \<Rightarrow> nat list \<Rightarrow> 'a::len word \<Rightarrow> 'a word result" where
  "parse_loop b [] ret = Inr ret"
| "parse_loop b (i # is) ret =
     bindR (Buffer_at b (of_nat i)) (\<lambda>c. parse_loop b is (push_bit 8 ret + ucast c))"

definition NetParser_parse_int :: "NetParser \<Rightarrow> ('a::len word \<times> NetParser) result" where
  "NetParser_parse_int p =
     (let len = LENGTH('a) div 8;
          p' = NetParser_check_size p (of_nat len) in
      if NetParser_error p' then Inr (0, p')
      else
        bindR (parse_loop (np_buffer p') [0..<len] 0) (\<lambda>ret.
        bindR (Buffer_remove_prefix (np_buffer p') (of_nat len)) (\<lambda>b.
          Inr (ret, p'\<lparr>np_buffer := b\<rparr>))))"

definition NetParser_u32 :: "NetParser \<Rightarrow> (uint32_t \<times> NetParser) result" where
  "NetParser_u32 p = NetParser_parse_int p"

definition NetParser_u16 :: "NetParser \<Rightarrow> (uint16_t \<times> NetParser) result" where
  "NetParser_u16 p = NetParser_parse_int p"

definition NetParser_u8 :: "NetParser \<Rightarrow> (uint8_t \<times> NetParser) result" where
  "NetParser_u8 p = NetParser_parse_int p"

definition NetParser_remove_prefix :: "NetParser \<Rightarrow> size_t \<Rightarrow> NetParser result" where
  "NetParser_remove_prefix p n =
     (let p' = NetParser_check_size p n in
      if NetParser_error p' then Inr p'
      else bindR (Buffer_remove_prefix (np_buffer p') n) (\<lambda>b. Inr (p'\<lparr>np_buffer := b\<rparr>)))"

section \<open>NetUnparser\<close>

text \<open>\<open>_unparse_int<T>\<close>: \<open>(val >> ((len - i - 1) * 8)) & 0xff\<close> for each byte, pushed to the string.\<close>

fun unparse_loop :: "string \<Rightarrow> 'a::len word \<Rightarrow> nat list \<Rightarrow> string" where
  "unparse_loop s val [] = s"
| "unparse_loop s val (i # is) =
     unparse_loop (s @ [char_of_uint8 (ucast (drop_bit ((LENGTH('a) div 8 - i - 1) * 8) val AND 0xff))])
       val is"

definition NetUnparser_unparse_int :: "string \<Rightarrow> 'a::len word \<Rightarrow> string" where
  "NetUnparser_unparse_int s val = unparse_loop s val [0..<LENGTH('a) div 8]"

definition NetUnparser_u32 :: "string \<Rightarrow> uint32_t \<Rightarrow> string" where
  "NetUnparser_u32 s val = NetUnparser_unparse_int s val"

definition NetUnparser_u16 :: "string \<Rightarrow> uint16_t \<Rightarrow> string" where
  "NetUnparser_u16 s val = NetUnparser_unparse_int s val"

definition NetUnparser_u8 :: "string \<Rightarrow> uint8_t \<Rightarrow> string" where
  "NetUnparser_u8 s val = NetUnparser_unparse_int s val"

section \<open>The bytes of a word\<close>

text \<open>Byte \<open>i\<close> of a word of \<open>k\<close> bytes, the most significant first.\<close>

definition net_byte :: "nat \<Rightarrow> 'a::len word \<Rightarrow> nat \<Rightarrow> uint8_t" where
  "net_byte k val i = ucast (drop_bit ((k - i - 1) * 8) val)"

definition net_bytes :: "'a::len word \<Rightarrow> string" where
  "net_bytes val = map (\<lambda>i. char_of_uint8 (net_byte (LENGTH('a) div 8) val i)) [0..<LENGTH('a) div 8]"

lemma ucast_and_255: "(ucast (w AND 255 :: 'a::len word) :: uint8_t) = ucast w"
proof (rule bit_word_eqI)
  fix n assume "n < LENGTH(8)"
  then have n: "n < 8" by simp
  have 255: "(255 :: 'a word) = mask 8"
    by (simp add: mask_eq_exp_minus_1)
  show "bit (ucast (w AND 255) :: uint8_t) n = bit (ucast w :: uint8_t) n"
    unfolding 255 using n by (auto simp: bit_simps dest: bit_imp_le_length)
qed

lemma unparse_loop_eq:
  "unparse_loop s (val :: 'a::len word) is
     = s @ map (\<lambda>i. char_of_uint8 (net_byte (LENGTH('a) div 8) val i)) is"
  by (induction "is" arbitrary: s) (simp_all add: net_byte_def ucast_and_255)

lemma unparse_int_eq: "NetUnparser_unparse_int s val = s @ net_bytes val"
  by (simp add: NetUnparser_unparse_int_def unparse_loop_eq net_bytes_def)

lemma length_net_bytes [simp]: "length (net_bytes (val :: 'a::len word)) = LENGTH('a) div 8"
  by (simp add: net_bytes_def)

lemma nth_net_bytes:
  "i < LENGTH('a) div 8 \<Longrightarrow>
     net_bytes (val :: 'a::len word) ! i = char_of_uint8 (net_byte (LENGTH('a) div 8) val i)"
  by (simp add: net_bytes_def)

text \<open>Shifting a byte in undoes shifting it out.\<close>

lemma shift_in_byte:
  fixes w :: "'a::len word"
  shows "push_bit 8 (drop_bit 8 w) + ucast (ucast w :: uint8_t) = w"
proof -
  have "(ucast (ucast w :: uint8_t) :: 'a word) = take_bit 8 w"
    by (rule bit_word_eqI) (auto simp: bit_simps)
  then show ?thesis
    by (simp add: bits_ident)
qed

lemma shift_out_byte:
  fixes w :: "'a::len word" and c :: uint8_t
  assumes "\<forall>n. bit w n \<longrightarrow> n + 8 < LENGTH('a)" and "8 \<le> LENGTH('a)"
  shows "drop_bit 8 (push_bit 8 w + ucast c) = w" and "ucast (push_bit 8 w + ucast c) = c"
proof -
  have "push_bit 8 w AND ucast c = 0"
    by (rule bit_word_eqI) (auto simp: bit_simps dest: bit_imp_le_length)
  then have or: "push_bit 8 w + ucast c = push_bit 8 w OR ucast c"
    by (rule disjunctive_add_eq_or)
  show "drop_bit 8 (push_bit 8 w + ucast c) = w"
    unfolding or using assms by (intro bit_word_eqI) (auto simp: bit_simps dest: bit_imp_le_length)
  show "ucast (push_bit 8 w + ucast c) = c"
    unfolding or using assms by (intro bit_word_eqI) (auto simp: bit_simps)
qed

section \<open>Parsing what is there\<close>

lemma Buffer_at_in:
  assumes "i < length (Buffer_str b)" and "buf_ok b"
  shows "Buffer_at b (of_nat i) = Inr (uint8_of_char (Buffer_str b ! i))"
proof -
  have "i < 2 ^ 64"
    using assms buf.bytes_bound [OF assms(2)] by simp
  with assms(1) show ?thesis
    by (simp add: Buffer_at_def unat_of_nat_size)
qed

lemma parse_loop_net_bytes:
  fixes val :: "'a::len word"
  assumes "buf_ok b" and "k = LENGTH('a) div 8" and "take k (Buffer_str b) = net_bytes val" and "i \<le> k"
  shows "parse_loop b [i..<k] (drop_bit ((k - i) * 8) val) = Inr val"
  using assms(4)
proof (induction "k - i" arbitrary: i)
  case 0
  then show ?case by simp
next
  case (Suc d)
  then have i: "i < k" by simp
  have "length (take k (Buffer_str b)) = k"
    by (metis assms(2,3) length_net_bytes)
  then have "i < length (Buffer_str b)"
    using i by simp
  moreover have "Buffer_str b ! i = char_of_uint8 (net_byte k val i)"
    using i nth_net_bytes [of i val] by (metis assms(2,3) nth_take)
  ultimately have at: "Buffer_at b (of_nat i) = Inr (net_byte k val i)"
    using assms(1) by (simp add: Buffer_at_in)
  let ?w = "drop_bit ((k - Suc i) * 8) val"
  have "drop_bit ((k - i) * 8) val = drop_bit 8 ?w"
    using i by (simp add: Suc_diff_Suc [symmetric] ac_simps)
  then have "push_bit 8 (drop_bit ((k - i) * 8) val) + ucast (net_byte k val i) = ?w"
    using shift_in_byte [of ?w] by (simp add: net_byte_def)
  with at i Suc.hyps show ?case
    by (simp add: upt_conv_Cons)
qed

lemma parse_loop_bytes:
  fixes ret :: "'a::len word"
  assumes "buf_ok b" and "k \<le> length (Buffer_str b)" and "8 * k \<le> LENGTH('a)" and "i \<le> k"
    and "\<forall>n. bit ret n \<longrightarrow> n < 8 * i"
  shows "\<exists>v. parse_loop b [i..<k] ret = Inr v \<and> drop_bit (8 * (k - i)) v = ret \<and>
           (\<forall>j. i \<le> j \<and> j < k \<longrightarrow> net_byte k v j = uint8_of_char (Buffer_str b ! j))"
  using assms(4,5)
proof (induction "k - i" arbitrary: i ret)
  case 0
  then show ?case by auto
next
  case (Suc d)
  then have i: "i < k" by simp
  let ?c = "uint8_of_char (Buffer_str b ! i)"
  let ?r = "push_bit 8 ret + ucast ?c"
  have at: "Buffer_at b (of_nat i) = Inr ?c"
    using i assms(1,2) by (simp add: Buffer_at_in)
  have "\<forall>n. bit ret n \<longrightarrow> n + 8 < LENGTH('a)" "8 \<le> LENGTH('a)"
    using Suc.prems(2) i assms(3) by fastforce+
  note out = shift_out_byte [OF this, of ?c]
  have "\<forall>n. bit ?r n \<longrightarrow> n < 8 * Suc i"
  proof (intro allI impI)
    fix n assume "bit ?r n"
    then have "8 \<le> n \<Longrightarrow> bit (drop_bit 8 ?r) (n - 8)"
      by (simp add: bit_drop_bit_eq)
    then show "n < 8 * Suc i"
      using Suc.prems(2) unfolding out(1) by (cases "8 \<le> n") fastforce+
  qed
  moreover have "d = k - Suc i" "Suc i \<le> k"
    using Suc.hyps(2) i by simp_all
  ultimately obtain v where v: "parse_loop b [Suc i..<k] ?r = Inr v"
      "drop_bit (8 * (k - Suc i)) v = ?r"
      "\<forall>j. Suc i \<le> j \<and> j < k \<longrightarrow> net_byte k v j = uint8_of_char (Buffer_str b ! j)"
    using Suc.hyps(1) [of "Suc i" ?r] by blast
  have "drop_bit (8 * (k - i)) v = drop_bit 8 (drop_bit (8 * (k - Suc i)) v)"
    using i by (simp add: Suc_diff_Suc [symmetric] ac_simps)
  then have "drop_bit (8 * (k - i)) v = ret"
    using v(2) out(1) by simp
  moreover have "net_byte k v i = ?c"
    using v(2) out(2) by (simp add: net_byte_def mult.commute)
  ultimately have "\<forall>j. i \<le> j \<and> j < k \<longrightarrow> net_byte k v j = uint8_of_char (Buffer_str b ! j)"
    using v(3) by (metis Suc_leI le_neq_implies_less)
  moreover have "parse_loop b [i..<k] ret = Inr v"
    using v(1) at i by (simp add: upt_conv_Cons)
  ultimately show ?case
    using \<open>drop_bit (8 * (k - i)) v = ret\<close> by blast
qed

section \<open>Field codecs\<close>

text \<open>A parser that is in no error and has the bytes \<open>t\<close> before it.\<close>

definition np_at :: "NetParser \<Rightarrow> string \<Rightarrow> bool" where
  "np_at p t \<longleftrightarrow> buf_ok (np_buffer p) \<and> np_error p = NoError \<and> Buffer_str (np_buffer p) = t"

lemma np_at_new: "string_ok t \<Longrightarrow> np_at (NetParser_new (Buffer_new t)) t"
  by (simp add: np_at_def NetParser_new_def)

text \<open>The contract of a method of \<open>NetParser\<close> and the method of \<open>NetUnparser\<close> that goes with it: \<open>put\<close>
  appends the encoding of a value, \<open>get\<close> consumes an encoding and returns its value, and \<open>get\<close>
  consumes nothing else.\<close>

locale field_codec =
  fixes width :: nat
    and put :: "string \<Rightarrow> 'v \<Rightarrow> string"
    and get :: "NetParser \<Rightarrow> ('v \<times> NetParser) result"
  assumes put_append: "put s v = s @ put [] v"
    and put_width: "length (put [] v) = width"
    and get_put: "np_at p (put [] v @ t) \<Longrightarrow> \<exists>p'. get p = Inr (v, p') \<and> np_at p' t"
    and put_get: "np_at p t \<Longrightarrow> width \<le> length t \<Longrightarrow>
      \<exists>v p'. get p = Inr (v, p') \<and> put [] v = take width t \<and> np_at p' (drop width t)"
begin

lemma put_inj:
  assumes "put [] v = put [] v'" and "string_ok (put [] v)"
  shows "v = v'"
proof -
  let ?p = "NetParser_new (Buffer_new (put [] v))"
  have at: "np_at ?p (put [] v @ [])"
    using np_at_new [OF assms(2)] by simp
  then obtain p1 p2 where "get ?p = Inr (v, p1)" "get ?p = Inr (v', p2)"
    using get_put [OF at] get_put [of ?p v' "[]"] assms(1) by metis
  then show ?thesis by simp
qed

end

lemma check_size_at:
  assumes "np_at p t" and "n \<le> length t"
  shows "NetParser_check_size p (of_nat n) = p" and "\<not> NetParser_error p"
    and "unat (of_nat n :: size_t) = n"
proof -
  have ok: "buf_ok (np_buffer p)" "length t < 2 ^ 64"
    using assms(1) buf.bytes_bound by (auto simp: np_at_def)
  then show u: "unat (of_nat n :: size_t) = n"
    using assms(2) by (simp add: unat_of_nat_size)
  have "unat (Buffer_size (np_buffer p)) = length t"
    using assms(1) buf.unat_sz [OF ok(1)] by (simp add: np_at_def)
  then show "NetParser_check_size p (of_nat n) = p"
    using u assms(2) by (simp add: NetParser_check_size_def word_less_nat_alt)
  show "\<not> NetParser_error p"
    using assms(1) by (simp add: NetParser_error_def NetParser_get_error_def np_at_def)
qed

lemma parse_int_at:
  fixes v :: "'a::len word"
  assumes "np_at p t" and "LENGTH('a) div 8 \<le> length t"
    and "parse_loop (np_buffer p) [0..<LENGTH('a) div 8] 0 = Inr v"
  shows "\<exists>p'. NetParser_parse_int p = Inr (v, p') \<and> np_at p' (drop (LENGTH('a) div 8) t)"
proof -
  note c = check_size_at [OF assms(1,2)]
  obtain b' where "Buffer_remove_prefix (np_buffer p) (of_nat (LENGTH('a) div 8)) = Inr b'" "buf_ok b'"
      "Buffer_str b' = drop (LENGTH('a) div 8) t"
    using Buffer_remove_prefix_ok [of "np_buffer p" "of_nat (LENGTH('a) div 8)"] assms(1,2) c(3)
    by (auto simp: np_at_def)
  with c assms(1,3) show ?thesis
    by (simp add: NetParser_parse_int_def Let_def np_at_def)
qed

text \<open>Both directions for a word of whole bytes.\<close>

lemma parse_unparse:
  fixes v :: "'a::len word"
  assumes "LENGTH('a) div 8 * 8 = LENGTH('a)" and "np_at p (net_bytes v @ t)"
  shows "\<exists>p'. NetParser_parse_int p = Inr (v, p') \<and> np_at p' t"
proof -
  have "drop_bit (LENGTH('a) div 8 * 8) v = 0"
    unfolding assms(1) by (rule bit_word_eqI) (auto simp: bit_simps dest: bit_imp_le_length)
  moreover have "parse_loop (np_buffer p) [0..<LENGTH('a) div 8] (drop_bit ((LENGTH('a) div 8 - 0) * 8) v) = Inr v"
    by (rule parse_loop_net_bytes) (use assms(2) in \<open>simp_all add: np_at_def\<close>)
  ultimately have "parse_loop (np_buffer p) [0..<LENGTH('a) div 8] 0 = Inr v"
    by simp
  from parse_int_at [OF assms(2) _ this] show ?thesis by simp
qed

lemma unparse_parse:
  assumes "LENGTH('a::len) div 8 * 8 = LENGTH('a)" and "np_at p t" and "LENGTH('a) div 8 \<le> length t"
  shows "\<exists>(v :: 'a word) p'. NetParser_parse_int p = Inr (v, p') \<and>
    net_bytes v = take (LENGTH('a) div 8) t \<and> np_at p' (drop (LENGTH('a) div 8) t)"
proof -
  let ?k = "LENGTH('a) div 8"
  have b: "buf_ok (np_buffer p)" "Buffer_str (np_buffer p) = t"
    using assms(2) by (simp_all add: np_at_def)
  obtain v :: "'a word" where v: "parse_loop (np_buffer p) [0..<?k] 0 = Inr v"
      "\<forall>j. j < ?k \<longrightarrow> net_byte ?k v j = uint8_of_char (t ! j)"
    using parse_loop_bytes [of "np_buffer p" ?k 0 "0 :: 'a word"] assms(1,3) b by auto
  have "net_bytes v = take ?k t"
    by (rule nth_equalityI) (use assms(3) v(2) in \<open>simp_all add: nth_net_bytes\<close>)
  with parse_int_at [OF assms(2,3) v(1)] show ?thesis by blast
qed

lemmas codec_defs =
  NetUnparser_u32_def NetUnparser_u16_def NetUnparser_u8_def unparse_int_eq
  NetParser_u32_def NetParser_u16_def NetParser_u8_def

interpretation u32: field_codec 4 NetUnparser_u32 NetParser_u32
  by unfold_locales
    (use parse_unparse [where 'a = 32] unparse_parse [where 'a = 32] in \<open>simp_all add: codec_defs\<close>)

interpretation u16: field_codec 2 NetUnparser_u16 NetParser_u16
  by unfold_locales
    (use parse_unparse [where 'a = 16] unparse_parse [where 'a = 16] in \<open>simp_all add: codec_defs\<close>)

interpretation u8: field_codec 1 NetUnparser_u8 NetParser_u8
  by unfold_locales
    (use parse_unparse [where 'a = 8] unparse_parse [where 'a = 8] in \<open>simp_all add: codec_defs\<close>)

section \<open>Headers: sequences of fields\<close>

text \<open>A header is read and written as a sequence of calls, one for each field; \<open>field_kind\<close> names the
  method called and \<open>field\<close> carries the value.\<close>

datatype field_kind = K32 | K16 | K8

datatype field = F32 uint32_t | F16 uint16_t | F8 uint8_t

fun kind_of :: "field \<Rightarrow> field_kind" where
  "kind_of (F32 _) = K32"
| "kind_of (F16 _) = K16"
| "kind_of (F8 _) = K8"

fun kind_width :: "field_kind \<Rightarrow> nat" where
  "kind_width K32 = 4"
| "kind_width K16 = 2"
| "kind_width K8 = 1"

fun put_field :: "string \<Rightarrow> field \<Rightarrow> string" where
  "put_field s (F32 v) = NetUnparser_u32 s v"
| "put_field s (F16 v) = NetUnparser_u16 s v"
| "put_field s (F8 v) = NetUnparser_u8 s v"

fun get_field :: "field_kind \<Rightarrow> NetParser \<Rightarrow> (field \<times> NetParser) result" where
  "get_field K32 p = bindR (NetParser_u32 p) (\<lambda>(v, p'). Inr (F32 v, p'))"
| "get_field K16 p = bindR (NetParser_u16 p) (\<lambda>(v, p'). Inr (F16 v, p'))"
| "get_field K8 p = bindR (NetParser_u8 p) (\<lambda>(v, p'). Inr (F8 v, p'))"

fun put_fields :: "string \<Rightarrow> field list \<Rightarrow> string" where
  "put_fields s [] = s"
| "put_fields s (f # fs) = put_fields (put_field s f) fs"

fun get_fields :: "field_kind list \<Rightarrow> NetParser \<Rightarrow> (field list \<times> NetParser) result" where
  "get_fields [] p = Inr ([], p)"
| "get_fields (k # ks) p =
     bindR (get_field k p) (\<lambda>(f, p'). bindR (get_fields ks p') (\<lambda>(fs, p''). Inr (f # fs, p'')))"

lemma put_field_append: "put_field s f = s @ put_field [] f"
  by (cases f) (simp_all add: u32.put_append [of s] u16.put_append [of s] u8.put_append [of s])

lemma put_fields_append: "put_fields s fs = s @ put_fields [] fs"
proof (induction fs arbitrary: s)
  case (Cons f fs)
  show ?case
    using Cons [of "put_field s f"] Cons [of "put_field [] f"] put_field_append [of s f] by simp
qed simp

lemma put_fields_Cons: "put_fields [] (f # fs) = put_field [] f @ put_fields [] fs"
  using put_fields_append [of "put_field [] f" fs] by simp

lemma get_put_field:
  assumes "np_at p (put_field [] f @ t)"
  shows "\<exists>p'. get_field (kind_of f) p = Inr (f, p') \<and> np_at p' t"
  using assms by (cases f) (auto dest!: u32.get_put u16.get_put u8.get_put)

lemma put_get_field:
  assumes "np_at p t" and "kind_width k \<le> length t"
  shows "\<exists>f p'. get_field k p = Inr (f, p') \<and> kind_of f = k \<and>
           put_field [] f = take (kind_width k) t \<and> np_at p' (drop (kind_width k) t)"
proof (cases k)
  case K32
  with u32.put_get [OF assms(1)] assms(2) show ?thesis
    by simp (metis bindR_Inr kind_of.simps(1) old.prod.case put_field.simps(1))
next
  case K16
  with u16.put_get [OF assms(1)] assms(2) show ?thesis
    by simp (metis bindR_Inr kind_of.simps(2) old.prod.case put_field.simps(2))
next
  case K8
  with u8.put_get [OF assms(1)] assms(2) show ?thesis
    by simp (metis bindR_Inr kind_of.simps(3) old.prod.case put_field.simps(3))
qed

section \<open>Short packets\<close>

text \<open>On any field, a parser that is in error or has too few bytes returns 0, keeps its buffer, and is
  in error afterwards: \<open>PacketTooShort\<close> when the bytes ran out.\<close>

fun zero_field :: "field_kind \<Rightarrow> field" where
  "zero_field K32 = F32 0"
| "zero_field K16 = F16 0"
| "zero_field K8 = F8 0"

definition np_stuck :: "NetParser \<Rightarrow> nat \<Rightarrow> bool" where
  "np_stuck p n \<longleftrightarrow> NetParser_error p \<or> length (Buffer_str (np_buffer p)) < n"

lemma check_size_stuck:
  assumes "np_stuck p n" and "buf_ok (np_buffer p)" and "n < 2 ^ 64"
  shows "NetParser_error (NetParser_check_size p (of_nat n))"
    and "np_buffer (NetParser_check_size p (of_nat n)) = np_buffer p"
    and "NetParser_get_error (NetParser_check_size p (of_nat n)) =
      (if length (Buffer_str (np_buffer p)) < n then PacketTooShort else NetParser_get_error p)"
  using assms buf.unat_sz [OF assms(2)]
  by (auto simp: np_stuck_def NetParser_check_size_def NetParser_set_error_def NetParser_error_def
      NetParser_get_error_def word_less_nat_alt unat_of_nat_size)

lemma get_field_stuck:
  assumes "np_stuck p (kind_width k)" and "buf_ok (np_buffer p)"
  shows "get_field k p = Inr (zero_field k, NetParser_check_size p (of_nat (kind_width k)))"
  using assms check_size_stuck(1) [OF assms]
  by (cases k) (simp_all add: NetParser_u32_def NetParser_u16_def NetParser_u8_def
      NetParser_parse_int_def Let_def)

text \<open>Once \<open>PacketTooShort\<close> is set, no call changes the parser.\<close>

lemma check_size_too_short: "NetParser_get_error p = PacketTooShort \<Longrightarrow> NetParser_check_size p n = p"
  by (simp add: NetParser_check_size_def NetParser_set_error_def NetParser_get_error_def)

lemma get_fields_too_short:
  assumes "NetParser_get_error p = PacketTooShort" and "buf_ok (np_buffer p)"
  shows "get_fields ks p = Inr (map zero_field ks, p)"
proof (induction ks)
  case (Cons k ks)
  have "np_stuck p (kind_width k)"
    using assms(1) by (simp add: np_stuck_def NetParser_error_def)
  with Cons.IH show ?case
    using get_field_stuck [OF _ assms(2)] check_size_too_short [OF assms(1)] by simp
qed simp

lemma remove_prefix_too_short:
  "NetParser_get_error p = PacketTooShort \<Longrightarrow> NetParser_remove_prefix p n = Inr p"
  by (simp add: NetParser_remove_prefix_def check_size_too_short NetParser_error_def Let_def)

section \<open>Properties\<close>

text \<open>C10. Encoding is undone by decoding: whatever fields are written, in whatever order, the calls of
  \<open>NetParser\<close> for the same kinds of field return the same values, leave the parser in no error, and
  leave in its buffer exactly what followed the header.\<close>

theorem parse_unparse_fields:
  assumes "np_at p (put_fields [] fs @ t)"
  shows "\<exists>p'. get_fields (map kind_of fs) p = Inr (fs, p') \<and> np_at p' t"
  using assms
proof (induction fs arbitrary: p)
  case (Cons f fs)
  then have "np_at p (put_field [] f @ (put_fields [] fs @ t))"
    by (simp only: put_fields_Cons append_assoc)
  from get_put_field [OF this] obtain p1
    where p1: "get_field (kind_of f) p = Inr (f, p1)" "np_at p1 (put_fields [] fs @ t)" by blast
  from Cons.IH [OF p1(2)] p1(1) show ?case by auto
qed simp

theorem parse_unparse_fields_witness:
  "\<exists>p'. get_fields [K8, K32, K16, K8, K32]
          (NetParser_new (Buffer_new (put_fields [] [F8 5, F32 3735928559, F16 0x1234, F8 255, F32 1] @ ''xy'')))
        = Inr ([F8 5, F32 3735928559, F16 0x1234, F8 255, F32 1], p') \<and> np_at p' ''xy''"
proof -
  let ?fs = "[F8 5, F32 3735928559, F16 0x1234, F8 255, F32 1]"
  have "string_ok (put_fields [] ?fs @ ''xy'')"
    by (simp add: string_ok_def string_max_size_def codec_defs)
  from parse_unparse_fields [OF np_at_new [OF this]] show ?thesis by simp
qed

text \<open>C11. Decoding is undone by encoding: when the buffer holds at least the bytes the fields take,
  reading them succeeds, the values read encode back to exactly the bytes that were there, and just
  those bytes are consumed.  So no two byte sequences decode to the same header.\<close>

theorem unparse_parse_fields:
  assumes "np_at p t" and "sum_list (map kind_width ks) \<le> length t"
  shows "\<exists>fs p'. get_fields ks p = Inr (fs, p') \<and> map kind_of fs = ks \<and>
           put_fields [] fs = take (sum_list (map kind_width ks)) t \<and>
           np_at p' (drop (sum_list (map kind_width ks)) t)"
  using assms
proof (induction ks arbitrary: p t)
  case (Cons k ks)
  let ?w = "kind_width k" and ?n = "sum_list (map kind_width ks)"
  have "?w \<le> length t" using Cons.prems(2) by simp
  from put_get_field [OF Cons.prems(1) this] obtain f p1 where f: "get_field k p = Inr (f, p1)"
    "kind_of f = k" "put_field [] f = take ?w t" "np_at p1 (drop ?w t)" by blast
  have "?n \<le> length (drop ?w t)" using Cons.prems(2) by simp
  from Cons.IH [OF f(4) this] obtain fs p2 where fs: "get_fields ks p1 = Inr (fs, p2)"
    "map kind_of fs = ks" "put_fields [] fs = take ?n (drop ?w t)" "np_at p2 (drop ?n (drop ?w t))" by blast
  have "get_fields (k # ks) p = Inr (f # fs, p2)"
    using f(1) fs(1) by simp
  moreover have "put_fields [] (f # fs) = take (?w + ?n) t"
    unfolding put_fields_Cons f(3) fs(3) by (rule take_add [symmetric])
  moreover have "np_at p2 (drop (?w + ?n) t)"
    using fs(4) by (simp add: add.commute)
  ultimately show ?case
    using f(2) fs(2) by (intro exI [of _ "f # fs"] exI [of _ p2]) simp
qed simp

theorem unparse_parse_fields_witness:
  "\<exists>fs p'. get_fields [K16, K8] (NetParser_new (Buffer_new ''wxyz'')) = Inr (fs, p') \<and>
     map kind_of fs = [K16, K8] \<and> put_fields [] fs = ''wxy'' \<and> np_at p' ''z''"
proof -
  have "string_ok ''wxyz''" by (simp add: string_ok_def string_max_size_def)
  from unparse_parse_fields [OF np_at_new [OF this], of "[K16, K8]"] show ?thesis by simp
qed

text \<open>C12. A packet that ends too early is reported and never read past its end: if the next field needs
  more bytes than the buffer holds, the call returns 0, reports \<open>PacketTooShort\<close>, keeps the buffer, and throws nothing;
  and so does every later call: all further fields are 0 and neither they nor \<open>remove_prefix\<close> change the parser
  again, so that \<open>PacketTooShort\<close> is what it reports from then on.\<close>

theorem short_packet_sticky:
  assumes "buf_ok (np_buffer p)" and "length (Buffer_str (np_buffer p)) < kind_width k"
  shows "\<exists>p1. get_field k p = Inr (zero_field k, p1) \<and> NetParser_get_error p1 = PacketTooShort \<and>
           np_buffer p1 = np_buffer p \<and> (\<forall>ks. get_fields ks p1 = Inr (map zero_field ks, p1)) \<and>
           (\<forall>n. NetParser_remove_prefix p1 n = Inr p1)"
proof -
  have st: "np_stuck p (kind_width k)" using assms(2) by (simp add: np_stuck_def)
  have w: "kind_width k < 2 ^ 64" by (cases k) simp_all
  note c = check_size_stuck [OF st assms(1) w]
  let ?p = "NetParser_check_size p (of_nat (kind_width k))"
  have e: "NetParser_get_error ?p = PacketTooShort" using c(3) assms(2) by simp
  have "buf_ok (np_buffer ?p)" using c(2) assms(1) by simp
  from get_fields_too_short [OF e this] remove_prefix_too_short [OF e] get_field_stuck [OF st assms(1)] c(2) e
  show ?thesis by blast
qed

theorem short_packet_sticky_witness:
  "\<exists>p1. get_field K32 (NetParser_new (Buffer_new ''abc'')) = Inr (F32 0, p1) \<and>
     NetParser_get_error p1 = PacketTooShort \<and> get_fields [K8, K16] p1 = Inr ([F8 0, F16 0], p1) \<and>
     Buffer_str (np_buffer p1) = ''abc''"
proof -
  have ok: "np_at (NetParser_new (Buffer_new ''abc'')) ''abc''"
    by (rule np_at_new) (simp add: string_ok_def string_max_size_def)
  then have "buf_ok (np_buffer (NetParser_new (Buffer_new ''abc'')))"
      "Buffer_str (np_buffer (NetParser_new (Buffer_new ''abc''))) = ''abc''"
    by (simp_all add: np_at_def)
  with short_packet_sticky [of "NetParser_new (Buffer_new ''abc'')" K32] show ?thesis
    by (auto dest: spec [of _ "[K8, K16]"])
qed

text \<open>\<open>as_string\<close> names every parse result except \<open>Unsupported\<close>: there the index runs past the end of
  the table of names, which is undefined behaviour.  The names it does give are distinct.\<close>

theorem as_string_unsupported:
  "(as_string r = Inl (Undefined OutOfBounds) \<longleftrightarrow> r = Unsupported) \<and>
   (as_string r = as_string r' \<longleftrightarrow> r = r')"
  by (cases r; cases r') (simp_all add: as_string_def parse_result_names_def)

end
