(* ===== verification/Internet_Checksum.thy ===== *)
theory Internet_Checksum
  imports Net_Parser
begin

unbundle bit_operations_syntax

text \<open>
  \<open>InternetChecksum\<close> of \<open>libsponge/util/util.hh\<close> and \<open>libsponge/util/util.cc\<close>: a 32-bit accumulator to
  which bytes are added as halves of big-endian 16-bit words, and whose carries are folded when the
  value is asked for.  The reference it is compared with is the ones' complement sum on natural
  numbers: arithmetic modulo 65535, with 65535 standing for the residue 0 of a sum that is not 0.
\<close>

section \<open>The class\<close>

record InternetChecksum =
  ic_sum :: uint32_t
  ic_parity :: bool

definition InternetChecksum_new :: "uint32_t \<Rightarrow> InternetChecksum" where
  "InternetChecksum_new initial_sum = \<lparr>ic_sum = initial_sum, ic_parity = False\<rparr>"

definition checksum_add_byte :: "InternetChecksum \<Rightarrow> char \<Rightarrow> InternetChecksum" where
  "checksum_add_byte ck c =
     (let val = (ucast (uint8_of_char c) :: uint16_t);
          val = (if \<not> ic_parity ck then push_bit 8 val else val) in
      ck\<lparr>ic_sum := ic_sum ck + ucast val, ic_parity := \<not> ic_parity ck\<rparr>)"

fun InternetChecksum_add :: "InternetChecksum \<Rightarrow> string \<Rightarrow> InternetChecksum" where
  "InternetChecksum_add ck [] = ck"
| "InternetChecksum_add ck (c # data) = InternetChecksum_add (checksum_add_byte ck c) data"

text \<open>The loop of \<open>value()\<close>; it ends because each round makes \<open>ret\<close> smaller.\<close>

lemma unat_fold_step:
  fixes ret :: uint32_t
  shows "unat (drop_bit 16 ret + (ret AND 0xffff)) = unat ret div 65536 + unat ret mod 65536"
proof -
  have "(0xffff :: uint32_t) = mask 16"
    by (simp add: mask_eq_exp_minus_1)
  then have "ret AND 0xffff = take_bit 16 ret"
    by (simp only: take_bit_eq_mask)
  then have "unat (ret AND 0xffff) = take_bit 16 (unat ret)"
    by (simp only: unsigned_take_bit_eq)
  then have lo: "unat (ret AND 0xffff) = unat ret mod 65536"
    by (simp add: take_bit_eq_mod)
  have hi: "unat (drop_bit 16 ret) = unat ret div 65536"
    by (simp add: drop_bit_eq_div unat_div)
  have "unat ret < 2 ^ 32"
    using unsigned_less [of ret] by simp
  then have "unat ret div 65536 + unat ret mod 65536 < 2 ^ 32"
    using mod_less_divisor [of 65536 "unat ret"] div_le_dividend [of "unat ret" 65536] by linarith
  then show ?thesis
    using lo hi by (simp add: unat_word_ariths)
qed

function fold_carries :: "uint32_t \<Rightarrow> uint32_t" where
  "fold_carries ret =
     (if ret > 0xffff then fold_carries (drop_bit 16 ret + (ret AND 0xffff)) else ret)"
  by auto
termination
proof (relation "measure unat")
  show "wf (measure (unat :: uint32_t \<Rightarrow> nat))" by simp
next
  fix ret :: uint32_t assume "ret > 0xffff"
  then have "65536 \<le> unat ret"
    by (simp add: word_less_nat_alt)
  moreover from this have "0 < unat ret div 65536" by simp
  moreover have "unat ret = 65536 * (unat ret div 65536) + unat ret mod 65536"
    by simp
  ultimately show "(drop_bit 16 ret + (ret AND 0xffff), ret) \<in> measure unat"
    unfolding in_measure unat_fold_step by linarith
qed

declare fold_carries.simps [simp del]

definition InternetChecksum_value :: "InternetChecksum \<Rightarrow> uint16_t" where
  "InternetChecksum_value ck = ucast (NOT (fold_carries (ic_sum ck)))"

section \<open>The reference: ones' complement sums\<close>

fun be_sum :: "bool \<Rightarrow> string \<Rightarrow> nat" where
  "be_sum par [] = 0"
| "be_sum par (c # cs) = (if par then 1 else 256) * of_char c + be_sum (\<not> par) cs"

definition ones_norm :: "nat \<Rightarrow> nat" where
  "ones_norm n = (if n = 0 then 0 else if n mod 65535 = 0 then 65535 else n mod 65535)"

lemma ones_norm_le: "ones_norm n \<le> 65535"
  using mod_less_divisor [of 65535 n] by (auto simp: ones_norm_def simp del: mod_less_divisor)

lemma ones_norm_small: "n \<le> 65535 \<Longrightarrow> ones_norm n = n"
  by (cases "n = 65535") (auto simp: ones_norm_def)

lemma ones_norm_cong: "n mod 65535 = m mod 65535 \<Longrightarrow> (n = 0 \<longleftrightarrow> m = 0) \<Longrightarrow> ones_norm n = ones_norm m"
  by (simp add: ones_norm_def)

lemma ones_norm_fold: "ones_norm (n div 65536 + n mod 65536) = ones_norm n"
proof (rule ones_norm_cong)
  have "n = 65535 * (n div 65536) + (n div 65536 + n mod 65536)"
    using div_mult_mod_eq [of n 65536] by linarith
  then show "(n div 65536 + n mod 65536) mod 65535 = n mod 65535"
    by (metis mod_mult_self4)
  show "n div 65536 + n mod 65536 = 0 \<longleftrightarrow> n = 0"
    using div_mult_mod_eq [of n 65536] by auto
qed

lemma ones_norm_full_iff: "ones_norm n = 65535 \<longleftrightarrow> 0 < n \<and> n mod 65535 = 0"
  using mod_less_divisor [of 65535 n] by (auto simp: ones_norm_def simp del: mod_less_divisor)

lemma be_sum_append:
  "be_sum par (xs @ ys) = be_sum par xs + be_sum (if even (length xs) then par else \<not> par) ys"
  by (induction xs arbitrary: par) auto

lemma be_sum_halves:
  "be_sum False xs \<le> 65280 * ((length xs + 1) div 2) + 255 * (length xs div 2)"
  "be_sum True xs \<le> 255 * ((length xs + 1) div 2) + 65280 * (length xs div 2)"
proof (induction xs)
  case (Cons c cs)
  have c: "(of_char c :: nat) \<le> 255"
    using nat_of_char_less_256 [of c] by linarith
  { case 1 show ?case using Cons.IH(2) c by (simp add: algebra_simps) }
  { case 2 show ?case using Cons.IH(1) c by (simp add: algebra_simps) }
qed simp_all

lemma be_sum_bound: "be_sum par xs \<le> 65535 * ((length xs + 1) div 2)"
proof -
  have "length xs div 2 \<le> (length xs + 1) div 2" by (simp add: div_le_mono)
  then show ?thesis
    using be_sum_halves [of xs] by (cases par; simp only: True_implies_equals HOL.simp_thms; linarith)
qed

lemma be_sum_ones: "be_sum False (replicate (Suc (2 * n)) (CHR 0xff)) = 65535 * n + 65280"
  by (induction n) simp_all

section \<open>The class computes it\<close>

lemma ic_sum_add_byte:
  "ic_sum (checksum_add_byte ck c) = ic_sum ck + of_nat ((if ic_parity ck then 1 else 256) * of_char c)"
proof -
  have n: "(of_char c :: nat) < 256"
    by (rule nat_of_char_less_256)
  have u: "unat (ucast (uint8_of_char c) :: uint16_t) = of_char c"
    using n [THEN less_trans, of 65536]
    by (simp add: unsigned_ucast_eq unat_uint8_of_char take_bit_eq_mod mod_less)
  have "unat (push_bit 8 (ucast (uint8_of_char c) :: uint16_t)) = take_bit 16 (push_bit 8 (of_char c))"
    unfolding unsigned_push_bit_eq u by simp
  also have "\<dots> = 256 * of_char c"
    using n by (simp add: take_bit_nat_eq_self push_bit_eq_mult)
  finally have v: "unat (push_bit 8 (ucast (uint8_of_char c) :: uint16_t)) = 256 * of_char c" .
  have conv: "(ucast w :: uint32_t) = of_nat (unat w)" for w :: uint16_t
    by simp
  have 1: "(ucast (ucast (uint8_of_char c) :: uint16_t) :: uint32_t) = of_nat (of_char c)"
    unfolding conv u ..
  have 2: "(ucast (push_bit 8 (ucast (uint8_of_char c) :: uint16_t)) :: uint32_t) = of_nat (256 * of_char c)"
    unfolding conv v ..
  show ?thesis
    using 1 2 by (simp add: checksum_add_byte_def Let_def)
qed

lemma ic_parity_add_byte [simp]: "ic_parity (checksum_add_byte ck c) = (\<not> ic_parity ck)"
  by (simp add: checksum_add_byte_def Let_def)

lemma ic_add:
  "ic_sum (InternetChecksum_add ck data) = ic_sum ck + of_nat (be_sum (ic_parity ck) data)"
  "ic_parity (InternetChecksum_add ck data) = (if even (length data) then ic_parity ck else \<not> ic_parity ck)"
  by (induction data arbitrary: ck) (simp_all add: ic_sum_add_byte)

lemma add_append: "InternetChecksum_add ck (xs @ ys) = InternetChecksum_add (InternetChecksum_add ck xs) ys"
  by (induction xs arbitrary: ck) simp_all

lemma unat_fold_carries: "unat (fold_carries ret) = ones_norm (unat ret)"
proof (induction ret rule: fold_carries.induct)
  case (1 ret)
  show ?case
  proof (cases "ret > 0xffff")
    case True
    then have "unat (fold_carries ret) = ones_norm (unat (drop_bit 16 ret + (ret AND 0xffff)))"
      using 1 by (subst fold_carries.simps) simp
    then show ?thesis
      by (simp only: unat_fold_step ones_norm_fold)
  next
    case False
    then have "unat ret \<le> 65535"
      by (simp add: word_less_nat_alt not_less)
    with False show ?thesis
      by (subst fold_carries.simps) (simp add: ones_norm_small)
  qed
qed

lemma unat_not_low:
  fixes w :: uint32_t
  assumes "unat w \<le> 65535"
  shows "unat (ucast (NOT w) :: uint16_t) = 65535 - unat w"
proof -
  have "NOT w = - 1 - w"
    by (simp add: not_eq_complement)
  moreover have "w \<le> - 1" "unat (- 1 :: uint32_t) = 2 ^ 32 - 1"
    by (simp_all add: unsigned_minus_1_eq_mask mask_eq_exp_minus_1)
  ultimately have "unat (NOT w) = 2 ^ 32 - 1 - unat w"
    by (simp only: unat_sub)
  also have "\<dots> = 65535 * 65536 + (65535 - unat w)"
    using assms by simp
  finally have "unat (NOT w) mod 65536 = 65535 - unat w"
    by (metis diff_le_self le_imp_less_Suc mod_less mod_mult_self3 numeral_eq_Suc pred_numeral_simps(2)
        semiring_norm(26) semiring_norm(27) semiring_norm(28))
  then show ?thesis
    by (simp add: unsigned_ucast_eq take_bit_eq_mod)
qed

lemma unat_value: "unat (InternetChecksum_value ck) = 65535 - ones_norm (unat (ic_sum ck))"
  unfolding InternetChecksum_value_def
  using unat_not_low [of "fold_carries (ic_sum ck)"] ones_norm_le by (simp add: unat_fold_carries)

lemma unat_value_add:
  assumes "ic_sum ck = 0" and "length data \<le> 131074"
  shows "unat (InternetChecksum_value (InternetChecksum_add ck data)) = 65535 - ones_norm (be_sum (ic_parity ck) data)"
proof -
  have "(length data + 1) div 2 \<le> 65537"
    using assms(2) by linarith
  then have "be_sum (ic_parity ck) data < 4294967296"
    using be_sum_bound [of "ic_parity ck" data] by linarith
  then show ?thesis
    using assms(1) by (simp add: unat_value ic_add unat_of_nat take_bit_nat_eq_self)
qed

lemma new_fields [simp]: "ic_sum (InternetChecksum_new w) = w" "ic_parity (InternetChecksum_new w) = False"
  by (simp_all add: InternetChecksum_new_def)

lemma be_sum_net_bytes: "be_sum False (NetUnparser_u16 [] w) = unat w"
proof -
  have "unat w div 256 < 256"
    using unsigned_less [of w, where 'a = nat] by (simp add: less_mult_imp_div_less)
  then have "unat (net_byte 2 w 0) = unat w div 256"
    by (simp add: net_byte_def unsigned_ucast_eq take_bit_eq_mod drop_bit_eq_div unat_div)
  moreover have "unat (net_byte 2 w 1) = unat w mod 256"
    by (simp add: net_byte_def unsigned_ucast_eq take_bit_eq_mod)
  moreover have "(of_char (char_of_uint8 b) :: nat) = unat b" for b
    by (metis uint8_of_char_of_uint8 unat_uint8_of_char)
  ultimately show ?thesis
    by (simp add: codec_defs net_bytes_def upt_conv_Cons)
qed

lemma value_0_iff:
  assumes "length data \<le> 131074"
  shows "InternetChecksum_value (InternetChecksum_add (InternetChecksum_new 0) data) = 0
     \<longleftrightarrow> 0 < be_sum False data \<and> be_sum False data mod 65535 = 0"
proof -
  have "InternetChecksum_value (InternetChecksum_add (InternetChecksum_new 0) data) = 0
      \<longleftrightarrow> 65535 - ones_norm (be_sum False data) = 0"
    using unat_value_add [of "InternetChecksum_new 0" data] assms by (simp add: unat_eq_0 [symmetric])
  also have "\<dots> \<longleftrightarrow> ones_norm (be_sum False data) = 65535"
    using ones_norm_le [of "be_sum False data"] by linarith
  finally show ?thesis
    by (simp add: ones_norm_full_iff)
qed

lemma fold_bound:
  fixes ret :: uint32_t
  assumes "n = unat ret"
  shows "n div 65536 + n mod 65536 \<le> 131070" "n \<le> 131070 \<Longrightarrow> n div 65536 + n mod 65536 \<le> 65535"
proof -
  have "n < 65536 * 65536" using assms unsigned_less [of ret, where 'a = nat] by simp
  then have "n div 65536 < 65536" by (rule less_mult_imp_div_less)
  moreover have "n mod 65536 < 65536" by simp
  ultimately show "n div 65536 + n mod 65536 \<le> 131070" by linarith
  show "n div 65536 + n mod 65536 \<le> 65535" if "n \<le> 131070"
    using that by (cases "n < 65536") (auto simp: le_div_geq le_mod_geq not_less)
qed

definition fold_round :: "uint32_t \<Rightarrow> uint32_t" where
  "fold_round ret = drop_bit 16 ret + (ret AND 0xffff)"

text \<open>The loop of \<open>value()\<close> makes at most two rounds.\<close>

lemma fold_two_rounds:
  "ret \<le> 0xffff \<and> fold_carries ret = ret \<or>
   fold_round ret \<le> 0xffff \<and> fold_carries ret = fold_round ret \<or>
   fold_round (fold_round ret) \<le> 0xffff \<and> fold_carries ret = fold_round (fold_round ret)"
proof -
  have stop: "fold_carries r = r" if "r \<le> 0xffff" for r
    using that by (subst fold_carries.simps) (auto dest: leD)
  have go: "fold_carries r = fold_carries (fold_round r)" if "\<not> r \<le> 0xffff" for r
    using that by (subst fold_carries.simps) (simp add: not_le fold_round_def)
  have u: "unat (fold_round r) = unat r div 65536 + unat r mod 65536" for r
    unfolding fold_round_def by (rule unat_fold_step)
  have "fold_round (fold_round ret) \<le> 0xffff"
    using fold_bound(1) [of _ ret] fold_bound(2) [of _ "fold_round ret"] by (simp add: word_le_nat_alt u)
  then show ?thesis
    using stop go by metis
qed

section \<open>Properties\<close>

text \<open>C13. \<open>value()\<close> is the Internet checksum of the bytes added: the complement of the ones' complement sum of
  the big-endian 16-bit words, a last odd byte being padded with a zero.  It does not matter how the
  bytes were split over calls of \<open>add\<close>, even at odd positions.  The 32-bit accumulator holds the sum
  without losing a carry up to 131074 bytes, twice the size of the largest IP datagram.\<close>

theorem checksum_value:
  assumes "length (concat chunks) \<le> 131074"
  shows "unat (InternetChecksum_value (foldl InternetChecksum_add (InternetChecksum_new 0) chunks))
    = 65535 - ones_norm (be_sum False (concat chunks))"
proof -
  have "foldl InternetChecksum_add ck chunks = InternetChecksum_add ck (concat chunks)" for ck
    by (induction chunks arbitrary: ck) (simp_all add: add_append)
  then show ?thesis
    using unat_value_add [of "InternetChecksum_new 0" "concat chunks"] assms by simp
qed

theorem checksum_value_witness:
  "unat (InternetChecksum_value (foldl InternetChecksum_add (InternetChecksum_new 0)
     [''E'', [], [CHR 0xff, CHR 0xff], ''<''])) = 47811"
  using checksum_value [of "[''E'', [], [CHR 0xff, CHR 0xff], ''<'']"] by (simp add: ones_norm_def)

text \<open>C14. A packet that carries its own checksum checks to zero: with the checksum field, at an even offset,
  set to zero, compute the checksum of the whole packet, store it in the field in network byte order,
  and the checksum of the result is 0, as the documentation of the class says.\<close>

theorem checksum_inserted_is_zero:
  assumes "even (length pre)" and "length pre + 2 + length post \<le> 131074"
    and "c = InternetChecksum_value (InternetChecksum_add (InternetChecksum_new 0)
       (pre @ [CHR 0x00, CHR 0x00] @ post))"
  shows "InternetChecksum_value (InternetChecksum_add (InternetChecksum_new 0)
    (pre @ NetUnparser_u16 [] c @ post)) = 0"
proof -
  let ?S = "be_sum False pre + be_sum False post"
  have "be_sum False (pre @ [CHR 0x00, CHR 0x00] @ post) = ?S"
    using assms(1) by (simp add: be_sum_append)
  then have c: "unat c = 65535 - ones_norm ?S"
    using unat_value_add [of "InternetChecksum_new 0" "pre @ [CHR 0x00, CHR 0x00] @ post"] assms(2)
    by (simp add: assms(3))
  have u: "be_sum False (pre @ NetUnparser_u16 [] c @ post) = ?S + unat c"
    using assms(1) u16.put_width [of c] by (simp add: be_sum_append be_sum_net_bytes)
  have "0 < ?S + unat c \<and> (?S + unat c) mod 65535 = 0"
  proof (cases "?S mod 65535 = 0")
    case True
    then show ?thesis using c by (auto simp: ones_norm_def)
  next
    case False
    then have "unat c = 65535 - ?S mod 65535" "?S mod 65535 < 65535"
      using c by (auto simp: ones_norm_def)
    then have "?S + unat c = 65535 * (?S div 65535) + 65535"
      using div_mult_mod_eq [of ?S 65535] by linarith
    then show ?thesis by simp
  qed
  moreover have "length (pre @ NetUnparser_u16 [] c @ post) \<le> 131074"
    using assms(2) u16.put_width [of c] by simp
  ultimately show ?thesis
    using u by (simp add: value_0_iff)
qed

theorem checksum_inserted_is_zero_witness:
  "InternetChecksum_value (InternetChecksum_add (InternetChecksum_new 0)
    (''ab'' @ NetUnparser_u16 [] (InternetChecksum_value (InternetChecksum_add (InternetChecksum_new 0)
       (''ab'' @ [CHR 0x00, CHR 0x00] @ ''cde''))) @ ''cde'')) = 0"
  by (rule checksum_inserted_is_zero [OF _ _ refl]) simp_all

text \<open>C15. Every corruption of a single byte is detected: if a packet checks to zero, a packet that differs from
  it in the value of one byte does not.\<close>

theorem checksum_detects_byte_error:
  assumes "length data \<le> 131074" and "i < length data" and "c \<noteq> data ! i"
    and "InternetChecksum_value (InternetChecksum_add (InternetChecksum_new 0) data) = 0"
  shows "InternetChecksum_value (InternetChecksum_add (InternetChecksum_new 0) (data[i := c])) \<noteq> 0"
proof
  assume z: "InternetChecksum_value (InternetChecksum_add (InternetChecksum_new 0) (data[i := c])) = 0"
  define f where "f = (if even i then 256 else 1 :: nat)"
  define r where "r = be_sum False (take i data) + be_sum (even i) (drop (Suc i) data)"
  have split: "be_sum False (take i data @ d # drop (Suc i) data) = r + f * of_char d" for d
    using assms(2) by (simp add: be_sum_append r_def f_def)
  have "be_sum False data = r + f * of_char (data ! i)"
    using split [of "data ! i"] id_take_nth_drop [OF assms(2)] by simp
  moreover have "be_sum False (data[i := c]) = r + f * of_char c"
    using split [of c] assms(2) by (simp add: upd_conv_take_nth_drop)
  ultimately have "(r + f * of_char (data ! i)) mod 65535 = (r + f * of_char c) mod 65535"
    using assms(1,4) z by (simp add: value_0_iff)
  then have "65535 dvd int f * int (of_char (data ! i)) - int f * int (of_char c)"
    by (simp add: zmod_int mod_eq_dvd_iff flip: of_nat_eq_iff [where 'a = int])
  moreover define d where "d = int (of_char (data ! i)) - int (of_char c)"
  ultimately have "65535 dvd int f * d"
    by (simp only: right_diff_distrib)
  moreover have "(of_char (data ! i) :: nat) \<noteq> of_char c"
    using assms(3) by (metis char_of_char)
  then have "d \<noteq> 0" "\<bar>d\<bar> \<le> 255"
    using nat_of_char_less_256 [of c] nat_of_char_less_256 [of "data ! i"] unfolding d_def by linarith+
  then have "int f * d \<noteq> 0" "\<bar>int f * d\<bar> < 65535"
    by (auto simp: f_def)
  ultimately show False
    using dvd_imp_le_int [of "int f * d" 65535] by linarith
qed

theorem checksum_detects_byte_error_witness:
  "InternetChecksum_value (InternetChecksum_add (InternetChecksum_new 0)
     ([CHR 0xff, CHR 0xff, CHR 0x00][2 := ''a'' ! 0])) \<noteq> 0"
proof (rule checksum_detects_byte_error)
  show "InternetChecksum_value (InternetChecksum_add (InternetChecksum_new 0) [CHR 0xff, CHR 0xff, CHR 0x00]) = 0"
    by (rule value_0_iff [THEN iffD2]) simp_all
qed simp_all

text \<open>The limit of 131074 bytes is sharp, and nothing in the code guards it: one byte more, all of them
  0xff, makes the 32-bit accumulator wrap around.  The carry out of it is lost, and \<open>value()\<close> answers
  256 where the Internet checksum of these bytes is 255.\<close>

theorem checksum_wraps:
  "InternetChecksum_value (InternetChecksum_add (InternetChecksum_new 0) (replicate 131075 (CHR 0xff))) = 256
   \<and> 65535 - ones_norm (be_sum False (replicate 131075 (CHR 0xff))) = 255"
proof -
  have s: "be_sum False (replicate 131075 (CHR 0xff)) = 4294967295 + 65280"
    using be_sum_ones [of 65537] by simp
  have "unat (InternetChecksum_value (InternetChecksum_add (InternetChecksum_new 0)
      (replicate 131075 (CHR 0xff)))) = 65535 - ones_norm (unat (of_nat (4294967295 + 65280) :: uint32_t))"
    by (simp only: unat_value ic_add new_fields s add_0)
  also have "\<dots> = unat (256 :: uint16_t)"
    by (simp add: unat_of_nat take_bit_eq_mod ones_norm_small)
  finally show ?thesis
    by (simp add: s ones_norm_def word_unat_eq_iff)
qed

end
