(* ===== verification/Cpp_Text.thy ===== *)
theory Cpp_Text
  imports Sponge_Prelude
begin

text \<open>
  The functions of the C and C++ libraries on text that the sources call: C strings, \<open>resize\<close>,
  \<open>to_string\<close>, \<open>stoi\<close>, and memory that is partly overwritten.
\<close>

section \<open>C strings and buffers\<close>

definition c_str :: "string \<Rightarrow> string" where
  "c_str s = takeWhile (\<lambda>c. c \<noteq> CHR 0x00) s"

definition string_resize :: "string \<Rightarrow> size_t \<Rightarrow> string result" where
  "string_resize s n =
     (if string_max_size < unat n then Inl (length_error ''basic_string::_M_replace_aux'')
      else Inr (take (unat n) s @ replicate (unat n - length s) (CHR 0x00)))"

text \<open>Memory \<open>m\<close> after \<open>data\<close> was stored at its beginning.\<close>

definition overlay :: "string \<Rightarrow> string \<Rightarrow> string" where
  "overlay m data = take (length m) data @ drop (length data) m"

lemma length_overlay [simp]: "length (overlay m data) = length m"
  by (auto simp: overlay_def min_def)

lemma take_overlay: "n \<le> length data \<Longrightarrow> n \<le> length m \<Longrightarrow> take n (overlay m data) = take n data"
  by (simp add: overlay_def)

lemma string_resize_ok [simp]: "unat n \<le> string_max_size \<Longrightarrow>
    string_resize s n = Inr (take (unat n) s @ replicate (unat n - length s) (CHR 0x00))"
  by (simp add: string_resize_def)

section \<open>Decimal numbers\<close>

definition digit_char :: "nat \<Rightarrow> char" where
  "digit_char d = char_of (48 + d)"

fun decimal :: "nat \<Rightarrow> string" where
  "decimal n = (if n < 10 then [digit_char n] else decimal (n div 10) @ [digit_char (n mod 10)])"

declare decimal.simps [simp del]

definition to_string :: "int \<Rightarrow> string" where
  "to_string i = (if i < 0 then ''-'' @ decimal (nat (- i)) else decimal (nat i))"

definition isspace :: "char \<Rightarrow> bool" where
  "isspace c \<longleftrightarrow> c = CHR '' '' \<or> (9 \<le> (of_char c :: nat) \<and> (of_char c :: nat) \<le> 13)"

definition isdigit :: "char \<Rightarrow> bool" where
  "isdigit c \<longleftrightarrow> 48 \<le> (of_char c :: nat) \<and> (of_char c :: nat) \<le> 57"

definition digits_value :: "string \<Rightarrow> nat" where
  "digits_value ds = foldl (\<lambda>v c. 10 * v + (of_char c - 48)) 0 ds"

text \<open>\<open>stoi\<close>: white space, a sign, then as many digits as there are; what follows them is ignored.\<close>

fun parse_sign :: "string \<Rightarrow> bool \<times> string" where
  "parse_sign [] = (False, [])"
| "parse_sign (c # s) =
     (if c = CHR ''-'' then (True, s) else if c = CHR ''+'' then (False, s) else (False, c # s))"

definition stoi :: "string \<Rightarrow> int result" where
  "stoi s =
     (let (neg, rest) = parse_sign (dropWhile isspace s);
          ds = takeWhile isdigit rest;
          v = (if neg then - int (digits_value ds) else int (digits_value ds)) in
      if ds = [] then Inl (invalid_argument ''stoi'')
      else if \<not> int_ok v then Inl (out_of_range ''stoi'')
      else Inr v)"

lemma of_digit_char: "d < 10 \<Longrightarrow> (of_char (digit_char d) :: nat) = 48 + d"
  by (simp add: digit_char_def)

lemma isdigit_digit_char [simp]: "d < 10 \<Longrightarrow> isdigit (digit_char d)"
  by (simp add: isdigit_def of_digit_char)

lemma decimal_digits: "list_all isdigit (decimal n)"
proof (induction n rule: decimal.induct)
  case (1 n)
  then show ?case by (cases "n < 10") (simp_all add: decimal.simps [of n])
qed

lemma decimal_nonempty [simp]: "decimal n \<noteq> []"
  by (simp add: decimal.simps [of n])

lemma digits_value_decimal: "digits_value (decimal n) = n"
proof (induction n rule: decimal.induct)
  case (1 n)
  then show ?case
    by (cases "n < 10") (simp_all add: decimal.simps [of n] digits_value_def of_digit_char)
qed

lemma decimal_inj: "decimal m = decimal n \<longleftrightarrow> m = n"
  by (metis digits_value_decimal)

lemma takeWhile_decimal [simp]: "takeWhile isdigit (decimal n) = decimal n"
  using decimal_digits [of n] by (simp add: list_all_iff)

lemma isdigit_not_sign:
  assumes "isdigit c"
  shows "c \<noteq> CHR ''-''" and "c \<noteq> CHR ''+''" and "\<not> isspace c"
  using assms by (auto simp: isdigit_def isspace_def)

lemma parse_decimal: "parse_sign (dropWhile isspace (decimal n)) = (False, decimal n)"
proof -
  obtain c cs where d: "decimal n = c # cs"
    using decimal_nonempty by (meson list.exhaust)
  then have "isdigit c"
    using decimal_digits [of n] by simp
  with d isdigit_not_sign show ?thesis by simp
qed

lemma not_isspace_minus [simp]: "\<not> isspace CHR ''-''"
  by (simp add: isspace_def)

lemma parse_negative: "parse_sign (dropWhile isspace (CHR ''-'' # decimal n)) = (True, decimal n)"
  by simp

text \<open>Reading back what was printed.\<close>

lemma stoi_to_string: "int_ok i \<Longrightarrow> stoi (to_string i) = Inr i"
  by (cases "i < 0") (simp_all add: stoi_def to_string_def parse_decimal parse_negative digits_value_decimal Let_def)

end
