(* ===== verification/Sponge_System.thy ===== *)
theory Sponge_System
  imports Buffers Cpp_Text
begin

text \<open>
  What lies around the library: the operating system, the C++ streams, and \<open>SystemCall\<close>, the wrapper of
  \<open>libsponge/util/util.cc\<close> through which every system call goes.

  The operating system is not part of the sources.  It is a parameter \<open>K\<close> of type \<open>'k kernel\<close>: one
  function for each system or libc call the sources make, acting on an operating system state of an
  arbitrary type \<open>'k\<close>.  What a theorem needs to know about a call is a hypothesis on \<open>K\<close>.  Numbers of
  the system interface are those of Linux on x86-64.
\<close>

section \<open>Numbers of the system interface\<close>

abbreviation (input) EINTR :: int where "EINTR \<equiv> 4"
abbreviation (input) AF_UNIX :: int where "AF_UNIX \<equiv> 1"
abbreviation (input) AF_INET :: int where "AF_INET \<equiv> 2"
abbreviation (input) SOCK_STREAM :: int where "SOCK_STREAM \<equiv> 1"
abbreviation (input) SOCK_DGRAM :: int where "SOCK_DGRAM \<equiv> 2"
abbreviation (input) SOL_SOCKET :: int where "SOL_SOCKET \<equiv> 1"
abbreviation (input) SO_REUSEADDR :: int where "SO_REUSEADDR \<equiv> 2"
abbreviation (input) SO_TYPE :: int where "SO_TYPE \<equiv> 3"
abbreviation (input) SO_DOMAIN :: int where "SO_DOMAIN \<equiv> 39"
abbreviation (input) O_RDWR :: int where "O_RDWR \<equiv> 2"
abbreviation (input) SHUT_RD :: int where "SHUT_RD \<equiv> 0"
abbreviation (input) SHUT_WR :: int where "SHUT_WR \<equiv> 1"
abbreviation (input) SHUT_RDWR :: int where "SHUT_RDWR \<equiv> 2"
abbreviation (input) MSG_TRUNC :: int where "MSG_TRUNC \<equiv> 32"
abbreviation (input) AI_NUMERICHOST :: int where "AI_NUMERICHOST \<equiv> 4"
abbreviation (input) AI_ALL :: int where "AI_ALL \<equiv> 16"
abbreviation (input) AI_NUMERICSERV :: int where "AI_NUMERICSERV \<equiv> 1024"
abbreviation (input) NI_NUMERICHOST :: int where "NI_NUMERICHOST \<equiv> 1"
abbreviation (input) NI_NUMERICSERV :: int where "NI_NUMERICSERV \<equiv> 2"
abbreviation (input) NI_MAXHOST :: nat where "NI_MAXHOST \<equiv> 1025"
abbreviation (input) NI_MAXSERV :: nat where "NI_MAXSERV \<equiv> 32"
abbreviation (input) TUNSETIFF :: int where "TUNSETIFF \<equiv> 1074025674"
abbreviation (input) IFNAMSIZ :: nat where "IFNAMSIZ \<equiv> 16"

abbreviation (input) POLLIN :: uint16_t where "POLLIN \<equiv> 1"
abbreviation (input) POLLOUT :: uint16_t where "POLLOUT \<equiv> 4"
abbreviation (input) POLLERR :: uint16_t where "POLLERR \<equiv> 8"
abbreviation (input) POLLHUP :: uint16_t where "POLLHUP \<equiv> 16"
abbreviation (input) POLLNVAL :: uint16_t where "POLLNVAL \<equiv> 32"

section \<open>Structures of the system interface\<close>

type_synonym socklen_t = uint32_t

record pollfd =
  pfd_fd :: int
  pfd_events :: uint16_t
  pfd_revents :: uint16_t

record addrinfo =
  ai_flags :: int
  ai_family :: int
  ai_socktype :: int
  ai_protocol :: int
  ai_addrlen :: socklen_t
  ai_addr :: string

record msghdr =
  msg_name :: "string option"
  msg_namelen :: socklen_t
  msg_iov :: "iovec list"
  msg_iovlen :: size_t

record ifreq =
  ifr_name :: string
  ifr_flags :: uint16_t

section \<open>The kernel and the C library\<close>

text \<open>Each call takes the state and returns what it returns in C, the memory it fills in, and the new
  state.  \<open>os_errno\<close> reads \<open>errno\<close>.\<close>

record 'k kernel =
  os_errno :: "'k \<Rightarrow> int"
  os_strerror :: "int \<Rightarrow> string"
  os_gai_strerror :: "int \<Rightarrow> string"
  os_now :: "'k \<Rightarrow> int \<times> 'k"
  os_read :: "int \<Rightarrow> size_t \<Rightarrow> 'k \<Rightarrow> (int \<times> string) \<times> 'k"
  os_writev :: "int \<Rightarrow> iovec list \<Rightarrow> int \<Rightarrow> 'k \<Rightarrow> int \<times> 'k"
  os_close :: "int \<Rightarrow> 'k \<Rightarrow> int \<times> 'k"
  os_fcntl_getfl :: "int \<Rightarrow> 'k \<Rightarrow> int \<times> 'k"
  os_fcntl_setfl :: "int \<Rightarrow> int \<Rightarrow> 'k \<Rightarrow> int \<times> 'k"
  os_poll :: "pollfd list \<Rightarrow> size_t \<Rightarrow> int \<Rightarrow> 'k \<Rightarrow> (int \<times> uint16_t list) \<times> 'k"
  os_socket :: "int \<Rightarrow> int \<Rightarrow> int \<Rightarrow> 'k \<Rightarrow> int \<times> 'k"
  os_getsockopt :: "int \<Rightarrow> int \<Rightarrow> int \<Rightarrow> socklen_t \<Rightarrow> 'k \<Rightarrow> (int \<times> int \<times> socklen_t) \<times> 'k"
  os_setsockopt :: "int \<Rightarrow> int \<Rightarrow> int \<Rightarrow> int \<Rightarrow> socklen_t \<Rightarrow> 'k \<Rightarrow> int \<times> 'k"
  os_getsockname :: "int \<Rightarrow> socklen_t \<Rightarrow> 'k \<Rightarrow> (int \<times> string \<times> socklen_t) \<times> 'k"
  os_getpeername :: "int \<Rightarrow> socklen_t \<Rightarrow> 'k \<Rightarrow> (int \<times> string \<times> socklen_t) \<times> 'k"
  os_bind :: "int \<Rightarrow> string \<Rightarrow> socklen_t \<Rightarrow> 'k \<Rightarrow> int \<times> 'k"
  os_connect :: "int \<Rightarrow> string \<Rightarrow> socklen_t \<Rightarrow> 'k \<Rightarrow> int \<times> 'k"
  os_shutdown :: "int \<Rightarrow> int \<Rightarrow> 'k \<Rightarrow> int \<times> 'k"
  os_recvfrom :: "int \<Rightarrow> size_t \<Rightarrow> int \<Rightarrow> socklen_t \<Rightarrow> 'k \<Rightarrow> (int \<times> string \<times> string \<times> socklen_t) \<times> 'k"
  os_sendmsg :: "int \<Rightarrow> msghdr \<Rightarrow> int \<Rightarrow> 'k \<Rightarrow> int \<times> 'k"
  os_listen :: "int \<Rightarrow> int \<Rightarrow> 'k \<Rightarrow> int \<times> 'k"
  os_accept :: "int \<Rightarrow> 'k \<Rightarrow> int \<times> 'k"
  os_open :: "string \<Rightarrow> int \<Rightarrow> 'k \<Rightarrow> int \<times> 'k"
  os_ioctl :: "int \<Rightarrow> int \<Rightarrow> ifreq \<Rightarrow> 'k \<Rightarrow> int \<times> 'k"
  os_getaddrinfo :: "string \<Rightarrow> string \<Rightarrow> addrinfo \<Rightarrow> 'k \<Rightarrow> (int \<times> addrinfo list) \<times> 'k"
  os_getnameinfo :: "string \<Rightarrow> nat \<Rightarrow> nat \<Rightarrow> int \<Rightarrow> 'k \<Rightarrow> (int \<times> string \<times> string) \<times> 'k"

section \<open>The world of the program\<close>

text \<open>An output stream: the text written to it, whether integers print in hexadecimal, and the character
  that pads to a field width.\<close>

record ostream =
  os_text :: string
  os_hex :: bool
  os_fill :: char

definition ostream_put :: "ostream \<Rightarrow> string \<Rightarrow> ostream" where
  "ostream_put os s = os\<lparr>os_text := os_text os @ s\<rparr>"

text \<open>\<open>FileDescriptor::FDWrapper\<close>, the object that every copy of a \<open>FileDescriptor\<close> shares, with the
  reference count of its \<open>shared_ptr\<close>.  The heap is a list of cells; a cell is \<open>None\<close> once the object is
  destroyed, and an address is never used again.\<close>

record FDWrapper =
  fdw_fd :: int
  fdw_eof :: bool
  fdw_closed :: bool
  fdw_read_count :: uint32_t
  fdw_write_count :: uint32_t

record FDCell =
  cell_refs :: nat
  cell_obj :: FDWrapper

record 'k world =
  w_os :: 'k
  w_heap :: "FDCell option list"
  w_cout :: ostream
  w_cerr :: string
  w_program_start :: "int option"

text \<open>Running a call of the system on the world.\<close>

definition osS :: "('k \<Rightarrow> 'a \<times> 'k) \<Rightarrow> ('k world, 'a) act" where
  "osS f = (\<lambda>w. case f (w_os w) of (x, k) \<Rightarrow> (Inr x, w\<lparr>w_os := k\<rparr>))"

lemma osS_run [simp, act_simps]: "osS f w = (Inr (fst (f (w_os w))), w\<lparr>w_os := snd (f (w_os w))\<rparr>)"
  by (simp add: osS_def split: prod.splits)

section \<open>Error messages and SystemCall\<close>

text \<open>\<open>what()\<close> of an exception: \<open>tagged_error\<close> and \<open>unix_error\<close> say what was attempted and what the
  category says of the error code.\<close>

fun tagged_error_what :: "('k, 'z) kernel_scheme \<Rightarrow> error_category \<Rightarrow> string \<Rightarrow> int \<Rightarrow> string" where
  "tagged_error_what K system_category attempt code = attempt @ '': '' @ os_strerror K code"
| "tagged_error_what K gai_error_category attempt code = attempt @ '': '' @ os_gai_strerror K code"

fun exn_what :: "('k, 'z) kernel_scheme \<Rightarrow> exn \<Rightarrow> string" where
  "exn_what K (out_of_range s) = s"
| "exn_what K (length_error s) = s"
| "exn_what K (invalid_argument s) = s"
| "exn_what K (runtime_error s) = s"
| "exn_what K (tagged_error cat attempt code) = tagged_error_what K cat attempt code"
| "exn_what K (unix_error attempt code) = tagged_error_what K system_category attempt code"
| "exn_what K (Undefined u) = []"

text \<open>\<open>SystemCall\<close>: \<open>return_value\<close> has been converted to \<open>int\<close>, \<open>errno\<close> is read after the call.\<close>

definition SystemCall :: "('k, 'z) kernel_scheme \<Rightarrow> string \<Rightarrow> int \<Rightarrow> int \<Rightarrow> ('k world, int) act" where
  "SystemCall K attempt return_value errno_mask =
     bindS (getS (\<lambda>w. os_errno K (w_os w))) (\<lambda>errno.
       if 0 \<le> return_value \<or> errno = errno_mask then retS return_value
       else throwS (unix_error attempt errno))"

text \<open>A system call and its check, the pattern \<open>SystemCall("name", ::name(...))\<close> of the sources.\<close>

definition syscall :: "('k, 'z) kernel_scheme \<Rightarrow> string \<Rightarrow> ('k \<Rightarrow> int \<times> 'k) \<Rightarrow> ('k world, int) act" where
  "syscall K attempt f = bindS (osS f) (\<lambda>r. SystemCall K attempt (to_int r) 0)"

lemma SystemCall_run: "SystemCall K a r m w =
    (if 0 \<le> r \<or> os_errno K (w_os w) = m then (Inr r, w)
     else (Inl (unix_error a (os_errno K (w_os w))), w))"
  by (simp add: SystemCall_def)

lemma syscall_run: "syscall K a f w =
    SystemCall K a (to_int (fst (f (w_os w)))) 0 (w\<lparr>w_os := snd (f (w_os w))\<rparr>)"
  by (simp add: syscall_def bindS_def)

section \<open>timestamp_ms\<close>

text \<open>The time of the first call is kept in a static variable; the clock counts nanoseconds, and
  \<open>duration_cast\<close> truncates towards zero.\<close>

definition timestamp_ms :: "('k, 'z) kernel_scheme \<Rightarrow> ('k world, size_t) act" where
  "timestamp_ms K =
     seqS (bindS (getS w_program_start) (\<lambda>st.
             whenS (st = None) (bindS (osS (os_now K)) (\<lambda>t. modS (\<lambda>w. w\<lparr>w_program_start := Some t\<rparr>)))))
       (bindS (osS (os_now K)) (\<lambda>now.
        bindS (getS (\<lambda>w. the (w_program_start w))) (\<lambda>start.
          retS (of_int ((now - start) sdiv 1000000)))))"

section \<open>A kernel in which every call fails\<close>

text \<open>The starting point of the concrete kernels in instances: no descriptor can be opened, every call
  returns \<open>-1\<close>, and \<open>errno\<close> is \<open>EBADF\<close>.  An instance overrides the calls it is about.\<close>

definition failing_kernel :: "'k kernel" where
  "failing_kernel = \<lparr>
     os_errno = (\<lambda>k. 9), os_strerror = (\<lambda>e. ''Bad file descriptor''),
     os_gai_strerror = (\<lambda>e. ''Name or service not known''),
     os_now = (\<lambda>k. (0, k)),
     os_read = (\<lambda>fd n k. ((-1, []), k)),
     os_writev = (\<lambda>fd iov n k. (-1, k)),
     os_close = (\<lambda>fd k. (-1, k)),
     os_fcntl_getfl = (\<lambda>fd k. (-1, k)),
     os_fcntl_setfl = (\<lambda>fd flags k. (-1, k)),
     os_poll = (\<lambda>pfds n t k. ((-1, map pfd_revents pfds), k)),
     os_socket = (\<lambda>d t p k. (-1, k)),
     os_getsockopt = (\<lambda>fd l opt len k. ((-1, 0, len), k)),
     os_setsockopt = (\<lambda>fd l opt v len k. (-1, k)),
     os_getsockname = (\<lambda>fd len k. ((-1, [], len), k)),
     os_getpeername = (\<lambda>fd len k. ((-1, [], len), k)),
     os_bind = (\<lambda>fd a len k. (-1, k)),
     os_connect = (\<lambda>fd a len k. (-1, k)),
     os_shutdown = (\<lambda>fd how k. (-1, k)),
     os_recvfrom = (\<lambda>fd n flags len k. ((-1, [], [], len), k)),
     os_sendmsg = (\<lambda>fd m flags k. (-1, k)),
     os_listen = (\<lambda>fd b k. (-1, k)),
     os_accept = (\<lambda>fd k. (-1, k)),
     os_open = (\<lambda>path flags k. (-1, k)),
     os_ioctl = (\<lambda>fd req r k. (-1, k)),
     os_getaddrinfo = (\<lambda>node service hints k. ((-2, []), k)),
     os_getnameinfo = (\<lambda>a hl sl flags k. ((-2, [], []), k))\<rparr>"

definition fresh_world :: "'k \<Rightarrow> 'k world" where
  "fresh_world k = \<lparr>w_os = k, w_heap = [], w_cout = \<lparr>os_text = [], os_hex = False, os_fill = CHR '' ''\<rparr>,
     w_cerr = [], w_program_start = None\<rparr>"

lemma fresh_world_simps [simp]:
  "w_os (fresh_world k) = k" "w_heap (fresh_world k) = []" "w_program_start (fresh_world k) = None"
  "(fresh_world k)\<lparr>w_os := k'\<rparr> = fresh_world k'"
  by (simp_all add: fresh_world_def)

section \<open>Properties\<close>

lemma unat_of_millis:
  assumes "0 \<le> d" and "d < 2 ^ 63"
  shows "unat (of_int (d sdiv 1000000) :: size_t) = nat (d div 1000000)"
proof -
  have e: "d sdiv 1000000 = d div 1000000"
    using assms(1) by (simp add: signed_divide_int_def sgn_if)
  have "0 \<le> d div 1000000" "d div 1000000 < 2 ^ 64"
    using assms by (simp_all add: pos_imp_zdiv_nonneg_iff div_less_iff_less_mult)
  then show ?thesis
    unfolding e using unat_size_of_int [of "d div 1000000"] by (simp add: size_of_int_def)
qed

text \<open>\<open>timestamp_ms\<close> counts from its own first call and not from the start of the program: the first call
  returns the milliseconds between its two readings of the clock, whatever the clock shows, a later
  call those since the first reading, and with a clock that does not go back the values never
  decrease.\<close>

theorem timestamp_from_first_call:
  assumes "w_program_start w = None"
    and "os_now K (w_os w) = (t0, k1)" and "os_now K k1 = (t1, k2)"
    and "w_program_start w2 = Some t0" and "os_now K (w_os w2) = (t2, k3)"
    and "t0 \<le> t1" and "t1 \<le> t2" and "t2 - t0 < 2 ^ 63"
  shows "\<exists>m1 m2. timestamp_ms K w = (Inr m1, w\<lparr>w_os := k2, w_program_start := Some t0\<rparr>) \<and>
    timestamp_ms K w2 = (Inr m2, w2\<lparr>w_os := k3\<rparr>) \<and>
    unat m1 = nat ((t1 - t0) div 1000000) \<and> unat m2 = nat ((t2 - t0) div 1000000) \<and> m1 \<le> m2"
proof -
  have u: "unat (of_int ((t1 - t0) sdiv 1000000) :: size_t) = nat ((t1 - t0) div 1000000)"
    "unat (of_int ((t2 - t0) sdiv 1000000) :: size_t) = nat ((t2 - t0) div 1000000)"
    using assms(6-8) by (simp_all add: unat_of_millis)
  have "nat ((t1 - t0) div 1000000) \<le> nat ((t2 - t0) div 1000000)"
    using assms(7) by (intro nat_mono zdiv_mono1) simp_all
  then have "(of_int ((t1 - t0) sdiv 1000000) :: size_t) \<le> of_int ((t2 - t0) sdiv 1000000)"
    unfolding word_le_nat_alt u .
  with u assms(1-5) show ?thesis
    by (simp add: timestamp_ms_def bindS_run seqS_run whenS_def)
qed

definition counting_clock :: "int kernel" where
  "counting_clock = failing_kernel\<lparr>os_now := (\<lambda>k. (k, k + 1000000))\<rparr>"

theorem timestamp_from_first_call_witness:
  "\<exists>m1 w1 m2 w2. timestamp_ms counting_clock (fresh_world 5000000000) = (Inr m1, w1) \<and>
     timestamp_ms counting_clock w1 = (Inr m2, w2) \<and> unat m1 = 1 \<and> unat m2 = 2"
  using timestamp_from_first_call [of "fresh_world 5000000000" counting_clock 5000000000 5001000000
      5001000000 5002000000
      "(fresh_world 5000000000)\<lparr>w_os := 5002000000, w_program_start := Some 5000000000\<rparr>"
      5002000000 5003000000]
  by (auto simp: counting_clock_def)

end
