(* ===== verification/Hexdump.thy ===== *)
theory Hexdump
  imports Sponge_System
begin

unbundle bit_operations_syntax

text \<open>
  \<open>hexdump\<close> of \<open>libsponge/util/util.cc\<close>: what it writes to \<open>cout\<close>, and what it leaves of the stream's state.  The
  side column is collected in a \<open>stringstream\<close> whose initial text is a blank; its write position is at
  the beginning, so the first character replaces the blank.
\<close>

section \<open>Formatted output\<close>

definition hex_char :: "nat \<Rightarrow> char" where
  "hex_char d = char_of (if d < 10 then 48 + d else 87 + d)"

fun hexadecimal :: "nat \<Rightarrow> string" where
  "hexadecimal n = (if n < 16 then [hex_char n] else hexadecimal (n div 16) @ [hex_char (n mod 16)])"

declare hexadecimal.simps [simp del]

text \<open>\<open>cout << setw(width) << n\<close> for an \<open>int\<close> that is not negative.\<close>

definition padded :: "char \<Rightarrow> nat \<Rightarrow> string \<Rightarrow> string" where
  "padded fill width s = replicate (width - length s) fill @ s"

definition ostream_put_int :: "ostream \<Rightarrow> nat \<Rightarrow> int \<Rightarrow> ostream" where
  "ostream_put_int os width n =
     ostream_put os (padded (os_fill os) width (if os_hex os then hexadecimal (nat n) else to_string n))"

text \<open>A \<open>stringstream\<close>: its buffer and its write position.\<close>

record stringstream =
  ss_buf :: string
  ss_pos :: nat

definition ss_str :: "string \<Rightarrow> stringstream" where
  "ss_str s = \<lparr>ss_buf = s, ss_pos = 0\<rparr>"

definition ss_put :: "stringstream \<Rightarrow> char \<Rightarrow> stringstream" where
  "ss_put ss c = \<lparr>ss_buf = (if ss_pos ss < length (ss_buf ss) then (ss_buf ss)[ss_pos ss := c] else ss_buf ss @ [c]),
     ss_pos = Suc (ss_pos ss)\<rparr>"

definition isprint :: "char \<Rightarrow> bool" where
  "isprint c \<longleftrightarrow> 32 \<le> (of_char c :: nat) \<and> (of_char c :: nat) \<le> 126"

section \<open>hexdump\<close>

definition newline :: char where
  "newline = CHR 0x0A"

text \<open>What precedes byte number \<open>printed\<close>: the end of the row before and the start of a new row, or a blank
  between pairs of bytes.\<close>

definition hexdump_lead :: "string \<Rightarrow> ostream \<Rightarrow> int \<Rightarrow> stringstream \<Rightarrow> ostream \<times> stringstream" where
  "hexdump_lead indent_string cout printed pchars =
     (if printed AND 0xf = 0 then
        let (cout, pchars) =
          (if printed \<noteq> 0 then (ostream_put cout (''    '' @ ss_buf pchars @ [newline]), ss_str '' '')
           else (cout, pchars)) in
        (ostream_put (ostream_put_int (ostream_put cout indent_string) 8 printed) '':    '', pchars)
      else if printed AND 1 = 0 then (ostream_put cout '' '', pchars)
      else (cout, pchars))"

fun hexdump_loop ::
  "string \<Rightarrow> string \<Rightarrow> ostream \<Rightarrow> int \<Rightarrow> stringstream \<Rightarrow> (ostream \<times> int \<times> stringstream) result" where
  "hexdump_loop indent_string [] cout printed pchars = Inr (cout, printed, pchars)"
| "hexdump_loop indent_string (c # data) cout printed pchars =
     (let (cout, pchars) = hexdump_lead indent_string cout printed pchars;
          cout = ostream_put_int cout 2 (int (of_char c));
          pchars = ss_put pchars (if isprint c then c else CHR ''.'') in
      bindR (int_add printed 1) (\<lambda>printed. hexdump_loop indent_string data cout printed pchars))"

text \<open>\<open>hexdump(data, len, indent)\<close>: \<open>data\<close> is the \<open>len\<close> bytes.  The flags are restored at the end.\<close>

definition hexdump :: "string \<Rightarrow> size_t \<Rightarrow> ostream \<Rightarrow> ostream result" where
  "hexdump data indent cout =
     bindR (string_fill indent (CHR '' '')) (\<lambda>indent_string.
     bindR (hexdump_loop indent_string data (cout\<lparr>os_hex := True, os_fill := CHR ''0''\<rparr>) 0 (ss_str '' ''))
       (\<lambda>(cout', printed, pchars).
       let print_rem = (16 - (printed AND 0xf)) mod 16;
           cout' = ostream_put cout' (replicate (nat (2 * print_rem + print_rem div 2 + 4)) (CHR '' '') @ ss_buf pchars);
           cout' = ostream_put (ostream_put cout' [newline]) [newline] in
       Inr (cout'\<lparr>os_hex := os_hex cout\<rparr>)))"

definition hexdump_chars :: "string \<Rightarrow> size_t \<Rightarrow> ostream \<Rightarrow> ostream result" where
  "hexdump_chars data indent cout = hexdump data indent cout"

section \<open>The layout\<close>

text \<open>The bytes of a row from position \<open>i\<close> on, and a row: at most 16 bytes, their offset in front and their
  characters behind, the last row filled up with blanks.\<close>

fun hex_columns :: "nat \<Rightarrow> string \<Rightarrow> string" where
  "hex_columns i [] = []"
| "hex_columns i (c # cs) =
     (if even i \<and> i \<noteq> 0 then '' '' else []) @ padded (CHR ''0'') 2 (hexadecimal (of_char c)) @ hex_columns (Suc i) cs"

definition shown_char :: "char \<Rightarrow> char" where
  "shown_char c = (if isprint c then c else CHR ''.'')"

definition row_head :: "string \<Rightarrow> nat \<Rightarrow> string \<Rightarrow> string" where
  "row_head ind off cs = ind @ padded (CHR ''0'') 8 (hexadecimal off) @ '':    '' @ hex_columns 0 cs"

function dump_rows :: "string \<Rightarrow> nat \<Rightarrow> string \<Rightarrow> string" where
  "dump_rows ind off data =
     (if length data \<le> 16 then
        (if data = [] then [] else row_head ind off data) @
        (let r = (16 - length data mod 16) mod 16 in
         replicate (2 * r + r div 2 + 4) (CHR '' '')) @ (if data = [] then '' '' else map shown_char data)
      else row_head ind off (take 16 data) @ ''    '' @ map shown_char (take 16 data) @ [newline] @
        dump_rows ind (off + 16) (drop 16 data))"
  by auto
termination by (relation "measure (\<lambda>(ind, off, data). length data)") auto

declare dump_rows.simps [simp del]

text \<open>Bit operations on the counter.\<close>

lemma and_15: "(int n AND 15) = int (n mod 16)"
proof -
  have "(15 :: int) = mask 4" by (simp add: mask_eq_exp_minus_1)
  then have "int n AND 15 = take_bit 4 (int n)" by (simp only: take_bit_eq_mask)
  then show ?thesis by (simp add: take_bit_eq_mod zmod_int)
qed

lemma and_1: "(int n AND 1) = int (n mod 2)"
  by (simp add: and_one_eq zmod_int)

abbreviation (input) dumping :: "ostream \<Rightarrow> bool" where
  "dumping os \<equiv> os_hex os \<and> os_fill os = CHR ''0''"

lemma ostream_put_simps [simp]:
  "os_hex (ostream_put os s) = os_hex os" "os_fill (ostream_put os s) = os_fill os"
  "ostream_put (ostream_put os s) t = ostream_put os (s @ t)" "ostream_put os [] = os"
  "os_text (ostream_put os s) = os_text os @ s"
  by (simp_all add: ostream_put_def)

lemma put_int_dumping: "dumping os \<Longrightarrow> ostream_put_int os w (int n) = ostream_put os (padded (CHR ''0'') w (hexadecimal n))"
  by (simp add: ostream_put_int_def)

lemma ss_put_end: "ss_put \<lparr>ss_buf = b, ss_pos = length b\<rparr> c = \<lparr>ss_buf = b @ [c], ss_pos = length (b @ [c])\<rparr>"
  by (simp add: ss_put_def)

text \<open>Within a row.\<close>

lemma loop_in_row:
  assumes "0 < i" and "i + length cs \<le> 16" and "16 dvd off" and "off + i + length (cs @ rest) < 2 ^ 31"
    and "dumping os" and "length b = i"
  shows "hexdump_loop ind (cs @ rest) os (int (off + i)) \<lparr>ss_buf = b, ss_pos = i\<rparr> =
    hexdump_loop ind rest (ostream_put os (hex_columns i cs)) (int (off + i + length cs))
      \<lparr>ss_buf = b @ map shown_char cs, ss_pos = i + length cs\<rparr>"
  using assms
proof (induction cs arbitrary: i os b)
  case (Cons c cs)
  have m: "(off + i) mod 16 = i" "even (off + i) \<longleftrightarrow> even i"
    using Cons.prems(1-3) by auto
  have lead: "hexdump_lead ind os (int (off + i)) pc = (if even i then ostream_put os '' '' else os, pc)" for pc
    unfolding hexdump_lead_def and_15 and_1 using m Cons.prems(1)
    by (auto simp: even_iff_mod_2_eq_zero)
  have "int (off + i + 1) < 2 ^ 31"
    using Cons.prems(4) by (simp add: of_nat_less_iff [where 'a = int, symmetric] del: of_nat_less_iff)
  then have add: "int_add (int (off + i)) 1 = Inr (int (off + Suc i))"
    by (simp add: int_add_ok int_ok_def)
  let ?os = "ostream_put os ((if even i then '' '' else []) @ padded (CHR ''0'') 2 (hexadecimal (of_char c)))"
  have "hexdump_loop ind ((c # cs) @ rest) os (int (off + i)) \<lparr>ss_buf = b, ss_pos = i\<rparr> =
      hexdump_loop ind (cs @ rest) ?os (int (off + Suc i)) \<lparr>ss_buf = b @ [shown_char c], ss_pos = Suc i\<rparr>"
    using lead add Cons.prems(5,6)
    by (simp add: put_int_dumping shown_char_def ss_put_def)
  also have "\<dots> = hexdump_loop ind rest (ostream_put ?os (hex_columns (Suc i) cs)) (int (off + Suc i + length cs))
      \<lparr>ss_buf = (b @ [shown_char c]) @ map shown_char cs, ss_pos = Suc i + length cs\<rparr>"
    using Cons.prems by (intro Cons.IH) simp_all
  finally show ?case
    using Cons.prems(1) by (simp add: add.assoc)
qed simp

text \<open>A whole row, and the end of the row before it.\<close>

definition row_lead :: "nat \<Rightarrow> stringstream \<Rightarrow> string" where
  "row_lead off pc = (if off = 0 then [] else ''    '' @ ss_buf pc @ [newline])"

lemma loop_row:
  assumes "cs \<noteq> []" and "length cs \<le> 16" and "16 dvd off" and "off + length (cs @ rest) < 2 ^ 31"
    and "dumping os" and "off = 0 \<Longrightarrow> pc = ss_str '' ''"
  shows "hexdump_loop ind (cs @ rest) os (int off) pc =
    hexdump_loop ind rest (ostream_put os (row_lead off pc @ row_head ind off cs)) (int (off + length cs))
      \<lparr>ss_buf = map shown_char cs, ss_pos = length cs\<rparr>"
proof -
  obtain c cs' where cs: "cs = c # cs'" using assms(1) by (cases cs) auto
  have m: "int off AND 15 = 0"
    unfolding and_15 using assms(3) by (simp add: dvd_imp_mod_0)
  have lead: "hexdump_lead ind os (int off) pc =
      (ostream_put os (row_lead off pc @ ind @ padded (CHR ''0'') 8 (hexadecimal off) @ '':    ''), ss_str '' '')"
    using m assms(5,6) put_int_dumping [of "ostream_put os ind" 8 0]
    by (simp add: hexdump_lead_def row_lead_def put_int_dumping)
  have "int (off + 1) < 2 ^ 31"
    using assms(4) unfolding cs by simp
  then have add: "int_add (int off) 1 = Inr (int (off + 1))"
    by (simp add: int_add_ok int_ok_def)
  let ?os = "ostream_put os (row_lead off pc @ ind @ padded (CHR ''0'') 8 (hexadecimal off) @ '':    '' @
    padded (CHR ''0'') 2 (hexadecimal (of_char c)))"
  have "hexdump_loop ind (cs @ rest) os (int off) pc =
      hexdump_loop ind (cs' @ rest) ?os (int (off + 1)) \<lparr>ss_buf = [shown_char c], ss_pos = 1\<rparr>"
    using lead add assms(5) by (simp add: cs put_int_dumping shown_char_def ss_put_def ss_str_def)
  also have "\<dots> = hexdump_loop ind rest (ostream_put ?os (hex_columns 1 cs')) (int (off + 1 + length cs'))
      \<lparr>ss_buf = [shown_char c] @ map shown_char cs', ss_pos = 1 + length cs'\<rparr>"
    using assms(2-5) cs by (intro loop_in_row) simp_all
  finally show ?thesis
    by (simp add: cs row_head_def)
qed

definition row_rest :: "nat \<Rightarrow> nat" where
  "row_rest n = (16 - n mod 16) mod 16"

lemma dump_rows_last: "data \<noteq> [] \<Longrightarrow> length data \<le> 16 \<Longrightarrow> dump_rows ind off data =
    row_head ind off data @ replicate (2 * row_rest (length data) + row_rest (length data) div 2 + 4) (CHR '' '') @
    map shown_char data"
  by (simp add: dump_rows.simps [of ind off data] row_rest_def Let_def)

lemma loop_dump:
  assumes "data \<noteq> []" and "16 dvd off" and "off + length data < 2 ^ 31" and "dumping os"
    and "off = 0 \<Longrightarrow> pc = ss_str '' ''"
  shows "\<exists>os' b. hexdump_loop ind data os (int off) pc = Inr (os', int (off + length data), b) \<and>
    ostream_put os' (replicate (2 * row_rest (length data) + row_rest (length data) div 2 + 4) (CHR '' '') @ ss_buf b) =
    ostream_put os (row_lead off pc @ dump_rows ind off data)"
  using assms
proof (induction ind off data arbitrary: os pc rule: dump_rows.induct)
  case (1 ind off data)
  show ?case
  proof (cases "length data \<le> 16")
    case True
    then show ?thesis
      using loop_row [of data off "[]" os pc ind] "1.prems" by (simp add: dump_rows_last)
  next
    case False
    let ?row = "take 16 data" and ?rest = "drop 16 data"
    let ?pc = "\<lparr>ss_buf = map shown_char ?row, ss_pos = length ?row\<rparr>"
    let ?os = "ostream_put os (row_lead off pc @ row_head ind off ?row)"
    have len: "length ?row = 16" "?rest \<noteq> []" "?row \<noteq> []" "length data = 16 + length ?rest"
      using False by auto
    have row: "hexdump_loop ind data os (int off) pc = hexdump_loop ind ?rest ?os (int (off + 16)) ?pc"
      using loop_row [OF len(3) _ "1.prems"(2) _ "1.prems"(4), of ?rest pc ind] "1.prems"(3,5) len(1)
      by (simp only: append_take_drop_id order_refl)
    have lt: "off + 16 + length ?rest < 2 ^ 31" and os: "dumping ?os"
      using "1.prems"(3,4) len(4) by (simp_all only: add.assoc ostream_put_simps)
    obtain os' b where ih: "hexdump_loop ind ?rest ?os (int (off + 16)) ?pc = Inr (os', int (off + 16 + length ?rest), b)"
      "ostream_put os' (replicate (2 * row_rest (length ?rest) + row_rest (length ?rest) div 2 + 4) (CHR '' '') @ ss_buf b) =
       ostream_put ?os (row_lead (off + 16) ?pc @ dump_rows ind (off + 16) ?rest)"
      using "1.IH" [OF False len(2) dvd_add [OF "1.prems"(2) dvd_refl] lt os, of ?pc] by fastforce
    have r: "row_rest (length data) = row_rest (length ?rest)"
      unfolding len(4) row_rest_def by simp
    have "row_lead off pc @ dump_rows ind off data =
        (row_lead off pc @ row_head ind off ?row) @ row_lead (off + 16) ?pc @ dump_rows ind (off + 16) ?rest"
      using False by (simp add: dump_rows.simps [of ind off data] row_lead_def)
    then have "ostream_put os' (replicate (2 * row_rest (length data) + row_rest (length data) div 2 + 4) (CHR '' '') @ ss_buf b) =
        ostream_put os (row_lead off pc @ dump_rows ind off data)"
      unfolding r ih(2) by simp
    moreover have "hexdump_loop ind data os (int off) pc = Inr (os', int (off + length data), b)"
      unfolding row ih(1) len(4) by (simp add: add.assoc)
    ultimately show ?thesis by blast
  qed
qed

lemma print_rem: "- (int n AND 15) mod 16 = int (row_rest n)"
proof -
  have "n mod 16 \<le> 16" by simp
  then have "int (16 - n mod 16) = 16 - int (n mod 16)" by linarith
  then have "(16 - (int n AND 15)) mod 16 = int (row_rest n)"
    unfolding and_15 row_rest_def by (metis of_nat_mod of_nat_numeral)
  then show ?thesis by simp
qed

section \<open>Properties\<close>

text \<open>C35. \<open>hexdump\<close> prints the bytes in rows of 16: each row starts with its offset in eight hexadecimal digits, shows
  the bytes as pairs of digits grouped two by two, and ends with the characters, a full stop for what
  cannot be printed; the last row is padded so that its characters line up, and an empty line follows.
  The number base of the stream is as it was before, but its fill character stays \<open>'0'\<close>.\<close>

theorem hexdump_layout:
  assumes "length data < 2 ^ 31" and "unat indent \<le> string_max_size"
  shows "hexdump data indent cout =
    Inr \<lparr>os_text = os_text cout @ dump_rows (replicate (unat indent) (CHR '' '')) 0 data @ [newline, newline],
      os_hex = os_hex cout, os_fill = CHR ''0''\<rparr>"
proof -
  let ?ind = "replicate (unat indent) (CHR '' '')" and ?os = "cout\<lparr>os_hex := True, os_fill := CHR ''0''\<rparr>"
  have ind: "string_fill indent (CHR '' '') = Inr ?ind"
    using assms(2) by (simp add: string_fill_def)
  let ?tail = "\<lambda>n b. replicate (2 * row_rest n + row_rest n div 2 + 4) (CHR '' '') @ ss_buf b"
  have "\<exists>os' b. hexdump_loop ?ind data ?os 0 (ss_str '' '') = Inr (os', int (length data), b) \<and>
      ostream_put os' (?tail (length data) b) = ostream_put ?os (dump_rows ?ind 0 data)"
  proof (cases "data = []")
    case True
    then show ?thesis by (simp add: dump_rows.simps [of _ 0 "[]"] ss_str_def row_rest_def)
  next
    case False
    with loop_dump [of data 0 ?os "ss_str '' ''" ?ind] assms(1) show ?thesis
      by (simp add: row_lead_def)
  qed
  then obtain os' b where loop: "hexdump_loop ?ind data ?os 0 (ss_str '' '') = Inr (os', int (length data), b)"
    "ostream_put os' (?tail (length data) b) = ostream_put ?os (dump_rows ?ind 0 data)" by blast
  have n: "nat (2 * int (row_rest (length data)) + int (row_rest (length data)) div 2 + 4) =
      2 * row_rest (length data) + row_rest (length data) div 2 + 4"
    by (simp add: nat_add_distrib nat_mult_distrib nat_div_distrib)
  have "hexdump data indent cout =
      Inr ((ostream_put (ostream_put os' (?tail (length data) b)) [newline, newline])\<lparr>os_hex := os_hex cout\<rparr>)"
    using ind loop(1) by (simp add: hexdump_def print_rem n Let_def)
  also have "\<dots> = Inr ((ostream_put ?os (dump_rows ?ind 0 data @ [newline, newline]))\<lparr>os_hex := os_hex cout\<rparr>)"
    unfolding loop(2) by simp
  finally show ?thesis
    by (simp add: ostream_put_def)
qed

theorem hexdump_layout_witness:
  "hexdump ''Hi!'' 2 \<lparr>os_text = [], os_hex = False, os_fill = CHR '' ''\<rparr> =
     Inr \<lparr>os_text = ''  00000000:    4869 21'' @ replicate (36 :: nat) (CHR '' '') @ ''Hi!'' @ [newline, newline],
       os_hex = False, os_fill = CHR ''0''\<rparr>"
proof -
  have "dump_rows (replicate 2 (CHR '' '')) 0 ''Hi!'' = ''  00000000:    4869 21'' @ replicate (36 :: nat) (CHR '' '') @ ''Hi!''"
    by code_simp
  then show ?thesis
    using hexdump_layout [of "''Hi!''" 2 "\<lparr>os_text = [], os_hex = False, os_fill = CHR '' ''\<rparr>"]
    by (simp add: string_max_size_def)
qed

end
