(* ===== verification/File_Descriptor.thy ===== *)
theory File_Descriptor
  imports Sponge_System "HOL-Library.Sublist"
begin

unbundle bit_operations_syntax

text \<open>
  \<open>FileDescriptor\<close> of \<open>libsponge/util/file_descriptor.hh\<close> and \<open>libsponge/util/file_descriptor.cc\<close>.  A
  \<open>FileDescriptor\<close> holds a \<open>shared_ptr\<close> to an \<open>FDWrapper\<close>: here the address of a heap cell that counts its
  owners, so that two descriptors alias exactly when their addresses are equal.  Copies, moves and
  destruction follow the \<open>shared_ptr\<close>: \<open>duplicate\<close> adds an owner, the destructor removes one, and the
  wrapper is destroyed with the last.
\<close>

section \<open>The heap of FDWrapper objects\<close>

type_synonym FileDescriptor = nat

definition cell_at :: "'k world \<Rightarrow> FileDescriptor \<Rightarrow> FDCell option" where
  "cell_at w f = (if f < length (w_heap w) then w_heap w ! f else None)"

definition set_cell :: "FileDescriptor \<Rightarrow> FDCell option \<Rightarrow> 'k world \<Rightarrow> 'k world" where
  "set_cell f c w = w\<lparr>w_heap := (w_heap w)[f := c]\<rparr>"

text \<open>\<open>_internal_fd->...\<close>: reading and changing the object; a destroyed one may not be touched.\<close>

definition fd_get :: "FileDescriptor \<Rightarrow> (FDWrapper \<Rightarrow> 'a) \<Rightarrow> ('k world, 'a) act" where
  "fd_get f g = (\<lambda>w. case cell_at w f of
      None \<Rightarrow> (Inl (Undefined DanglingPointer), w)
    | Some c \<Rightarrow> (Inr (g (cell_obj c)), w))"

definition fd_mod :: "FileDescriptor \<Rightarrow> (FDWrapper \<Rightarrow> FDWrapper) \<Rightarrow> ('k world, unit) act" where
  "fd_mod f g = (\<lambda>w. case cell_at w f of
      None \<Rightarrow> (Inl (Undefined DanglingPointer), w)
    | Some c \<Rightarrow> (Inr (), set_cell f (Some (c\<lparr>cell_obj := g (cell_obj c)\<rparr>)) w))"

section \<open>FDWrapper\<close>

definition FDWrapper_new :: "int \<Rightarrow> FDWrapper result" where
  "FDWrapper_new fd =
     (if fd < 0 then Inl (runtime_error (''invalid fd number:'' @ to_string fd))
      else Inr \<lparr>fdw_fd = fd, fdw_eof = False, fdw_closed = False, fdw_read_count = 0, fdw_write_count = 0\<rparr>)"

definition FDWrapper_close :: "('k, 'z) kernel_scheme \<Rightarrow> FileDescriptor \<Rightarrow> ('k world, unit) act" where
  "FDWrapper_close K f =
     bindS (fd_get f fdw_fd) (\<lambda>fd.
     seqS (syscall K ''close'' (os_close K fd))
       (fd_mod f (\<lambda>x. x\<lparr>fdw_eof := True, fdw_closed := True\<rparr>)))"

text \<open>The destructor reports an exception on \<open>cerr\<close> instead of throwing it.\<close>

definition FDWrapper_destroy :: "('k, 'z) kernel_scheme \<Rightarrow> FileDescriptor \<Rightarrow> ('k world, unit) act" where
  "FDWrapper_destroy K f =
     catchS
       (bindS (fd_get f fdw_closed) (\<lambda>closed. if closed then retS () else FDWrapper_close K f))
       (\<lambda>e. modS (\<lambda>w. w\<lparr>w_cerr := w_cerr w @ ''Exception destructing FDWrapper: '' @ exn_what K e @ [CHR 0x0A]\<rparr>))"

section \<open>FileDescriptor\<close>

definition FileDescriptor_new :: "int \<Rightarrow> ('k world, FileDescriptor) act" where
  "FileDescriptor_new fd =
     bindS (liftS (FDWrapper_new fd)) (\<lambda>obj.
     bindS (getS (\<lambda>w. length (w_heap w))) (\<lambda>f.
     seqS (modS (\<lambda>w. w\<lparr>w_heap := w_heap w @ [Some \<lparr>cell_refs = 1, cell_obj = obj\<rparr>]\<rparr>))
       (retS f)))"

definition FileDescriptor_duplicate :: "FileDescriptor \<Rightarrow> ('k world, FileDescriptor) act" where
  "FileDescriptor_duplicate f = (\<lambda>w. case cell_at w f of
      None \<Rightarrow> (Inl (Undefined DanglingPointer), w)
    | Some c \<Rightarrow> (Inr f, set_cell f (Some (c\<lparr>cell_refs := Suc (cell_refs c)\<rparr>)) w))"

text \<open>\<open>~FileDescriptor()\<close>: the \<open>shared_ptr\<close> lets go, and the last owner destroys the wrapper.\<close>

definition FileDescriptor_destroy :: "('k, 'z) kernel_scheme \<Rightarrow> FileDescriptor \<Rightarrow> ('k world, unit) act" where
  "FileDescriptor_destroy K f = (\<lambda>w. case cell_at w f of
      None \<Rightarrow> (Inl (Undefined DanglingPointer), w)
    | Some c \<Rightarrow>
        if cell_refs c > 1 then (Inr (), set_cell f (Some (c\<lparr>cell_refs := cell_refs c - 1\<rparr>)) w)
        else seqS (FDWrapper_destroy K f) (modS (set_cell f None)) w)"

definition register_read :: "FileDescriptor \<Rightarrow> ('k world, unit) act" where
  "register_read f = fd_mod f (\<lambda>x. x\<lparr>fdw_read_count := fdw_read_count x + 1\<rparr>)"

definition register_write :: "FileDescriptor \<Rightarrow> ('k world, unit) act" where
  "register_write f = fd_mod f (\<lambda>x. x\<lparr>fdw_write_count := fdw_write_count x + 1\<rparr>)"

definition FileDescriptor_close :: "('k, 'z) kernel_scheme \<Rightarrow> FileDescriptor \<Rightarrow> ('k world, unit) act" where
  "FileDescriptor_close K f = FDWrapper_close K f"

definition FileDescriptor_fd_num :: "FileDescriptor \<Rightarrow> ('k world, int) act" where
  "FileDescriptor_fd_num f = fd_get f fdw_fd"

definition FileDescriptor_eof :: "FileDescriptor \<Rightarrow> ('k world, bool) act" where
  "FileDescriptor_eof f = fd_get f fdw_eof"

definition FileDescriptor_closed :: "FileDescriptor \<Rightarrow> ('k world, bool) act" where
  "FileDescriptor_closed f = fd_get f fdw_closed"

definition FileDescriptor_read_count :: "FileDescriptor \<Rightarrow> ('k world, uint32_t) act" where
  "FileDescriptor_read_count f = fd_get f fdw_read_count"

definition FileDescriptor_write_count :: "FileDescriptor \<Rightarrow> ('k world, uint32_t) act" where
  "FileDescriptor_write_count f = fd_get f fdw_write_count"

section \<open>Reading\<close>

definition read_buffer_size :: size_t where
  "read_buffer_size = 1024 * 1024"

text \<open>\<open>SystemCall("read", ::read(...))\<close> with the memory the kernel filled in.\<close>

definition sys_read :: "('k, 'z) kernel_scheme \<Rightarrow> int \<Rightarrow> size_t \<Rightarrow> ('k world, int \<times> string) act" where
  "sys_read K fd n =
     bindS (osS (os_read K fd n)) (\<lambda>(r, data).
     bindS (SystemCall K ''read'' (to_int r) 0) (\<lambda>r'. retS (r', data)))"

definition FileDescriptor_read_into ::
  "('k, 'z) kernel_scheme \<Rightarrow> FileDescriptor \<Rightarrow> string \<Rightarrow> size_t \<Rightarrow> ('k world, string) act" where
  "FileDescriptor_read_into K f str limit =
     (let size_to_read = min read_buffer_size limit in
      bindS (liftS (string_resize str size_to_read)) (\<lambda>str.
      bindS (FileDescriptor_fd_num f) (\<lambda>fd.
      bindS (sys_read K fd size_to_read) (\<lambda>(bytes_read, data).
      seqS (whenS (limit > 0 \<and> bytes_read = 0) (fd_mod f (\<lambda>x. x\<lparr>fdw_eof := True\<rparr>)))
        (if bytes_read > sint size_to_read then throwS (runtime_error ''read() read more than requested'')
         else
           bindS (liftS (string_resize (overlay str data) (of_int bytes_read))) (\<lambda>str.
           seqS (register_read f) (retS str)))))))"

definition FileDescriptor_read :: "('k, 'z) kernel_scheme \<Rightarrow> FileDescriptor \<Rightarrow> size_t \<Rightarrow> ('k world, string) act" where
  "FileDescriptor_read K f limit = FileDescriptor_read_into K f [] limit"

section \<open>Writing\<close>

text \<open>One round of the \<open>do ... while\<close> loop: it returns the bytes written and what is left of the buffer.\<close>

definition write_once ::
  "('k, 'z) kernel_scheme \<Rightarrow> FileDescriptor \<Rightarrow> BufferViewList \<Rightarrow> ('k world, size_t \<times> BufferViewList) act" where
  "write_once K f buffer =
     (let iovecs = BufferViewList_as_iovecs buffer in
      bindS (FileDescriptor_fd_num f) (\<lambda>fd.
      bindS (syscall K ''writev'' (os_writev K fd iovecs (int_of_size (of_nat (length iovecs))))) (\<lambda>bytes_written.
      if bytes_written = 0 \<and> BufferViewList_size buffer \<noteq> 0 then
        throwS (runtime_error ''write returned 0 given non-empty input buffer'')
      else if bytes_written > sint (BufferViewList_size buffer) then
        throwS (runtime_error ''write wrote more than length of input buffer'')
      else
        seqS (register_write f)
          (case BufferViewList_remove_prefix buffer (of_int bytes_written) of
             (Inl e, _) \<Rightarrow> throwS e
           | (Inr _, buffer') \<Rightarrow> retS (of_int bytes_written, buffer')))))"

text \<open>Every round makes the buffer shorter or leaves the loop.\<close>

lemma remove_prefix_shorter:
  assumes "BufferViewList_remove_prefix vs n = (Inr (), vs')" and "n \<noteq> 0"
  shows "length (concat vs') < length (concat vs)"
  using assms
proof (induction vs n rule: BufferViewList_remove_prefix.induct)
  case (1 n)
  then show ?case by (simp add: word_gt_0 split: if_splits)
next
  case (2 v vs n)
  from "2.prems"(2) have n: "0 < n" by (simp add: word_gt_0)
  show ?case
  proof (cases "n < string_length v")
    case True
    then have "0 < unat n" "0 < length v"
      using n by (auto simp: string_length_def word_less_nat_alt)
    then show ?thesis using True n "2.prems"(1) by auto
  next
    case False
    then have r: "BufferViewList_remove_prefix vs (n - string_length v) = (Inr (), vs')"
      using "2.prems"(1) n by simp
    show ?thesis
    proof (cases "n - string_length v = 0")
      case True
      then have "vs' = vs" using r by (cases vs) simp_all
      moreover have "v \<noteq> []" using True n by (auto simp: string_length_def)
      ultimately show ?thesis by simp
    next
      case neq: False
      with "2.IH" [OF n False r] show ?thesis by simp
    qed
  qed
qed

lemma syscall_int_ok: "syscall K a g w = (Inr b, w') \<Longrightarrow> int_ok b"
  by (auto simp: syscall_run SystemCall_run split: if_splits)

lemma of_int_size_0: "int_ok b \<Longrightarrow> (of_int b :: size_t) = 0 \<longleftrightarrow> b = 0"
  by (auto simp: int_ok_def word_of_int_eq_0_iff dest: zdvd_not_zless)

lemma write_once_cases:
  assumes "write_once K f buffer w = (Inr (n, buffer'), w')"
  shows "BufferViewList_remove_prefix buffer n = (Inr (), buffer')"
    and "n = 0 \<Longrightarrow> BufferViewList_size buffer = 0"
proof -
  obtain b w1 w2 g where b: "syscall K ''writev'' g w1 = (Inr b, w2)"
    and r: "(if b = 0 \<and> BufferViewList_size buffer \<noteq> 0 then
        throwS (runtime_error ''write returned 0 given non-empty input buffer'')
      else if b > sint (BufferViewList_size buffer) then
        throwS (runtime_error ''write wrote more than length of input buffer'')
      else
        seqS (register_write f)
          (case BufferViewList_remove_prefix buffer (of_int b) of
             (Inl e, _) \<Rightarrow> throwS e
           | (Inr _, buffer') \<Rightarrow> retS (of_int b, buffer'))) w2 = (Inr (n, buffer'), w')"
    using assms unfolding write_once_def Let_def bindS_eq_Inr by blast
  show "BufferViewList_remove_prefix buffer n = (Inr (), buffer')"
    using r by (auto simp: seqS_def bindS_eq_Inr split: if_splits sum.splits prod.splits)
  show "BufferViewList_size buffer = 0" if "n = 0"
    using r that of_int_size_0 [OF syscall_int_ok [OF b]]
    by (auto simp: seqS_def bindS_eq_Inr split: if_splits sum.splits prod.splits)
qed

lemma write_once_progress:
  assumes "write_once K f buffer w = (Inr (n, buffer'), w')" and "BufferViewList_size buffer' \<noteq> 0"
  shows "length (concat buffer') < length (concat buffer)"
proof -
  note c = write_once_cases [OF assms(1)]
  have "n \<noteq> 0"
  proof
    assume "n = 0"
    with c have "BufferViewList_size buffer = 0" "buffer' = buffer"
      by (cases buffer; simp)+
    with assms(2) show False by simp
  qed
  with c(1) show ?thesis by (rule remove_prefix_shorter)
qed

text \<open>The loop ends whatever the kernel does.\<close>

function write_rounds ::
  "('k, 'z) kernel_scheme \<Rightarrow> FileDescriptor \<Rightarrow> bool \<Rightarrow> BufferViewList \<Rightarrow> size_t \<Rightarrow> 'k world \<Rightarrow>
    size_t result \<times> 'k world" where
  "write_rounds K f write_all buffer written w =
     (case write_once K f buffer w of
        (Inl e, w') \<Rightarrow> (Inl e, w')
      | (Inr (n, buffer'), w') \<Rightarrow>
          if write_all \<and> BufferViewList_size buffer' \<noteq> 0
          then write_rounds K f write_all buffer' (written + n) w'
          else (Inr (written + n), w'))"
  by pat_completeness auto
termination
  by (relation "measure (\<lambda>(K, f, write_all, buffer, written, w). length (concat buffer))")
    (auto intro: write_once_progress [OF sym])

declare write_rounds.simps [simp del]

definition FileDescriptor_write ::
  "('k, 'z) kernel_scheme \<Rightarrow> FileDescriptor \<Rightarrow> BufferViewList \<Rightarrow> bool \<Rightarrow> ('k world, size_t) act" where
  "FileDescriptor_write K f buffer write_all = write_rounds K f write_all buffer 0"

definition FileDescriptor_write_string ::
  "('k, 'z) kernel_scheme \<Rightarrow> FileDescriptor \<Rightarrow> string \<Rightarrow> bool \<Rightarrow> ('k world, size_t) act" where
  "FileDescriptor_write_string K f str write_all = FileDescriptor_write K f (BufferViewList_of_string str) write_all"

definition FileDescriptor_write_cstring ::
  "('k, 'z) kernel_scheme \<Rightarrow> FileDescriptor \<Rightarrow> string \<Rightarrow> bool \<Rightarrow> ('k world, size_t) act" where
  "FileDescriptor_write_cstring K f str write_all = FileDescriptor_write K f (BufferViewList_of_cstring str) write_all"

section \<open>Blocking mode\<close>

abbreviation (input) O_NONBLOCK :: int where "O_NONBLOCK \<equiv> 2048"

definition FileDescriptor_set_blocking ::
  "('k, 'z) kernel_scheme \<Rightarrow> FileDescriptor \<Rightarrow> bool \<Rightarrow> ('k world, unit) act" where
  "FileDescriptor_set_blocking K f blocking_state =
     bindS (FileDescriptor_fd_num f) (\<lambda>fd.
     bindS (syscall K ''fcntl'' (os_fcntl_getfl K fd)) (\<lambda>flags.
       let flags = (if blocking_state then flags XOR (flags AND O_NONBLOCK) else flags OR O_NONBLOCK) in
       seqS (syscall K ''fcntl'' (os_fcntl_setfl K fd flags)) (retS ())))"

section \<open>How the heap changes\<close>

definition fd_world :: "FileDescriptor \<Rightarrow> FDCell \<Rightarrow> 'k \<Rightarrow> 'k world \<Rightarrow> 'k world" where
  "fd_world f c k w = w\<lparr>w_os := k, w_heap := (w_heap w)[f := Some c]\<rparr>"

lemma fd_get_run [simp]: "cell_at w f = Some c \<Longrightarrow> fd_get f g w = (Inr (g (cell_obj c)), w)"
  by (simp add: fd_get_def)

lemma fd_mod_run [simp]: "cell_at w f = Some c \<Longrightarrow>
    fd_mod f g w = (Inr (), set_cell f (Some (c\<lparr>cell_obj := g (cell_obj c)\<rparr>)) w)"
  by (simp add: fd_mod_def)

lemma cell_at_Some: "cell_at w f = Some c \<Longrightarrow> f < length (w_heap w) \<and> w_heap w ! f = Some c"
  by (simp add: cell_at_def split: if_splits)

lemma cell_at_os [simp]: "cell_at (w\<lparr>w_os := k\<rparr>) f = cell_at w f"
  by (simp add: cell_at_def)

lemma cell_at_set_cell: "cell_at (set_cell f x w) g = (if f = g \<and> f < length (w_heap w) then x else cell_at w g)"
  by (auto simp: cell_at_def set_cell_def)

lemma cell_at_fd_world: "cell_at w f = Some c0 \<Longrightarrow> cell_at (fd_world f c k w) g = (if f = g then Some c else cell_at w g)"
  by (auto simp: cell_at_def fd_world_def split: if_splits)

lemma fd_world_simps [simp]:
  "w_os (fd_world f c k w) = k"
  "w_cout (fd_world f c k w) = w_cout w"
  "w_cerr (fd_world f c k w) = w_cerr w"
  "fd_world f c k (fd_world f c' k' w) = fd_world f c k w"
  "set_cell f (Some c) (w\<lparr>w_os := k\<rparr>) = fd_world f c k w"
  "set_cell f (Some c) (fd_world f c' k w) = fd_world f c k w"
  "(fd_world f c k w)\<lparr>w_os := k'\<rparr> = fd_world f c k' w"
  by (simp_all add: fd_world_def set_cell_def)

lemma fd_world_same: "cell_at w f = Some c \<Longrightarrow> w\<lparr>w_os := k\<rparr> = fd_world f c k w"
  by (cases w) (auto simp: fd_world_def cell_at_def list_update_same_conv [THEN iffD2] split: if_splits)

section \<open>Safe with every kernel\<close>

text \<open>The owners of the wrappers on the heap; a method of a live descriptor changes neither them nor which wrappers there are,
  and it stays within the language whatever the kernel answers.\<close>

definition hrefs :: "'k world \<Rightarrow> FileDescriptor \<Rightarrow> nat option" where
  "hrefs w f = map_option cell_refs (cell_at w f)"

definition refs_kept :: "'k world \<Rightarrow> 'k world \<Rightarrow> bool" where
  "refs_kept w w' \<longleftrightarrow> hrefs w' = hrefs w"

interpretation refs: kept_relation refs_kept
  by unfold_locales (simp_all add: refs_kept_def)

lemma hrefs_os [simp]: "hrefs (w\<lparr>w_os := k\<rparr>) = hrefs w"
  by (simp add: hrefs_def fun_eq_iff)

lemma hrefs_streams [simp]: "hrefs (w\<lparr>w_cout := x\<rparr>) = hrefs w" "hrefs (w\<lparr>w_cerr := y\<rparr>) = hrefs w"
  by (simp_all add: hrefs_def cell_at_def fun_eq_iff)

lemma hrefs_live:
  assumes "hrefs w f \<noteq> None"
  obtains c where "cell_at w f = Some c" and "hrefs w f = Some (cell_refs c)"
  using assms by (auto simp: hrefs_def)

lemma hrefs_set_cell:
  assumes "cell_at w f = Some c"
  shows "hrefs (set_cell f c' w) = (hrefs w)(f := map_option cell_refs c')"
  using cell_at_Some [OF assms] by (auto simp: hrefs_def cell_at_set_cell)

lemma refs_kept_live: "refs_kept w w' \<Longrightarrow> hrefs w f \<noteq> None \<Longrightarrow> hrefs w' f \<noteq> None"
  by (simp add: refs_kept_def)

lemma os_safe [safe_intros]: "safe_wrt refs_kept (osS g) w"
  by (simp add: safe_wrt_def refs_kept_def)

lemma SystemCall_safe [safe_intros]: "safe_wrt refs_kept (SystemCall K a r m) w"
  by (simp add: safe_wrt_def refs_kept_def SystemCall_run)

lemma syscall_safe [safe_intros]: "safe_wrt refs_kept (syscall K a g) w"
  unfolding syscall_def by (intro safe_intros)

lemma fd_get_safe [safe_intros]: "hrefs w f \<noteq> None \<Longrightarrow> safe_wrt refs_kept (fd_get f g) w"
  by (erule hrefs_live) (simp add: safe_wrt_def refs_kept_def)

lemma fd_mod_safe [safe_intros]:
  assumes "hrefs w f \<noteq> None"
  shows "safe_wrt refs_kept (fd_mod f g) w"
proof -
  obtain c where c: "cell_at w f = Some c"
    using assms by (rule hrefs_live)
  then show ?thesis
    by (simp add: safe_wrt_def refs_kept_def hrefs_set_cell [OF c] fun_eq_iff) (simp add: hrefs_def)
qed

lemma defined_string_resize [simp]: "defined (string_resize s n)"
  by (simp add: string_resize_def)

lemmas fd_methods =
  FileDescriptor_close_def FDWrapper_close_def FileDescriptor_fd_num_def FileDescriptor_eof_def
  FileDescriptor_closed_def FileDescriptor_read_count_def FileDescriptor_write_count_def
  register_read_def register_write_def FileDescriptor_read_def FileDescriptor_read_into_def sys_read_def
  FileDescriptor_set_blocking_def

text \<open>The methods one by one; a loop of \<open>write\<close> is safe because each round is.\<close>

lemma remove_prefix_defined:
  "BufferViewList_remove_prefix vs n = (Inl e, vs') \<Longrightarrow> defined (Inl e :: 'a result)"
  by (induction vs n rule: BufferViewList_remove_prefix.induct) (auto split: if_splits)

lemma write_once_safe:
  assumes "hrefs w f \<noteq> None"
  shows "safe_wrt refs_kept (write_once K f buffer) w"
  using assms unfolding write_once_def Let_def FileDescriptor_fd_num_def register_write_def
  by (intro safe_intros) (auto simp: refs_kept_def dest: remove_prefix_defined)

lemma write_rounds_safe:
  assumes "hrefs w f \<noteq> None"
  shows "safe_wrt refs_kept (write_rounds K f write_all buffer n) w"
  using assms
proof (induction K f write_all buffer n w rule: write_rounds.induct)
  case (1 K f write_all buffer n w)
  from write_once_safe [OF "1.prems", of K buffer] show ?case
  proof (cases rule: refs.safe_cases)
    case (throws e w')
    then show ?thesis by (simp add: safe_wrt_def write_rounds.simps [of K f write_all buffer n w] defined_def)
  next
    case (returns x w')
    obtain m buffer' where x: "x = (m, buffer')" by fastforce
    have "safe_wrt refs_kept (write_rounds K f write_all buffer' (n + m)) w'"
      if "write_all \<and> BufferViewList_size buffer' \<noteq> 0"
      using "1.IH" [OF returns(1) [symmetric] refl x [symmetric] that] refs_kept_live [OF returns(2) "1.prems"] by simp
    with returns x show ?thesis
      by (auto simp: safe_wrt_def write_rounds.simps [of K f write_all buffer n w] intro: refs.kept_trans)
  qed
qed

lemma fd_method_safe:
  assumes "hrefs w f \<noteq> None"
  shows "safe_wrt refs_kept (FileDescriptor_close K f) w"
    and "safe_wrt refs_kept (FileDescriptor_read_into K f str limit) w"
    and "safe_wrt refs_kept (FileDescriptor_set_blocking K f b) w"
    and "safe_wrt refs_kept (FileDescriptor_write K f buffer write_all) w"
    and "safe_wrt refs_kept (FileDescriptor_fd_num f) w"
    and "safe_wrt refs_kept (register_read f) w" and "safe_wrt refs_kept (register_write f) w"
  using assms unfolding fd_methods Let_def FileDescriptor_write_def
  by (intro safe_intros write_rounds_safe; simp add: refs_kept_def)+

text \<open>Counting the calls of \<open>writev\<close>: one in every round.\<close>

lemma write_once_os:
  assumes "cell_at w f = Some c"
  shows "\<exists>iov cnt. w_os (snd (write_once K f buffer w)) = snd (os_writev K (fdw_fd (cell_obj c)) iov cnt (w_os w))"
proof -
  have "w_os (snd (seqS (register_write f) (case x of (Inl e, b) \<Rightarrow> throwS e | (Inr u, b) \<Rightarrow> retS (n, b)) w')) = w_os w'"
    if "cell_at w' f = Some c" for w' :: "'a world" and n :: size_t and x :: "unit result \<times> BufferViewList"
    using that by (simp add: seqS_run register_write_def set_cell_def split: prod.splits sum.splits)
  moreover have "cell_at (w\<lparr>w_os := k\<rparr>) f = Some c" for k
    using assms by simp
  ultimately show ?thesis
    using assms
    by (intro exI [of _ "BufferViewList_as_iovecs buffer"] exI [of _ "int_of_size (of_nat (length (BufferViewList_as_iovecs buffer)))"])
      (simp add: write_once_def Let_def bindS_run FileDescriptor_fd_num_def syscall_run SystemCall_run)
qed

lemma write_rounds_calls:
  assumes "\<And>fd iov cnt k. calls (snd (os_writev K fd iov cnt k)) = Suc (calls k)" and "hrefs w f \<noteq> None"
  shows "calls (w_os w) < calls (w_os (snd (write_rounds K f write_all buffer n w))) \<and>
    calls (w_os (snd (write_rounds K f write_all buffer n w))) \<le>
      calls (w_os w) + (if write_all then max 1 (length (concat buffer)) else 1)"
  using assms
proof (induction K f write_all buffer n w rule: write_rounds.induct)
  case (1 K f write_all buffer n w)
  obtain c where c: "cell_at w f = Some c"
    using "1.prems"(2) by (rule hrefs_live)
  have one: "calls (w_os (snd (write_once K f buffer w))) = Suc (calls (w_os w))"
    using write_once_os [OF c, of K buffer] "1.prems"(1) by auto
  note rounds = write_rounds.simps [of K f write_all buffer n w]
  from write_once_safe [OF "1.prems"(2), of K buffer] show ?case
  proof (cases rule: refs.safe_cases)
    case (throws e w')
    with one show ?thesis by (simp add: rounds)
  next
    case (returns x w')
    obtain m buffer' where x: "x = (m, buffer')" by fastforce
    show ?thesis
    proof (cases "write_all \<and> BufferViewList_size buffer' \<noteq> 0")
      case True
      have "0 < length (concat buffer')"
      proof (rule gr0I)
        assume "length (concat buffer') = 0"
        then have "BufferViewList_size buffer' = of_nat 0" unfolding view_size_eq by (rule arg_cong)
        with True show False by simp
      qed
      moreover have "length (concat buffer') < length (concat buffer)"
        using True write_once_progress [of K f buffer w m buffer' w'] returns(1) x by auto
      ultimately have fewer: "Suc (max 1 (length (concat buffer'))) \<le> max 1 (length (concat buffer))"
        by linarith
      have "write_rounds K f write_all buffer n w = write_rounds K f write_all buffer' (n + m) w'"
        unfolding rounds using True returns(1) x by simp
      with fewer True one returns(1) show ?thesis
        using "1.IH" [OF returns(1) [symmetric] refl x [symmetric] True "1.prems"(1)
          refs_kept_live [OF returns(2) "1.prems"(2)]] by simp linarith
    next
      case False
      with one returns(1) x show ?thesis by (auto simp: rounds)
    qed
  qed
qed

section \<open>What writev promises\<close>

text \<open>\<open>sent k fd\<close> stands for the bytes the peer of descriptor \<open>fd\<close> has been sent.  \<open>writev(2)\<close> returns \<open>-1\<close>
  with \<open>errno\<close> set and sends nothing, or sends a prefix of the vector's bytes and returns its length,
  which is at most \<open>0x7ffff000\<close>.\<close>

definition writev_contract :: "('k, 'z) kernel_scheme \<Rightarrow> ('k \<Rightarrow> int \<Rightarrow> string) \<Rightarrow> bool" where
  "writev_contract K sent \<longleftrightarrow> (\<forall>fd iov cnt k. case os_writev K fd iov cnt k of (r, k') \<Rightarrow>
     if r < 0 then r = -1 \<and> os_errno K k' \<noteq> 0 \<and> sent k' = sent k
     else r \<le> int (length (iovecs_bytes (take (nat cnt) iov))) \<and> r \<le> 2147479552 \<and>
       sent k' = (sent k)(fd := sent k fd @ take (nat r) (iovecs_bytes iov)))"

lemma writev_contractD:
  assumes "writev_contract K sent" and "os_writev K fd iov cnt k = (r, k')"
  shows "if r < 0 then r = -1 \<and> os_errno K k' \<noteq> 0 \<and> sent k' = sent k
     else r \<le> int (length (iovecs_bytes (take (nat cnt) iov))) \<and> r \<le> 2147479552 \<and>
       sent k' = (sent k)(fd := sent k fd @ take (nat r) (iovecs_bytes iov))"
  using assms(1) [unfolded writev_contract_def, THEN spec, of fd, THEN spec, of iov, THEN spec, of cnt,
      THEN spec, of k] assms(2) by simp

definition wrote :: "FDCell \<Rightarrow> FDCell" where
  "wrote c = c\<lparr>cell_obj := (cell_obj c)\<lparr>fdw_write_count := fdw_write_count (cell_obj c) + 1\<rparr>\<rparr>"

lemma string_ok_concat: "string_ok (concat vs) \<Longrightarrow> list_all string_ok vs \<and> bvl_ok vs"
proof (induction vs)
  case (Cons v vs)
  then have "string_ok v" "string_ok (concat vs)" "length (concat (v # vs)) < 2 ^ 64"
    by (simp_all add: string_ok_def string_max_size_def)
  with Cons show ?case by (simp add: bvl_ok_def)
qed (simp add: bvl_ok_def)

lemma sint_size:
  assumes "string_ok (concat vs)"
  shows "sint (BufferViewList_size vs) = int (length (concat vs))"
proof -
  have "unat (BufferViewList_size vs) = length (concat vs)" "length (concat vs) < 2 ^ 63"
    using assms string_ok_concat [OF assms] bvl.unat_sz [of vs] by (simp_all add: string_ok_def string_max_size_def)
  then show ?thesis by (simp add: sint_small)
qed

lemma length_iovecs_take: "length (iovecs_bytes (take n iov)) \<le> length (iovecs_bytes iov)"
proof -
  have "iovecs_bytes iov = iovecs_bytes (take n iov) @ iovecs_bytes (drop n iov)"
    unfolding iovecs_bytes_def by (metis append_take_drop_id concat_append map_append)
  then show ?thesis by simp
qed

text \<open>One call of \<open>writev\<close> that does not fail and sends no more than it was given.\<close>

lemma write_once_sent:
  assumes "cell_at w f = Some c" and "string_ok (concat buffer)"
    and "os_writev K (fdw_fd (cell_obj c)) (BufferViewList_as_iovecs buffer)
      (int_of_size (of_nat (length (BufferViewList_as_iovecs buffer)))) (w_os w) = (r, k)"
    and "0 \<le> r" and "r \<le> int (length (concat buffer))" and "r \<le> 2147479552"
  shows "if r = 0 \<and> concat buffer \<noteq> []
    then write_once K f buffer w =
      (Inl (runtime_error ''write returned 0 given non-empty input buffer''), w\<lparr>w_os := k\<rparr>)
    else \<exists>buffer'. write_once K f buffer w = (Inr (of_int r, buffer'), fd_world f (wrote c) k w) \<and>
      concat buffer' = drop (nat r) (concat buffer) \<and> unat (of_int r :: size_t) = nat r"
proof -
  note ok = string_ok_concat [OF assms(2)]
  have i: "to_int r = r"
    using assms(4,6) by (intro to_int_id int_okI) simp_all
  have u: "unat (of_int r :: size_t) = nat r"
    using assms(4,6) unat_size_of_int [of r] by (simp add: size_of_int_def)
  obtain buffer' where rp: "BufferViewList_remove_prefix buffer (of_int r) = (Inr (), buffer')"
      "concat buffer' = drop (nat r) (concat buffer)"
    using bvl.remove_drops [of buffer "of_int r"] ok u assms(4,5) nat_le_iff [of r] by auto
  have fd: "FileDescriptor_fd_num f w = (Inr (fdw_fd (cell_obj c)), w)"
    using assms(1) by (simp add: FileDescriptor_fd_num_def)
  have "BufferViewList_size buffer = 0 \<longleftrightarrow> concat buffer = []" "\<not> r > sint (BufferViewList_size buffer)"
    using ok assms(5) by (simp_all add: bvl.sz_0_iff sint_size [OF assms(2)])
  then show ?thesis
    using assms(1,3,4) fd i rp u
    by (simp add: write_once_def Let_def bindS_run syscall_run SystemCall_run seqS_run register_write_def wrote_def)
qed

lemma write_once_run:
  assumes "writev_contract K sent" and "cell_at w f = Some c" and "string_ok (concat buffer)"
    and "fd = fdw_fd (cell_obj c)"
  obtains (throws) e k where "write_once K f buffer w = (Inl e, w\<lparr>w_os := k\<rparr>)" "sent k = sent (w_os w)"
      "\<forall>u. e \<noteq> Undefined u"
    | (writes) n buffer' k where "write_once K f buffer w = (Inr (n, buffer'), fd_world f (wrote c) k w)"
      "unat n \<le> length (concat buffer)" "string_ok (concat buffer')"
      "concat buffer' = drop (unat n) (concat buffer)" "unat n = 0 \<longrightarrow> concat buffer = []"
      "sent k = (sent (w_os w))(fd := sent (w_os w) fd @ take (unat n) (concat buffer))"
proof -
  let ?iov = "BufferViewList_as_iovecs buffer"
  let ?cnt = "int_of_size (of_nat (length ?iov))"
  obtain r k where r: "os_writev K fd ?iov ?cnt (w_os w) = (r, k)"
    by (meson surj_pair)
  note ok = string_ok_concat [OF assms(3)]
  have b: "iovecs_bytes ?iov = concat buffer"
    using ok by (simp add: as_iovecs_bytes)
  have con: "if r < 0 then r = -1 \<and> os_errno K k \<noteq> 0 \<and> sent k = sent (w_os w)
     else r \<le> int (length (iovecs_bytes (take (nat ?cnt) ?iov))) \<and> r \<le> 2147479552 \<and>
       sent k = (sent (w_os w))(fd := sent (w_os w) fd @ take (nat r) (concat buffer))"
    using writev_contractD [OF assms(1) r] unfolding b .
  have fd: "FileDescriptor_fd_num f w = (Inr fd, w)"
    using assms(2,4) by (simp add: FileDescriptor_fd_num_def)
  show ?thesis
  proof (cases "r < 0")
    case True
    with con have "to_int r = -1" "os_errno K k \<noteq> 0" "sent k = sent (w_os w)"
      by simp_all
    with r fd have "write_once K f buffer w = (Inl (unix_error ''writev'' (os_errno K k)), w\<lparr>w_os := k\<rparr>)"
      by (simp add: write_once_def Let_def bindS_run syscall_run SystemCall_run)
    from throws [OF this \<open>sent k = sent (w_os w)\<close>] show ?thesis by simp
  next
    case False
    then have rb: "0 \<le> r" "r \<le> int (length (concat buffer))" "r \<le> 2147479552"
      using con length_iovecs_take [of "nat ?cnt" ?iov] unfolding b by auto
    note once = write_once_sent [OF assms(2,3) r [unfolded assms(4)] rb]
    show ?thesis
    proof (cases "r = 0 \<and> concat buffer \<noteq> []")
      case True
      with once have "write_once K f buffer w =
          (Inl (runtime_error ''write returned 0 given non-empty input buffer''), w\<lparr>w_os := k\<rparr>)" by simp
      moreover from True con have "sent k = sent (w_os w)" by (simp add: fun_upd_idem)
      ultimately show ?thesis by (rule throws) simp
    next
      case go: False
      with once obtain buffer' where o: "write_once K f buffer w = (Inr (of_int r, buffer'), fd_world f (wrote c) k w)"
          "concat buffer' = drop (nat r) (concat buffer)" "unat (of_int r :: size_t) = nat r" by auto
      moreover have "string_ok (concat buffer')"
        using assms(3) by (simp add: o(2) string_ok_drop)
      ultimately show ?thesis
        using con False rb go by (intro writes [OF o(1)]) (simp_all add: nat_le_iff)
    qed
  qed
qed

text \<open>Cells that differ in their counters only.\<close>

definition same_file :: "FDCell \<Rightarrow> FDCell \<Rightarrow> bool" where
  "same_file c c' \<longleftrightarrow> cell_refs c' = cell_refs c \<and> fdw_fd (cell_obj c') = fdw_fd (cell_obj c) \<and>
     fdw_eof (cell_obj c') = fdw_eof (cell_obj c) \<and> fdw_closed (cell_obj c') = fdw_closed (cell_obj c)"

lemma same_file_refl [simp]: "same_file c c"
  by (simp add: same_file_def)

lemma same_file_wrote: "same_file (wrote c) c' \<longleftrightarrow> same_file c c'"
  by (simp add: same_file_def wrote_def)

text \<open>What one round sent and what the rounds after it sent is a prefix of the whole.\<close>

lemma sent_in_rounds:
  assumes "rest = drop a d" and "a \<le> length d" and "m \<le> length rest"
    and "s1 = s(fd := s fd @ take a d)" and "s2 = s1(fd := s1 fd @ take m rest)"
  shows "s2 = s(fd := s fd @ take (a + m) d)" and "a + m \<le> length d" and "m = length rest \<Longrightarrow> a + m = length d"
  using assms by (simp_all add: take_add)

text \<open>The loop, with the bytes still to be written: on success all of them were sent and counted, on an
  exception a prefix of them.\<close>

lemma write_rounds_run:
  assumes "writev_contract K sent" and "cell_at w f = Some c" and "string_ok (concat buffer)"
    and "fd = fdw_fd (cell_obj c)" and "write_rounds K f True buffer n0 w = (r, w')"
  shows "\<exists>m \<le> length (concat buffer).
    sent (w_os w') = (sent (w_os w))(fd := sent (w_os w) fd @ take m (concat buffer)) \<and>
    (\<forall>n. r = Inr n \<longrightarrow> m = length (concat buffer) \<and> n = n0 + of_nat m) \<and>
    (\<forall>u. r \<noteq> Inl (Undefined u)) \<and> w_cout w' = w_cout w \<and>
    (\<exists>c'. cell_at w' f = Some c' \<and> same_file c c')"
  using assms(2-5)
proof (induction "length (concat buffer)" arbitrary: buffer n0 w c rule: less_induct)
  case less
  from assms(1) less.prems(1-3) show ?case
  proof (cases rule: write_once_run)
    case (throws e k)
    with less.prems(4) have "r = Inl e" "w' = w\<lparr>w_os := k\<rparr>"
      by (simp_all add: write_rounds.simps [of K f True buffer])
    with throws(2,3) less.prems(1) show ?thesis by (intro exI [of _ 0]) (simp add: fun_upd_idem)
  next
    case o: (writes n buffer' k)
    let ?w = "fd_world f (wrote c) k w"
    have z: "BufferViewList_size buffer' = 0 \<longleftrightarrow> concat buffer' = []"
      using string_ok_concat [OF o(3)] by (simp add: bvl.sz_0_iff)
    show ?thesis
    proof (cases "concat buffer' = []")
      case True
      with o(1) z less.prems(4) have "r = Inr (n0 + n)" "w' = ?w"
        by (simp_all add: write_rounds.simps [of K f True buffer])
      moreover have n: "unat n = length (concat buffer)"
        using True o(2,4) by simp
      moreover have "of_nat (length (concat buffer)) = n"
        unfolding n [symmetric] by simp
      ultimately show ?thesis
        using o(6) less.prems(1) same_file_wrote [of c "wrote c"]
        by (intro exI [of _ "unat n"]) (simp add: cell_at_fd_world)
    next
      case False
      have lt: "length (concat buffer') < length (concat buffer)"
        using False o(2,4,5) by (cases "unat n = 0") auto
      have c: "cell_at ?w f = Some (wrote c)" "fd = fdw_fd (cell_obj (wrote c))"
        using less.prems(1,3) by (simp_all add: cell_at_fd_world wrote_def)
      have run: "write_rounds K f True buffer' (n0 + n) ?w = (r, w')"
        using less.prems(4) o(1) z False by (simp add: write_rounds.simps [of K f True buffer])
      from less.hyps [OF lt c(1) o(3) c(2) run] obtain m where m: "m \<le> length (concat buffer')"
        "sent (w_os w') = (sent k)(fd := sent k fd @ take m (concat buffer'))"
        "\<forall>n'. r = Inr n' \<longrightarrow> m = length (concat buffer') \<and> n' = n0 + n + of_nat m"
        "(\<forall>u. r \<noteq> Inl (Undefined u)) \<and> w_cout w' = w_cout w \<and> (\<exists>c'. cell_at w' f = Some c' \<and> same_file c c')"
        by (auto simp: same_file_wrote)
      note sent = sent_in_rounds [OF o(4,2) m(1) o(6) m(2)]
      have "n0 + n + of_nat m = n0 + of_nat (unat n + m)"
        by simp
      with sent show ?thesis
        using m(3,4) by metis
    qed
  qed
qed

section \<open>What read promises\<close>

text \<open>\<open>pending k fd\<close> stands for the bytes that are still to come on descriptor \<open>fd\<close>.  \<open>read(2)\<close> returns \<open>-1\<close>
  with \<open>errno\<close> set and takes nothing, or stores at most \<open>n\<close> of the pending bytes, in order, and returns
  how many; it returns 0 for a positive \<open>n\<close> only at the end of the file.\<close>

definition read_contract :: "('k, 'z) kernel_scheme \<Rightarrow> ('k \<Rightarrow> int \<Rightarrow> string) \<Rightarrow> bool" where
  "read_contract K pending \<longleftrightarrow> (\<forall>fd n k. case os_read K fd n k of ((r, data), k') \<Rightarrow>
     if r < 0 then r = -1 \<and> os_errno K k' \<noteq> 0 \<and> pending k' = pending k
     else nat r \<le> unat n \<and> nat r \<le> length (pending k fd) \<and> data = take (nat r) (pending k fd) \<and>
       pending k' = (pending k)(fd := drop (nat r) (pending k fd)) \<and>
       (r = 0 \<and> 0 < n \<longrightarrow> pending k fd = []))"

lemma read_contractD:
  assumes "read_contract K pending" and "os_read K fd n k = ((r, data), k')"
  shows "if r < 0 then r = -1 \<and> os_errno K k' \<noteq> 0 \<and> pending k' = pending k
     else nat r \<le> unat n \<and> nat r \<le> length (pending k fd) \<and> data = take (nat r) (pending k fd) \<and>
       pending k' = (pending k)(fd := drop (nat r) (pending k fd)) \<and>
       (r = 0 \<and> 0 < n \<longrightarrow> pending k fd = [])"
  using assms(1) [unfolded read_contract_def, THEN spec, of fd, THEN spec, of n, THEN spec, of k] assms(2)
  by simp

definition did_read :: "bool \<Rightarrow> FDCell \<Rightarrow> FDCell" where
  "did_read at_end c =
     (let x = (if at_end then (cell_obj c)\<lparr>fdw_eof := True\<rparr> else cell_obj c) in
      c\<lparr>cell_obj := x\<lparr>fdw_read_count := fdw_read_count x + 1\<rparr>\<rparr>)"

lemma read_size:
  assumes "sz = min read_buffer_size limit"
  shows "unat sz = min 1048576 (unat limit)" and "sint sz = int (unat sz)"
proof -
  show u: "unat sz = min 1048576 (unat limit)"
    by (simp add: assms read_buffer_size_def min_def word_le_nat_alt)
  then show "sint sz = int (unat sz)"
    by (intro sint_small) simp
qed

text \<open>What one call of \<open>read\<close> makes of the bytes the kernel stored.\<close>

lemma FileDescriptor_read_exact:
  assumes "cell_at w f = Some c" and "fd = fdw_fd (cell_obj c)" and "sz = min read_buffer_size limit"
    and "os_read K fd sz (w_os w) = ((int (length data), data), k)" and "length data \<le> unat sz"
  shows "FileDescriptor_read K f limit w = (Inr data, fd_world f (did_read (data = [] \<and> 0 < limit) c) k w)"
proof -
  note sz = read_size [OF assms(3)]
  have sz_le: "unat sz \<le> string_max_size"
    using sz(1) by (simp add: string_max_size_def)
  have fd: "FileDescriptor_fd_num f w = (Inr fd, w)"
    using assms(1,2) by (simp add: FileDescriptor_fd_num_def)
  have len: "length data \<le> 1048576"
    using assms(5) sz(1) by simp
  then have i: "to_int (int (length data)) = int (length data)"
    by (intro to_int_id int_okI) simp_all
  have u: "unat (of_nat (length data) :: size_t) = length data"
    using len by (simp add: unat_of_nat_size)
  have rs: "string_resize (overlay (replicate (unat sz) (CHR 0x00)) data) (of_nat (length data)) = Inr data"
    using assms(5) len u by (simp add: take_overlay string_max_size_def)
  have ns: "\<not> int (length data) > sint sz"
    using assms(5) unfolding sz(2) by linarith
  show ?thesis
    using assms(4) fd sz_le i assms(1) rs ns
    by (cases "data = [] \<and> 0 < limit")
      (simp_all add: FileDescriptor_read_def FileDescriptor_read_into_def Let_def assms(3) [symmetric] bindS_run
        seqS_run whenS_def sys_read_def SystemCall_run register_read_def did_read_def cell_at_fd_world)
qed

lemma read_run:
  assumes "read_contract K pending" and "cell_at w f = Some c" and "fd = fdw_fd (cell_obj c)"
  shows "(\<exists>n k. FileDescriptor_read K f limit w = (Inl (unix_error ''read'' n), w\<lparr>w_os := k\<rparr>) \<and>
       pending k = pending (w_os w)) \<or>
    (\<exists>data k. FileDescriptor_read K f limit w =
         (Inr data, fd_world f (did_read (data = [] \<and> 0 < limit) c) k w) \<and>
       length data \<le> min 1048576 (unat limit) \<and>
       prefix data (pending (w_os w) fd) \<and>
       pending k = (pending (w_os w))(fd := drop (length data) (pending (w_os w) fd)) \<and>
       (data = [] \<and> 0 < limit \<longrightarrow> pending (w_os w) fd = []))"
proof -
  define sz where "sz = min read_buffer_size limit"
  note sz = read_size [OF sz_def]
  obtain r data k where r: "os_read K fd sz (w_os w) = ((r, data), k)"
    by (metis surj_pair)
  note con = read_contractD [OF assms(1) r]
  have sz_le: "unat sz \<le> string_max_size"
    using sz(1) by (simp add: string_max_size_def)
  have pos: "0 < sz \<longleftrightarrow> 0 < limit"
    using sz(1) by (simp add: word_less_nat_alt)
  have fd: "FileDescriptor_fd_num f w = (Inr fd, w)"
    using assms(2,3) by (simp add: FileDescriptor_fd_num_def)
  show ?thesis
  proof (cases "r < 0")
    case True
    with con have "to_int r = -1" "os_errno K k \<noteq> 0" "pending k = pending (w_os w)"
      by simp_all
    with r fd sz_le have "FileDescriptor_read K f limit w = (Inl (unix_error ''read'' (os_errno K k)), w\<lparr>w_os := k\<rparr>)"
      by (simp add: FileDescriptor_read_def FileDescriptor_read_into_def Let_def sz_def [symmetric] bindS_run
          sys_read_def SystemCall_run)
    with \<open>pending k = pending (w_os w)\<close> show ?thesis by blast
  next
    case False
    with con have d: "nat r \<le> unat sz" "nat r \<le> length (pending (w_os w) fd)"
      "data = take (nat r) (pending (w_os w) fd)"
      "pending k = (pending (w_os w))(fd := drop (nat r) (pending (w_os w) fd))"
      "r = 0 \<and> 0 < limit \<longrightarrow> pending (w_os w) fd = []"
      by (simp_all add: pos)
    then have n: "nat r = length data" by simp
    have c: "r = int (length data)" "length data \<le> unat sz"
      using False d(1) n by auto
    have p: "prefix data (pending (w_os w) fd)"
      using d(3) by (metis take_is_prefix)
    have k: "pending k = (pending (w_os w))(fd := drop (length data) (pending (w_os w) fd))"
      "data = [] \<and> 0 < limit \<longrightarrow> pending (w_os w) fd = []"
      using d(4,5) c(1) n by auto
    have "FileDescriptor_read K f limit w = (Inr data, fd_world f (did_read (data = [] \<and> 0 < limit) c) k w)"
      using FileDescriptor_read_exact [OF assms(2,3) sz_def _ c(2)] r unfolding c(1) by blast
    with p k c(2) show ?thesis
      unfolding sz(1) by blast
  qed
qed

section \<open>Handles\<close>

text \<open>What the owners of one wrapper can do to it as a resource: make another owner, close it, go away.
  \<open>owned n ops\<close>: starting with \<open>n\<close> owners, the sequence ends with the last of them, and not before.\<close>

datatype handle_op = Dup | CloseFd | Drop

fun run_handles :: "('k, 'z) kernel_scheme \<Rightarrow> FileDescriptor \<Rightarrow> handle_op list \<Rightarrow> ('k world, unit) act" where
  "run_handles K f [] = retS ()"
| "run_handles K f (Dup # ops) = seqS (FileDescriptor_duplicate f) (run_handles K f ops)"
| "run_handles K f (CloseFd # ops) = seqS (FileDescriptor_close K f) (run_handles K f ops)"
| "run_handles K f (Drop # ops) = seqS (FileDescriptor_destroy K f) (run_handles K f ops)"

fun owned :: "nat \<Rightarrow> handle_op list \<Rightarrow> bool" where
  "owned n [] = (n = 0)"
| "owned n (Dup # ops) = (0 < n \<and> owned (Suc n) ops)"
| "owned n (CloseFd # ops) = (0 < n \<and> owned n ops)"
| "owned n (Drop # ops) = (0 < n \<and> owned (n - 1) ops)"

lemma owned_0 [simp]: "owned 0 ops \<longleftrightarrow> ops = []"
  by (induction "0 :: nat" ops rule: owned.induct) simp_all

definition shut :: "FDCell \<Rightarrow> FDCell" where
  "shut c = c\<lparr>cell_obj := (cell_obj c)\<lparr>fdw_eof := True, fdw_closed := True\<rparr>\<rparr>"

lemma close_run:
  assumes "cell_at w f = Some c" and "os_close K (fdw_fd (cell_obj c)) (w_os w) = (0, k)"
  shows "FDWrapper_close K f w = (Inr (), fd_world f (shut c) k w)"
  using assms by (simp add: FDWrapper_close_def bindS_run seqS_run syscall_run SystemCall_run shut_def)

lemma destroy_last:
  assumes "cell_at w f = Some c" and "cell_refs c = 1"
    and "if fdw_closed (cell_obj c) then k = w_os w else os_close K (fdw_fd (cell_obj c)) (w_os w) = (0, k)"
  shows "\<exists>w'. FileDescriptor_destroy K f w = (Inr (), w') \<and> w_os w' = k \<and> cell_at w' f = None"
proof (cases "fdw_closed (cell_obj c)")
  case True
  then have "FDWrapper_destroy K f w = (Inr (), w)"
    using assms(1) by (simp add: FDWrapper_destroy_def catchS_def bindS_run)
  with True assms show ?thesis
    using cell_at_Some [OF assms(1)]
    by (simp add: FileDescriptor_destroy_def seqS_run cell_at_set_cell) (simp add: set_cell_def)
next
  case False
  then have "FDWrapper_destroy K f w = (Inr (), fd_world f (shut c) k w)"
    using assms(1,3) by (simp add: FDWrapper_destroy_def catchS_def bindS_run close_run)
  with False assms show ?thesis
    by (simp add: FileDescriptor_destroy_def seqS_run) (simp add: cell_at_def set_cell_def fd_world_def)
qed

text \<open>Destroying an owner never throws: the last one gets rid of the wrapper, and if \<open>close\<close> fails then, the
  destructor only reports it.\<close>

lemma destroy_run:
  assumes "cell_at w f = Some c"
  shows "\<exists>w'. FileDescriptor_destroy K f w = (Inr (), w') \<and> w_cout w' = w_cout w \<and>
    (\<forall>g. g \<noteq> f \<longrightarrow> cell_at w' g = cell_at w g) \<and>
    cell_at w' f = (if cell_refs c > 1 then Some (c\<lparr>cell_refs := cell_refs c - 1\<rparr>) else None)"
proof (cases "cell_refs c > 1")
  case True
  then show ?thesis
    using assms cell_at_Some [OF assms]
    by (simp add: FileDescriptor_destroy_def cell_at_set_cell) (simp add: set_cell_def)
next
  case False
  obtain r k where rk: "os_close K (fdw_fd (cell_obj c)) (w_os w) = (r, k)"
    by (meson surj_pair)
  have ex: "\<exists>w1. FDWrapper_destroy K f w = (Inr (), w1) \<and> w_cout w1 = w_cout w \<and>
      (\<forall>g. g \<noteq> f \<longrightarrow> cell_at w1 g = cell_at w g)"
  proof (cases "fdw_closed (cell_obj c) \<or> 0 \<le> to_int r \<or> os_errno K k = 0")
    case True
    then show ?thesis
      using assms rk
      by (auto simp: FDWrapper_destroy_def catchS_def bindS_run FDWrapper_close_def seqS_run syscall_run
          SystemCall_run cell_at_fd_world)
  next
    case False
    then show ?thesis
      using assms rk
      by (simp add: FDWrapper_destroy_def catchS_def bindS_run FDWrapper_close_def seqS_run syscall_run
          SystemCall_run) (simp add: cell_at_def)
  qed
  have gone: "cell_at (set_cell f None w1) g = (if g = f then None else cell_at w1 g)" for w1 :: "'a world" and g
    by (simp add: cell_at_def set_cell_def)
  from ex show ?thesis
    using assms False gone by (auto simp: FileDescriptor_destroy_def seqS_run set_cell_def)
qed

text \<open>Copying, destroying and creating, as changes of the owners.\<close>

lemma duplicate_hrefs:
  assumes "hrefs w f = Some n"
  shows "\<exists>w'. FileDescriptor_duplicate f w = (Inr f, w') \<and> hrefs w' = (hrefs w)(f \<mapsto> Suc n)"
proof -
  obtain c where c: "cell_at w f = Some c" "cell_refs c = n"
    using assms by (auto simp: hrefs_def)
  then show ?thesis
    by (simp add: FileDescriptor_duplicate_def hrefs_set_cell [OF c(1)])
qed

lemma destroy_hrefs:
  assumes "hrefs w f = Some n"
  shows "\<exists>w'. FileDescriptor_destroy K f w = (Inr (), w') \<and>
    hrefs w' = (hrefs w)(f := if n > 1 then Some (n - 1) else None)"
proof -
  obtain c where c: "cell_at w f = Some c" "cell_refs c = n"
    using assms by (auto simp: hrefs_def)
  obtain w' where w': "FileDescriptor_destroy K f w = (Inr (), w')"
      "\<forall>g. g \<noteq> f \<longrightarrow> cell_at w' g = cell_at w g"
      "cell_at w' f = (if n > 1 then Some (c\<lparr>cell_refs := n - 1\<rparr>) else None)"
    using destroy_run [OF c(1), of K] c(2) by auto
  then show ?thesis
    by (auto simp: hrefs_def fun_eq_iff)
qed

lemma new_hrefs:
  "case FileDescriptor_new n w of
     (Inr f, w') \<Rightarrow> hrefs w f = None \<and> hrefs w' = (hrefs w)(f \<mapsto> 1)
   | (Inl e, w') \<Rightarrow> defined (Inl e :: unit result) \<and> refs_kept w w'"
  by (auto simp: FileDescriptor_new_def FDWrapper_new_def hrefs_def cell_at_def fun_eq_iff nth_append refs_kept_def)

lemma cell_at_recount:
  assumes "cell_at w f = Some c"
  shows "cell_at (set_cell f (Some c') w) f = Some c'" and "w_os (set_cell f (Some c') w) = w_os w"
  using cell_at_Some [OF assms] by (simp_all add: cell_at_set_cell) (simp add: set_cell_def)

text \<open>With \<open>n\<close> owners left and at most one \<open>close()\<close> to come, the descriptor is closed once if it still is
  open, and not again if it is not.\<close>

lemma run_handles_run:
  assumes "cell_at w f = Some c" and "cell_refs c = n" and "fd = fdw_fd (cell_obj c)" and "owned n ops" and "0 < n"
    and "if fdw_closed (cell_obj c) then k = w_os w \<and> count_list ops CloseFd = 0
         else os_close K fd (w_os w) = (0, k) \<and> count_list ops CloseFd \<le> 1"
  shows "\<exists>w'. run_handles K f ops w = (Inr (), w') \<and> w_os w' = k \<and> cell_at w' f = None"
  using assms
proof (induction ops arbitrary: w c n)
  case (Cons op ops)
  note cell = Cons.prems(1)
  show ?case
  proof (cases op)
    case Dup
    let ?c = "c\<lparr>cell_refs := Suc (cell_refs c)\<rparr>"
    let ?w = "set_cell f (Some ?c) w"
    have "\<exists>w'. run_handles K f ops ?w = (Inr (), w') \<and> w_os w' = k \<and> cell_at w' f = None"
      using Cons.prems Dup by (intro Cons.IH [of ?w ?c "Suc n"]) (simp_all add: cell_at_recount [OF cell] split: if_splits)
    then show ?thesis
      using Dup cell by (simp add: seqS_run FileDescriptor_duplicate_def)
  next
    case CloseFd
    let ?c = "shut c"
    let ?w = "fd_world f ?c k w"
    have open_: "\<not> fdw_closed (cell_obj c)" "os_close K fd (w_os w) = (0, k)" "count_list ops CloseFd = 0"
      using Cons.prems(6) CloseFd by (simp_all split: if_splits)
    have "\<exists>w'. run_handles K f ops ?w = (Inr (), w') \<and> w_os w' = k \<and> cell_at w' f = None"
      using Cons.prems CloseFd open_ by (intro Cons.IH [of ?w ?c n]) (simp_all add: shut_def cell_at_fd_world)
    moreover have "FileDescriptor_close K f w = (Inr (), ?w)"
      using cell open_(2) Cons.prems(3) by (simp add: FileDescriptor_close_def close_run)
    ultimately show ?thesis using CloseFd by (simp add: seqS_run)
  next
    case Drop
    show ?thesis
    proof (cases "n = 1")
      case True
      then have "ops = []" using Cons.prems(4) Drop by simp
      moreover have "\<exists>w'. FileDescriptor_destroy K f w = (Inr (), w') \<and> w_os w' = k \<and> cell_at w' f = None"
        using Cons.prems(2,3,6) True by (intro destroy_last [OF cell]) (auto split: if_splits)
      ultimately show ?thesis using Drop by (auto simp: seqS_run)
    next
      case False
      let ?c = "c\<lparr>cell_refs := cell_refs c - 1\<rparr>"
      let ?w = "set_cell f (Some ?c) w"
      have "\<exists>w'. run_handles K f ops ?w = (Inr (), w') \<and> w_os w' = k \<and> cell_at w' f = None"
        using Cons.prems Drop False
        by (intro Cons.IH [of ?w ?c "n - 1"]) (simp_all add: cell_at_recount [OF cell] split: if_splits)
      then show ?thesis
        using Drop cell Cons.prems(2,5) False by (simp add: seqS_run FileDescriptor_destroy_def)
    qed
  qed
qed simp

section \<open>Properties\<close>

text \<open>C16. \<open>write\<close> with \<open>write_all\<close> sends everything or throws: with a kernel whose \<open>writev\<close> does what its manual
  says, a normal return means that exactly the bytes of the buffer, in order, were sent on this
  descriptor and on no other, and the value returned is their number; an exception means that a prefix
  of them was sent.  The loop ends in either case, whatever the kernel does.\<close>

theorem fd_write_delivers:
  assumes "writev_contract K sent" and "cell_at w f = Some c" and "fd = fdw_fd (cell_obj c)"
    and "string_ok (concat buffer)"
  shows "case FileDescriptor_write K f buffer True w of
      (Inr n, w') \<Rightarrow> unat n = length (concat buffer) \<and>
        sent (w_os w') = (sent (w_os w))(fd := sent (w_os w) fd @ concat buffer)
    | (Inl e, w') \<Rightarrow> \<exists>m \<le> length (concat buffer).
        sent (w_os w') = (sent (w_os w))(fd := sent (w_os w) fd @ take m (concat buffer))"
proof -
  obtain r w' where rw: "FileDescriptor_write K f buffer True w = (r, w')"
    by fastforce
  then have "write_rounds K f True buffer 0 w = (r, w')"
    by (simp add: FileDescriptor_write_def)
  from write_rounds_run [OF assms(1,2,4,3) this] obtain m where m: "m \<le> length (concat buffer)"
    "sent (w_os w') = (sent (w_os w))(fd := sent (w_os w) fd @ take m (concat buffer))"
    "\<forall>n. r = Inr n \<longrightarrow> m = length (concat buffer) \<and> n = 0 + of_nat m" by blast
  have "length (concat buffer) < 2 ^ 64"
    using assms(4) by (simp add: string_ok_def string_max_size_def)
  with rw m show ?thesis
    by (cases r) (auto simp: unat_of_nat_size simp del: length_concat)
qed

text \<open>A kernel that takes at most two bytes at a time.\<close>

definition slow_writer :: "(int \<Rightarrow> string) kernel" where
  "slow_writer = failing_kernel\<lparr>os_writev := (\<lambda>fd iov cnt k.
     let m = min 2 (length (iovecs_bytes (take (nat cnt) iov))) in
     (int m, k(fd := k fd @ take m (iovecs_bytes iov))))\<rparr>"

lemma slow_writer_contract: "writev_contract slow_writer (\<lambda>k. k)"
  by (auto simp: writev_contract_def slow_writer_def Let_def min_def)

definition one_fd :: "int \<Rightarrow> 'k \<Rightarrow> 'k world" where
  "one_fd fd k = (fresh_world k)\<lparr>w_heap := [Some \<lparr>cell_refs = 1, cell_obj =
     \<lparr>fdw_fd = fd, fdw_eof = False, fdw_closed = False, fdw_read_count = 0, fdw_write_count = 0\<rparr>\<rparr>]\<rparr>"

lemma one_fd_simps [simp]:
  "w_os (one_fd fd k) = k"
  "cell_at (one_fd fd k) 0 = Some \<lparr>cell_refs = 1, cell_obj =
     \<lparr>fdw_fd = fd, fdw_eof = False, fdw_closed = False, fdw_read_count = 0, fdw_write_count = 0\<rparr>\<rparr>"
  by (simp_all add: one_fd_def cell_at_def)

theorem fd_write_delivers_witness:
  "case FileDescriptor_write slow_writer 0 [''abc'', [], ''de''] True (one_fd 3 (\<lambda>fd. [])) of
     (Inr n, w') \<Rightarrow> unat n = 5 \<and> w_os w' 3 = ''abcde''
   | (Inl e, w') \<Rightarrow> \<exists>m \<le> 5. w_os w' 3 = take m ''abcde''"
proof -
  have "string_ok (concat [''abc'', [], ''de''])"
    by (simp add: string_ok_def string_max_size_def)
  from fd_write_delivers [OF slow_writer_contract one_fd_simps(2) refl this, of 3 "\<lambda>fd. []"] show ?thesis
    by (cases "FileDescriptor_write slow_writer 0 [''abc'', [], ''de''] True (one_fd 3 (\<lambda>fd. []))")
      (auto simp: numeral_eq_Suc split: sum.splits)
qed

text \<open>C17. \<open>write\<close> always returns, and soon: whatever the kernel answers, it calls \<open>writev\<close> at least once, at most once for
  every byte (once if there are none, and once without \<open>write_all\<close>), ends with a result or an exception of
  the language, and leaves the wrapper with the same owners.\<close>

theorem write_calls_bounded:
  assumes "\<And>fd iov cnt k. calls (snd (os_writev K fd iov cnt k)) = Suc (calls k)" and "cell_at w f = Some c"
    and "FileDescriptor_write K f buffer write_all w = (r, w')"
  shows "calls (w_os w) < calls (w_os w') \<and>
    calls (w_os w') \<le> calls (w_os w) + (if write_all then max 1 (length (concat buffer)) else 1) \<and>
    (\<forall>u. r \<noteq> Inl (Undefined u)) \<and> (\<exists>c'. cell_at w' f = Some c' \<and> cell_refs c' = cell_refs c)"
proof -
  have live: "hrefs w f \<noteq> None" using assms(2) by (simp add: hrefs_def)
  have "refs_kept w w'" "defined r"
    using fd_method_safe(4) [OF live, of K buffer write_all] assms(3) by (simp_all add: safe_wrt_def)
  moreover from this(1) have "hrefs w' f = hrefs w f" by (simp add: refs_kept_def)
  then have "\<exists>c'. cell_at w' f = Some c' \<and> cell_refs c' = cell_refs c"
    using assms(2) by (auto simp: hrefs_def)
  ultimately show ?thesis
    using write_rounds_calls [where calls = calls, OF assms(1) live, of write_all buffer 0] assms(3)
    by (simp add: FileDescriptor_write_def defined_def)
qed

definition dripping :: "nat kernel" where
  "dripping = failing_kernel\<lparr>os_writev := (\<lambda>fd iov cnt k. (1, Suc k))\<rparr>"

theorem write_calls_bounded_witness:
  "case FileDescriptor_write dripping 0 [''abc'', ''de''] True (one_fd 3 0) of (r, w') \<Rightarrow> 0 < w_os w' \<and> w_os w' \<le> 5"
proof -
  obtain r w' where r: "FileDescriptor_write dripping 0 [''abc'', ''de''] True (one_fd 3 0) = (r, w')" by fastforce
  have "id (snd (os_writev dripping fd iov cnt k)) = Suc (id k)" for fd iov cnt k
    by (simp add: dripping_def)
  from write_calls_bounded [where calls = id, OF this one_fd_simps(2) r] r show ?thesis by simp
qed

text \<open>C18. \<open>read\<close> hands over the next bytes: with a kernel whose \<open>read\<close> does what its manual says, the call throws
  and takes nothing, or returns a prefix of the pending bytes, at most \<open>limit\<close> and at most 1 MiB of
  them, takes just these, counts one read, and sets the end-of-file flag exactly if nothing came though
  something was asked for, which happens only when nothing is left.  No other descriptor changes.\<close>

theorem fd_read_contract:
  assumes "read_contract K pending" and "cell_at w f = Some c" and "fd = fdw_fd (cell_obj c)"
  shows "case FileDescriptor_read K f limit w of
      (Inl e, w') \<Rightarrow> w_heap w' = w_heap w \<and> pending (w_os w') = pending (w_os w)
    | (Inr data, w') \<Rightarrow>
        length data \<le> min 1048576 (unat limit) \<and> prefix data (pending (w_os w) fd) \<and>
        pending (w_os w') = (pending (w_os w))(fd := drop (length data) (pending (w_os w) fd)) \<and>
        (\<exists>c'. cell_at w' f = Some c' \<and>
           fdw_read_count (cell_obj c') = fdw_read_count (cell_obj c) + 1 \<and>
           fdw_eof (cell_obj c') = (fdw_eof (cell_obj c) \<or> data = [] \<and> 0 < limit)) \<and>
        (data = [] \<and> 0 < limit \<longrightarrow> pending (w_os w) fd = []) \<and>
        (\<forall>g. g \<noteq> f \<longrightarrow> cell_at w' g = cell_at w g)"
  using read_run [OF assms, of limit]
proof (elim disjE exE conjE)
  fix data k
  assume "FileDescriptor_read K f limit w = (Inr data, fd_world f (did_read (data = [] \<and> 0 < limit) c) k w)"
    and "length data \<le> min 1048576 (unat limit)" and "prefix data (pending (w_os w) fd)"
    and "pending k = (pending (w_os w))(fd := drop (length data) (pending (w_os w) fd))"
    and "data = [] \<and> 0 < limit \<longrightarrow> pending (w_os w) fd = []"
  with assms(2) show ?thesis
    by (auto simp: cell_at_fd_world did_read_def Let_def)
qed simp

text \<open>A kernel that hands out at most three bytes at a time.\<close>

definition slow_reader :: "(int \<Rightarrow> string) kernel" where
  "slow_reader = failing_kernel\<lparr>os_read := (\<lambda>fd n k.
     let m = min 3 (min (unat n) (length (k fd))) in
     ((int m, take m (k fd)), k(fd := drop m (k fd))))\<rparr>"

lemma slow_reader_contract: "read_contract slow_reader (\<lambda>k. k)"
  by (auto simp: read_contract_def slow_reader_def Let_def min_def word_less_nat_alt)

theorem fd_read_contract_witness:
  "case FileDescriptor_read slow_reader 0 2 (one_fd 3 (\<lambda>fd. ''abcde'')) of
     (Inl e, w') \<Rightarrow> w_os w' 3 = ''abcde''
   | (Inr data, w') \<Rightarrow> length data \<le> 2 \<and> prefix data ''abcde'' \<and> w_os w' 3 = drop (length data) ''abcde''"
  using fd_read_contract [OF slow_reader_contract one_fd_simps(2) refl, of 3 "\<lambda>fd. ''abcde''" 2]
  by (auto split: prod.splits sum.splits)

text \<open>C19. A descriptor is closed exactly once: however often a \<open>FileDescriptor\<close> is duplicated, and in whatever
  order its owners are destroyed, the kernel's \<open>close\<close> is called once for it, at an explicit
  \<open>close()\<close> if there is one and else by the last owner, and it is the only system call made.  No owner
  sees a destroyed wrapper.\<close>

theorem fd_closed_once:
  assumes "0 \<le> fd" and "os_close K fd (w_os w) = (0, k)"
    and "owned 1 ops" and "count_list ops CloseFd \<le> 1"
  shows "\<exists>f w1 w'. FileDescriptor_new fd w = (Inr f, w1) \<and> run_handles K f ops w1 = (Inr (), w') \<and>
    w_os w' = k \<and> cell_at w' f = None"
proof -
  let ?c = "\<lparr>cell_refs = 1, cell_obj =
     \<lparr>fdw_fd = fd, fdw_eof = False, fdw_closed = False, fdw_read_count = 0, fdw_write_count = 0\<rparr>\<rparr>"
  let ?w = "w\<lparr>w_heap := w_heap w @ [Some ?c]\<rparr>"
  have new: "FileDescriptor_new fd w = (Inr (length (w_heap w)), ?w)"
    using assms(1) by (simp add: FileDescriptor_new_def FDWrapper_new_def)
  have "\<exists>w'. run_handles K (length (w_heap w)) ops ?w = (Inr (), w') \<and> w_os w' = k \<and>
      cell_at w' (length (w_heap w)) = None"
    using assms(2-4) by (intro run_handles_run [where c = ?c and n = 1 and fd = fd]) (simp_all add: cell_at_def)
  with new show ?thesis by blast
qed

definition closer :: "int list kernel" where
  "closer = failing_kernel\<lparr>os_close := (\<lambda>fd k. (0, fd # k))\<rparr>"

theorem fd_closed_once_witness:
  "\<exists>f w1 w'. FileDescriptor_new 7 (fresh_world []) = (Inr f, w1) \<and>
     run_handles closer f [Dup, Drop, Dup, CloseFd, Dup, Drop, Drop, Drop] w1 = (Inr (), w') \<and>
     w_os w' = [7] \<and> cell_at w' f = None"
  by (rule fd_closed_once) (simp_all add: closer_def)

text \<open>\<open>set_blocking\<close> changes the \<open>O_NONBLOCK\<close> flag (bit 11) and no other: the flags it stores have that bit
  set exactly for non-blocking mode and every other bit as \<open>fcntl\<close> reported it.\<close>

theorem set_blocking_flags:
  assumes "cell_at w f = Some c" and "fd = fdw_fd (cell_obj c)"
    and "os_fcntl_getfl K fd (w_os w) = (flags, k1)" and "0 \<le> flags" and "int_ok flags"
    and "\<And>fl. fst (os_fcntl_setfl K fd fl k1) = 0"
  shows "\<exists>fl. FileDescriptor_set_blocking K f blocking w = (Inr (), w\<lparr>w_os := snd (os_fcntl_setfl K fd fl k1)\<rparr>) \<and>
    (\<forall>n. bit fl n = (if n = 11 then \<not> blocking else bit flags n))"
proof -
  define fl where "fl = (if blocking then flags XOR (flags AND 2048) else flags OR 2048)"
  have b: "bit (2048 :: int) n \<longleftrightarrow> n = 11" for n
    using bit_exp_iff [of 11 n, where 'a = int] by simp
  have "FileDescriptor_set_blocking K f blocking w = (Inr (), w\<lparr>w_os := snd (os_fcntl_setfl K fd fl k1)\<rparr>)"
    using assms
    by (simp add: FileDescriptor_set_blocking_def FileDescriptor_fd_num_def bindS_run syscall_run SystemCall_run
        to_int_id seqS_run fl_def Let_def)
  moreover have "\<forall>n. bit fl n = (if n = 11 then \<not> blocking else bit flags n)"
    by (auto simp: fl_def bit_xor_iff bit_and_iff bit_or_iff b)
  ultimately show ?thesis by blast
qed

definition flag_file :: "int kernel" where
  "flag_file = failing_kernel\<lparr>os_fcntl_getfl := (\<lambda>fd k. (k, k)), os_fcntl_setfl := (\<lambda>fd fl k. (0, fl))\<rparr>"

theorem set_blocking_flags_witness:
  "\<exists>fl. FileDescriptor_set_blocking flag_file 0 True (one_fd 5 2050) =
      (Inr (), (one_fd 5 2050)\<lparr>w_os := fl\<rparr>) \<and> \<not> bit fl 11 \<and> bit fl 1"
  using set_blocking_flags [OF one_fd_simps(2) refl, of flag_file 5 2050 2050 2050 True]
  by (auto simp: flag_file_def int_ok_def)

end
