(* ===== verification/Address.thy ===== *)
theory Address
  imports Sponge_System Net_Parser
begin

unbundle bit_operations_syntax

text \<open>
  \<open>Address\<close> of \<open>libsponge/util/address.hh\<close> and \<open>libsponge/util/address.cc\<close>: a socket address of any family, as
  raw bytes.  The wrapped \<open>sockaddr_storage\<close> is its 128 bytes in memory; a \<open>sockaddr_in\<close> is laid out in
  16 of them as on little-endian Linux.  The resolver is part of the kernel parameter.
\<close>

section \<open>Bytes in memory\<close>

text \<open>A word is stored with its least significant byte first; \<open>htobe32\<close> and \<open>be32toh\<close> swap the bytes.\<close>

definition le_bytes :: "'a::len word \<Rightarrow> string" where
  "le_bytes w = rev (net_bytes w)"

fun le_word :: "string \<Rightarrow> 'a::len word" where
  "le_word [] = 0"
| "le_word (c # cs) = ucast (uint8_of_char c) OR push_bit 8 (le_word cs)"

definition bswap32 :: "uint32_t \<Rightarrow> uint32_t" where
  "bswap32 w = push_bit 24 (w AND 0xff) OR push_bit 8 (w AND 0xff00) OR
     (drop_bit 8 w AND 0xff00) OR (drop_bit 24 w AND 0xff)"

definition htobe32 :: "uint32_t \<Rightarrow> uint32_t" where
  "htobe32 w = bswap32 w"

definition be32toh :: "uint32_t \<Rightarrow> uint32_t" where
  "be32toh w = bswap32 w"

record sockaddr_in =
  sin_family :: uint16_t
  sin_port :: uint16_t
  sin_addr :: uint32_t
  sin_zero :: string

definition sockaddr_in_zero :: sockaddr_in where
  "sockaddr_in_zero = \<lparr>sin_family = 0, sin_port = 0, sin_addr = 0, sin_zero = replicate 8 (CHR 0x00)\<rparr>"

definition sockaddr_in_bytes :: "sockaddr_in \<Rightarrow> string" where
  "sockaddr_in_bytes a = le_bytes (sin_family a) @ le_bytes (sin_port a) @ le_bytes (sin_addr a) @ sin_zero a"

definition sockaddr_in_of_bytes :: "string \<Rightarrow> sockaddr_in" where
  "sockaddr_in_of_bytes b = \<lparr>sin_family = le_word (take 2 b), sin_port = le_word (take 2 (drop 2 b)),
     sin_addr = le_word (take 4 (drop 4 b)), sin_zero = take 8 (drop 8 b)\<rparr>"

section \<open>The class\<close>

definition sizeof_storage :: nat where
  "sizeof_storage = 128"

record Address =
  addr_size :: socklen_t
  addr_storage :: string

definition Raw_zero :: string where
  "Raw_zero = replicate sizeof_storage (CHR 0x00)"

text \<open>\<open>Address(const sockaddr *addr, size_t size)\<close>: \<open>addr\<close> is the memory the pointer leads to, from which
  \<open>memcpy\<close> reads \<open>size\<close> bytes.\<close>

definition Address_of_sockaddr :: "string \<Rightarrow> size_t \<Rightarrow> Address result" where
  "Address_of_sockaddr addr sz =
     (if of_nat sizeof_storage < sz then Inl (runtime_error ''invalid sockaddr size'')
      else if length addr < unat sz then Inl (Undefined OutOfBounds)
      else Inr \<lparr>addr_size = ucast sz, addr_storage = overlay Raw_zero (take (unat sz) addr)\<rparr>)"

text \<open>\<open>make_hints\<close>: every other field is zero.\<close>

definition make_hints :: "int \<Rightarrow> int \<Rightarrow> addrinfo" where
  "make_hints flags family = \<lparr>ai_flags = flags, ai_family = family, ai_socktype = 0, ai_protocol = 0,
     ai_addrlen = 0, ai_addr = []\<rparr>"

text \<open>The private constructor that resolves: the results are a list, of which the first is taken.\<close>

definition Address_resolve :: "('k, 'z) kernel_scheme \<Rightarrow> string \<Rightarrow> string \<Rightarrow> addrinfo \<Rightarrow> ('k world, Address) act" where
  "Address_resolve K node service hints =
     bindS (osS (os_getaddrinfo K (c_str node) (c_str service) hints)) (\<lambda>(gai_ret, resolved).
       if gai_ret \<noteq> 0 then
         throwS (tagged_error gai_error_category
           (''getaddrinfo('' @ node @ '', '' @ service @ '')'') gai_ret)
       else case resolved of
           [] \<Rightarrow> throwS (runtime_error ''getaddrinfo returned successfully but with no results'')
         | r # _ \<Rightarrow> liftS (Address_of_sockaddr (ai_addr r) (ucast (ai_addrlen r))))"

definition Address_of_host :: "('k, 'z) kernel_scheme \<Rightarrow> string \<Rightarrow> string \<Rightarrow> ('k world, Address) act" where
  "Address_of_host K hostname service = Address_resolve K hostname service (make_hints AI_ALL AF_INET)"

definition Address_of_ip :: "('k, 'z) kernel_scheme \<Rightarrow> string \<Rightarrow> uint16_t \<Rightarrow> ('k world, Address) act" where
  "Address_of_ip K ip port =
     Address_resolve K ip (to_string (uint port)) (make_hints (AI_NUMERICHOST OR AI_NUMERICSERV) AF_INET)"

text \<open>\<open>_address\<close> as a \<open>sockaddr *\<close> with its size: the bytes a callee may read.\<close>

definition addr_bytes :: "Address \<Rightarrow> string" where
  "addr_bytes a = take (unat (addr_size a)) (addr_storage a)"

definition Address_ip_port :: "('k, 'z) kernel_scheme \<Rightarrow> Address \<Rightarrow> ('k world, string \<times> uint16_t) act" where
  "Address_ip_port K a =
     bindS (osS (os_getnameinfo K (addr_bytes a) NI_MAXHOST NI_MAXSERV (NI_NUMERICHOST OR NI_NUMERICSERV)))
       (\<lambda>(gni_ret, ip, port).
       if gni_ret \<noteq> 0 then throwS (tagged_error gai_error_category ''getnameinfo'' gni_ret)
       else bindS (liftS (stoi (c_str port))) (\<lambda>p. retS (c_str ip, of_int p)))"

definition Address_ip :: "('k, 'z) kernel_scheme \<Rightarrow> Address \<Rightarrow> ('k world, string) act" where
  "Address_ip K a = bindS (Address_ip_port K a) (\<lambda>r. retS (fst r))"

definition Address_port :: "('k, 'z) kernel_scheme \<Rightarrow> Address \<Rightarrow> ('k world, uint16_t) act" where
  "Address_port K a = bindS (Address_ip_port K a) (\<lambda>r. retS (snd r))"

definition Address_to_string :: "('k, 'z) kernel_scheme \<Rightarrow> Address \<Rightarrow> ('k world, string) act" where
  "Address_to_string K a =
     bindS (Address_ip_port K a) (\<lambda>(ip, port). retS (ip @ '':'' @ to_string (uint port)))"

text \<open>The family is the first member of the storage.\<close>

definition ss_family :: "string \<Rightarrow> uint16_t" where
  "ss_family st = le_word (take 2 st)"

definition Address_ipv4_numeric :: "Address \<Rightarrow> uint32_t result" where
  "Address_ipv4_numeric a =
     (if ss_family (addr_storage a) \<noteq> of_int AF_INET \<or> addr_size a \<noteq> 16 then
        Inl (runtime_error ''ipv4_numeric called on non-IPV4 address'')
      else
        let ipv4_addr = sockaddr_in_of_bytes
              (overlay (sockaddr_in_bytes sockaddr_in_zero) (take (unat (addr_size a)) (addr_storage a))) in
        Inr (be32toh (sin_addr ipv4_addr)))"

definition Address_from_ipv4_numeric :: "uint32_t \<Rightarrow> Address result" where
  "Address_from_ipv4_numeric ip_address =
     (let ipv4_addr = sockaddr_in_zero\<lparr>sin_family := of_int AF_INET, sin_addr := htobe32 ip_address\<rparr> in
      Address_of_sockaddr (sockaddr_in_bytes ipv4_addr) 16)"

definition Address_size :: "Address \<Rightarrow> socklen_t" where
  "Address_size a = addr_size a"

text \<open>The conversion to \<open>const sockaddr *\<close>: the memory of the address.\<close>

definition Address_sockaddr :: "Address \<Rightarrow> string" where
  "Address_sockaddr a = addr_storage a"

declare Address_size_def [simp] Address_sockaddr_def [simp]

definition Address_eq :: "Address \<Rightarrow> Address \<Rightarrow> bool" where
  "Address_eq a b \<longleftrightarrow>
     (if addr_size a \<noteq> addr_size b then False
      else take (unat (addr_size a)) (addr_storage a) = take (unat (addr_size a)) (addr_storage b))"

definition Address_ne :: "Address \<Rightarrow> Address \<Rightarrow> bool" where
  "Address_ne a b \<longleftrightarrow> \<not> Address_eq a b"

section \<open>Lemmas\<close>

text \<open>An address keeps 128 bytes of storage, of which at most all are in use.\<close>

definition addr_ok :: "Address \<Rightarrow> bool" where
  "addr_ok a \<longleftrightarrow> length (addr_storage a) = sizeof_storage \<and> unat (addr_size a) \<le> sizeof_storage"

lemma length_Raw_zero [simp]: "length Raw_zero = 128"
  by (simp add: Raw_zero_def sizeof_storage_def)

lemma of_sockaddr_ok:
  assumes "unat sz \<le> 128" and "unat sz \<le> length addr"
  shows "\<exists>a. Address_of_sockaddr addr sz = Inr a \<and> addr_ok a \<and> unat (addr_size a) = unat sz \<and>
           addr_bytes a = take (unat sz) addr \<and>
           addr_storage a = take (unat sz) addr @ replicate (128 - unat sz) (CHR 0x00)"
proof -
  have u: "unat (ucast sz :: socklen_t) = unat sz"
    using assms(1) by (simp add: unsigned_ucast_eq take_bit_nat_eq_self)
  have "\<not> of_nat sizeof_storage < sz"
    using assms(1) by (simp add: word_less_nat_alt sizeof_storage_def)
  then show ?thesis
    using assms u
    by (simp add: Address_of_sockaddr_def addr_ok_def addr_bytes_def sizeof_storage_def overlay_def min_def
        Raw_zero_def)
qed

lemma Address_eq_iff:
  assumes "addr_ok a" and "addr_ok b"
  shows "Address_eq a b \<longleftrightarrow> addr_bytes a = addr_bytes b"
proof -
  have "length (addr_bytes a) = unat (addr_size a)" "length (addr_bytes b) = unat (addr_size b)"
    using assms by (simp_all add: addr_bytes_def addr_ok_def)
  then have "addr_bytes a = addr_bytes b \<Longrightarrow> addr_size a = addr_size b"
    by (metis word_unat_eq_iff)
  then show ?thesis
    by (auto simp: Address_eq_def addr_bytes_def)
qed

lemma bit_le_word:
  "bit (le_word cs :: 'a::len word) n \<longleftrightarrow>
     n < LENGTH('a) \<and> n div 8 < length cs \<and> bit (uint8_of_char (cs ! (n div 8))) (n mod 8)"
proof (induction cs arbitrary: n)
  case (Cons c cs)
  show ?case
  proof (cases "n < 8")
    case True
    then show ?thesis by (auto simp: bit_simps)
  next
    case False
    then have d: "n div 8 = Suc ((n - 8) div 8)" "(n - 8) mod 8 = n mod 8"
      by (simp_all add: le_div_geq le_mod_geq)
    have "\<not> bit (uint8_of_char c) n"
      using False by (auto dest: bit_imp_le_length)
    with False Cons [of "n - 8"] d show ?thesis
      by (auto simp: bit_simps)
  qed
qed simp

lemma le_word_le_bytes:
  assumes "LENGTH('a::len) div 8 * 8 = LENGTH('a)"
  shows "le_word (le_bytes (w :: 'a word)) = w"
proof (rule bit_word_eqI)
  fix n assume n: "n < LENGTH('a)"
  let ?k = "LENGTH('a) div 8"
  have i: "n div 8 < ?k"
    using n assms by (metis less_mult_imp_div_less)
  then have "le_bytes w ! (n div 8) = char_of_uint8 (net_byte ?k w (?k - Suc (n div 8)))"
    by (simp add: le_bytes_def rev_nth nth_net_bytes)
  moreover have "?k - (?k - Suc (n div 8)) - 1 = n div 8"
    using i by simp
  ultimately show "bit (le_word (le_bytes w) :: 'a word) n = bit w n"
    using n i by (simp add: bit_le_word net_byte_def bit_simps le_bytes_def)
qed

lemma length_le_bytes [simp]: "length (le_bytes (w :: 'a::len word)) = LENGTH('a) div 8"
  by (simp add: le_bytes_def)

lemma bit_255: "bit (255 :: 'a::len word) n \<longleftrightarrow> n < LENGTH('a) \<and> n < 8"
proof -
  have "(255 :: 'a word) = mask 8"
    by (simp add: mask_eq_exp_minus_1)
  then show ?thesis
    by (simp only: bit_mask_iff) (auto simp: min_def)
qed

lemma bit_65280: "bit (65280 :: 'a::len word) n \<longleftrightarrow> n < LENGTH('a) \<and> 8 \<le> n \<and> n < 16"
proof -
  have "(65280 :: 'a word) = push_bit 8 255"
    by (simp add: push_bit_eq_mult)
  then show ?thesis
    by (simp only: bit_push_bit_iff bit_255) auto
qed

lemma bit_bswap32: "bit (bswap32 w) n \<longleftrightarrow>
    (if n < 8 then bit w (n + 24) else if n < 16 then bit w (n + 8)
     else if n < 24 then bit w (n - 8) else n < 32 \<and> bit w (n - 24))"
  unfolding bswap32_def
  by (simp only: bit_or_iff bit_and_iff bit_push_bit_iff bit_drop_bit_eq bit_255 bit_65280)
   (auto simp: add.commute dest: bit_imp_le_length)

lemma bswap32_bswap32 [simp]: "bswap32 (bswap32 w) = w"
  by (rule bit_word_eqI) (auto simp: bit_bswap32)
section \<open>IPv4 addresses\<close>

text \<open>The \<open>sockaddr_in\<close> of an address and a port, both given in host order, and the dotted quad.\<close>

definition bswap16 :: "uint16_t \<Rightarrow> uint16_t" where
  "bswap16 w = push_bit 8 w OR drop_bit 8 w"

definition ipv4_sockaddr :: "uint32_t \<Rightarrow> uint16_t \<Rightarrow> sockaddr_in" where
  "ipv4_sockaddr ip port = sockaddr_in_zero\<lparr>sin_family := of_int AF_INET, sin_port := bswap16 port,
     sin_addr := htobe32 ip\<rparr>"

definition dotted :: "uint32_t \<Rightarrow> string" where
  "dotted ip = decimal (unat (drop_bit 24 ip)) @ ''.'' @ decimal (unat (drop_bit 16 ip AND 255)) @ ''.'' @
     decimal (unat (drop_bit 8 ip AND 255)) @ ''.'' @ decimal (unat (ip AND 255))"

lemma length_sockaddr_in_bytes [simp]: "length (sockaddr_in_bytes (ipv4_sockaddr ip port)) = 16"
  by (simp add: sockaddr_in_bytes_def ipv4_sockaddr_def sockaddr_in_zero_def)

lemma sockaddr_in_of_ipv4:
  "sockaddr_in_of_bytes (sockaddr_in_bytes (ipv4_sockaddr ip port)) = ipv4_sockaddr ip port"
  by (simp add: sockaddr_in_of_bytes_def sockaddr_in_bytes_def ipv4_sockaddr_def sockaddr_in_zero_def
      le_word_le_bytes)

lemma le_bytes_htobe32: "le_bytes (htobe32 ip) = NetUnparser_u32 [] ip"
proof -
  have "net_byte 4 (bswap32 ip) 3 = net_byte 4 ip 0" "net_byte 4 (bswap32 ip) 2 = net_byte 4 ip 1"
    "net_byte 4 (bswap32 ip) 1 = net_byte 4 ip 2" "net_byte 4 (bswap32 ip) 0 = net_byte 4 ip 3"
    by (rule bit_word_eqI; simp add: net_byte_def bit_simps bit_bswap32 add.commute)+
  then show ?thesis
    by (simp add: le_bytes_def htobe32_def codec_defs net_bytes_def upt_rec [of _ 4] flip: numeral_2_eq_2 numeral_3_eq_3)
qed

lemma ipv4_address:
  assumes "addr = sockaddr_in_bytes (ipv4_sockaddr ip port)"
  shows "\<exists>a. Address_of_sockaddr addr 16 = Inr a \<and> addr_ok a \<and> addr_bytes a = addr \<and>
           Address_ipv4_numeric a = Inr ip"
proof -
  obtain a where a: "Address_of_sockaddr addr 16 = Inr a" "addr_ok a" "unat (addr_size a) = 16"
      "addr_bytes a = addr" "addr_storage a = addr @ replicate 112 (CHR 0x00)"
    using of_sockaddr_ok [of 16 addr] assms by auto
  have sz: "addr_size a = 16"
    using a(3) by (simp add: word_unat_eq_iff)
  have "take 2 addr = le_bytes (2 :: uint16_t)"
    using assms by (simp add: sockaddr_in_bytes_def ipv4_sockaddr_def)
  then have fam: "ss_family (addr_storage a) = 2"
    using a(5) assms by (simp add: ss_family_def le_word_le_bytes)
  have "overlay (sockaddr_in_bytes sockaddr_in_zero) addr = addr"
    using assms by (simp add: overlay_def sockaddr_in_bytes_def sockaddr_in_zero_def ipv4_sockaddr_def)
  moreover have "take 16 (addr_storage a) = addr"
    using a(5) assms by simp
  moreover have "sin_addr (sockaddr_in_of_bytes addr) = bswap32 ip"
    unfolding assms sockaddr_in_of_ipv4 by (simp add: ipv4_sockaddr_def htobe32_def)
  ultimately have "Address_ipv4_numeric a = Inr ip"
    using fam sz by (simp add: Address_ipv4_numeric_def Let_def be32toh_def)
  with a show ?thesis by blast
qed

lemma from_ipv4_numeric_eq:
  "Address_from_ipv4_numeric ip = Address_of_sockaddr (sockaddr_in_bytes (ipv4_sockaddr ip 0)) 16"
  by (simp add: Address_from_ipv4_numeric_def ipv4_sockaddr_def sockaddr_in_zero_def bswap16_def)

lemma c_str_no_null: "CHR 0x00 \<notin> set s \<Longrightarrow> c_str s = s"
  by (auto simp: c_str_def takeWhile_eq_all_conv)

lemma decimal_no_null: "CHR 0x00 \<notin> set (decimal n)"
  using decimal_digits [of n] by (auto simp: list_all_iff isdigit_def)

lemma c_str_decimal [simp]: "c_str (decimal n) = decimal n" "c_str (dotted ip) = dotted ip"
  by (simp_all add: c_str_no_null decimal_no_null dotted_def)

section \<open>Properties\<close>

text \<open>C32. An address made from a 32-bit number gives the number back, holds it in network byte order at bytes
  4 to 7 of the \<open>sockaddr_in\<close>, and two of them are equal exactly when the numbers are.\<close>

theorem ipv4_numeric_roundtrip:
  "\<exists>a b. Address_from_ipv4_numeric ip = Inr a \<and> Address_from_ipv4_numeric ip' = Inr b \<and>
     addr_ok a \<and> Address_ipv4_numeric a = Inr ip \<and>
     take 4 (drop 4 (addr_bytes a)) = NetUnparser_u32 [] ip \<and> (Address_eq a b \<longleftrightarrow> ip = ip')"
proof -
  obtain a b where a: "Address_from_ipv4_numeric ip = Inr a" "addr_ok a"
      "addr_bytes a = sockaddr_in_bytes (ipv4_sockaddr ip 0)" "Address_ipv4_numeric a = Inr ip"
    and b: "Address_from_ipv4_numeric ip' = Inr b" "addr_ok b"
      "addr_bytes b = sockaddr_in_bytes (ipv4_sockaddr ip' 0)"
    using ipv4_address [OF refl, of ip 0] ipv4_address [OF refl, of ip' 0] from_ipv4_numeric_eq by auto
  have "take 4 (drop 4 (addr_bytes a)) = le_bytes (htobe32 ip)"
    unfolding a(3) by (simp add: sockaddr_in_bytes_def ipv4_sockaddr_def)
  moreover have "Address_eq a b \<longleftrightarrow> ip = ip'"
    unfolding Address_eq_iff [OF a(2) b(2)] a(3) b(3)
    by (metis a(1,4) b(1) from_ipv4_numeric_eq ipv4_address sum.inject(2))
  ultimately show ?thesis
    using a b(1) by (intro exI [of _ a] exI [of _ b]) (simp add: le_bytes_htobe32)
qed

text \<open>C34. A raw address of any family is kept exactly: up to 128 bytes the constructor stores the bytes given
  and zeros after them, beyond that it throws, and two addresses are equal, and not unequal, exactly when
  they were made from the same bytes.\<close>

theorem address_of_sockaddr:
  assumes "unat sz \<le> length addr" and "unat sz' \<le> length addr'"
  shows "if unat sz \<le> 128 then
           \<exists>a. Address_of_sockaddr addr sz = Inr a \<and> addr_ok a \<and>
             addr_storage a = take (unat sz) addr @ replicate (128 - unat sz) (CHR 0x00) \<and>
             (\<forall>b. Address_of_sockaddr addr' sz' = Inr b \<longrightarrow>
                Address_eq a b = (take (unat sz) addr = take (unat sz') addr') \<and>
                Address_ne a b = (take (unat sz) addr \<noteq> take (unat sz') addr'))
         else Address_of_sockaddr addr sz = Inl (runtime_error ''invalid sockaddr size'')"
proof (cases "unat sz \<le> 128")
  case True
  from of_sockaddr_ok [OF True assms(1)] obtain a where a: "Address_of_sockaddr addr sz = Inr a" "addr_ok a"
    "addr_bytes a = take (unat sz) addr"
    "addr_storage a = take (unat sz) addr @ replicate (128 - unat sz) (CHR 0x00)" by blast
  have "Address_eq a b = (take (unat sz) addr = take (unat sz') addr')"
    if b: "Address_of_sockaddr addr' sz' = Inr b" for b
  proof -
    have "unat sz' \<le> 128"
      using b by (auto simp: Address_of_sockaddr_def sizeof_storage_def word_less_nat_alt split: if_splits)
    from of_sockaddr_ok [OF this assms(2)] b have "addr_ok b" "addr_bytes b = take (unat sz') addr'"
      by auto
    with a show ?thesis by (simp add: Address_eq_iff)
  qed
  with a True show ?thesis by (simp add: Address_ne_def)
next
  case False
  then show ?thesis by (simp add: Address_of_sockaddr_def sizeof_storage_def word_less_nat_alt)
qed

theorem address_of_sockaddr_witness:
  "(\<exists>a. Address_of_sockaddr ''abc'' 2 = Inr a \<and> addr_storage a = ''ab'' @ replicate 126 (CHR 0x00)) \<and>
   Address_of_sockaddr (replicate 200 (CHR ''x'')) 129 = Inl (runtime_error ''invalid sockaddr size'')"
  using address_of_sockaddr [of 2 "''abc''" 0 "[]"]
    address_of_sockaddr [of 129 "replicate 200 (CHR ''x'')" 0 "[]"]
  by auto

text \<open>A resolver that converts numeric strings, both ways.\<close>

lemma to_string_port: "to_string (uint (port :: uint16_t)) = decimal (unat port)"
  by (simp add: to_string_def)

lemma ipv4_ip_port:
  assumes "addr_bytes a = sockaddr_in_bytes (ipv4_sockaddr ip port)"
    and "\<And>k. os_getnameinfo K (sockaddr_in_bytes (ipv4_sockaddr ip port)) NI_MAXHOST NI_MAXSERV
      (NI_NUMERICHOST OR NI_NUMERICSERV) k = ((0, dotted ip, to_string (uint port)), k)"
  shows "Address_ip_port K a w = (Inr (dotted ip, port), w)"
proof -
  have "uint port < 65536"
    using uint_lt2p [of port] by simp
  then have "int_ok (uint port)"
    using uint_ge_0 [of port] by (intro int_okI) linarith+
  then have "stoi (decimal (unat port)) = Inr (uint port)"
    using stoi_to_string [of "uint port"] by (simp add: to_string_port)
  then show ?thesis
    using assms unfolding to_string_port by (simp add: Address_ip_port_def bindS_run)
qed

lemma Address_of_ip_run:
  assumes "os_getaddrinfo K (dotted ip) (to_string (uint port))
      (make_hints (AI_NUMERICHOST OR AI_NUMERICSERV) AF_INET) (w_os w) = ((0, r # rs), k)"
    and "ai_addr r = sockaddr_in_bytes (ipv4_sockaddr ip port)" and "ai_addrlen r = 16"
  shows "\<exists>a. Address_of_ip K (dotted ip) port w = (Inr a, w\<lparr>w_os := k\<rparr>) \<and> addr_bytes a = ai_addr r \<and>
    Address_ipv4_numeric a = Inr ip \<and> addr_ok a"
proof -
  obtain a where a: "Address_of_sockaddr (ai_addr r) 16 = Inr a" "addr_bytes a = ai_addr r"
      "Address_ipv4_numeric a = Inr ip" "addr_ok a"
    using ipv4_address [OF assms(2)] by blast
  have "Address_of_ip K (dotted ip) port w = (Inr a, w\<lparr>w_os := k\<rparr>)"
    using assms(1,3) a(1) unfolding to_string_port
    by (simp add: Address_of_ip_def Address_resolve_def bindS_run to_string_port)
  with a(2-4) show ?thesis by blast
qed

text \<open>C33. An address given as a dotted quad and a port prints as that quad and port: with a resolver that
  turns the numeric strings into the \<open>sockaddr_in\<close> they denote and back, constructing the address asks
  it for numeric conversion only, \<open>ip_port\<close> and \<open>to_string\<close> return what was given, and
  \<open>ipv4_numeric\<close> the number.\<close>

theorem address_numeric_strings:
  assumes "os_getaddrinfo K (dotted ip) (to_string (uint port))
      (make_hints (AI_NUMERICHOST OR AI_NUMERICSERV) AF_INET) (w_os w) = ((0, r # rs), k)"
    and "ai_addr r = sockaddr_in_bytes (ipv4_sockaddr ip port)" and "ai_addrlen r = 16"
    and "\<And>k. os_getnameinfo K (sockaddr_in_bytes (ipv4_sockaddr ip port)) NI_MAXHOST NI_MAXSERV
      (NI_NUMERICHOST OR NI_NUMERICSERV) k = ((0, dotted ip, to_string (uint port)), k)"
  shows "\<exists>a. Address_of_ip K (dotted ip) port w = (Inr a, w\<lparr>w_os := k\<rparr>) \<and>
     Address_ip_port K a w' = (Inr (dotted ip, port), w') \<and>
     Address_to_string K a w' = (Inr (dotted ip @ '':'' @ to_string (uint port)), w') \<and>
     Address_ipv4_numeric a = Inr ip"
proof -
  obtain a where a: "Address_of_ip K (dotted ip) port w = (Inr a, w\<lparr>w_os := k\<rparr>)" "addr_bytes a = ai_addr r"
      "Address_ipv4_numeric a = Inr ip"
    using Address_of_ip_run [OF assms(1-3)] by blast
  have "Address_ip_port K a w' = (Inr (dotted ip, port), w')"
    using ipv4_ip_port [of a ip port K] a(2) assms(2,4) by simp
  with a(1,3) show ?thesis
    by (intro exI [of _ a]) (simp add: Address_to_string_def bindS_run)
qed

definition dns_instance :: "unit kernel" where
  "dns_instance = failing_kernel\<lparr>
     os_getaddrinfo := (\<lambda>node service hints k. ((0, [(make_hints 0 AF_INET)\<lparr>ai_addrlen := 16,
        ai_addr := sockaddr_in_bytes (ipv4_sockaddr 0x08080808 53)\<rparr>]), k)),
     os_getnameinfo := (\<lambda>a hl sl flags k. ((0, dotted 0x08080808, to_string 53), k))\<rparr>"

theorem address_numeric_strings_witness:
  "\<exists>a. Address_of_ip dns_instance (dotted 0x08080808) 53 (fresh_world ()) = (Inr a, fresh_world ()) \<and>
     Address_to_string dns_instance a (fresh_world ()) = (Inr ''8.8.8.8:53'', fresh_world ()) \<and>
     Address_ipv4_numeric a = Inr 0x08080808"
proof -
  have "dotted 0x08080808 @ '':'' @ to_string (uint (53 :: uint16_t)) = ''8.8.8.8:53''"
    by (simp add: dotted_def to_string_def decimal.simps digit_char_def char_of_def bit_0)
  moreover have "\<exists>a. Address_of_ip dns_instance (dotted 0x08080808) 53 (fresh_world ())
        = (Inr a, (fresh_world ())\<lparr>w_os := ()\<rparr>) \<and>
      Address_ip_port dns_instance a (fresh_world ()) = (Inr (dotted 0x08080808, 53), fresh_world ()) \<and>
      Address_to_string dns_instance a (fresh_world ())
        = (Inr (dotted 0x08080808 @ '':'' @ to_string (uint (53 :: uint16_t))), fresh_world ()) \<and>
      Address_ipv4_numeric a = Inr 0x08080808"
    by (rule address_numeric_strings) (simp add: dns_instance_def, simp_all add: dns_instance_def)
  ultimately show ?thesis by auto
qed

text \<open>A name that does not resolve is an error that names what was looked up: the exception carries the
  resolver's code in the category of the resolver, its text is the attempt and the resolver's message,
  and a resolver that succeeds without a result is refused too.\<close>

theorem address_resolve_errors:
  assumes "os_getaddrinfo K (c_str host) (c_str service) (make_hints AI_ALL AF_INET) (w_os w) = ((ret, rs), k)"
    and "ret \<noteq> 0 \<or> rs = []"
  shows "\<exists>e. Address_of_host K host service w = (Inl e, w\<lparr>w_os := k\<rparr>) \<and>
    exn_what K e = (if ret \<noteq> 0 then ''getaddrinfo('' @ host @ '', '' @ service @ ''): '' @ os_gai_strerror K ret
      else ''getaddrinfo returned successfully but with no results'')"
  using assms by (auto simp: Address_of_host_def Address_resolve_def bindS_run)

theorem address_resolve_errors_witness:
  "\<exists>e. Address_of_host failing_kernel ''nowhere'' ''http'' (fresh_world ()) = (Inl e, fresh_world ()) \<and>
     exn_what (failing_kernel :: unit kernel) e = ''getaddrinfo(nowhere, http): Name or service not known''"
  using address_resolve_errors [of failing_kernel "''nowhere''" "''http''" "fresh_world ()" "-2" "[]" "()"]
  by (simp add: failing_kernel_def)

end
