(* ===== verification/Sockets.thy ===== *)
theory Sockets
  imports File_Descriptor Address
begin

unbundle bit_operations_syntax

text \<open>
  The sockets of \<open>libsponge/util/socket.hh\<close> and \<open>libsponge/util/socket.cc\<close> and the TUN and TAP devices of
  \<open>libsponge/util/tun.hh\<close> and \<open>libsponge/util/tun.cc\<close>.  A socket is a \<open>FileDescriptor\<close>; a constructor that
  throws destroys the base object it has already built.
\<close>

section \<open>Constructors that throw\<close>

text \<open>\<open>on_throw m cleanup\<close>: when \<open>m\<close> throws, \<open>cleanup\<close> runs and the exception goes on.\<close>

definition on_throw :: "('s, 'a) act \<Rightarrow> ('s, unit) act \<Rightarrow> ('s, 'a) act" where
  "on_throw m cleanup = catchS m (\<lambda>e. seqS cleanup (throwS e))"

lemma on_throw_run:
  "m s = (Inr x, s') \<Longrightarrow> on_throw m cleanup s = (Inr x, s')"
  "m s = (Inl (runtime_error t), s') \<Longrightarrow> on_throw m cleanup s = seqS cleanup (throwS (runtime_error t)) s'"
  "m s = (Inl (unix_error t n), s') \<Longrightarrow> on_throw m cleanup s = seqS cleanup (throwS (unix_error t n)) s'"
  by (simp_all add: on_throw_def catchS_def)

section \<open>Socket\<close>

definition Socket_new :: "('k, 'z) kernel_scheme \<Rightarrow> int \<Rightarrow> int \<Rightarrow> ('k world, FileDescriptor) act" where
  "Socket_new K domain type = bindS (syscall K ''socket'' (os_socket K domain type 0)) FileDescriptor_new"

text \<open>One \<open>getsockopt\<close> of an \<open>int\<close>, with the length it reports.  The local variable \<open>actual_value\<close> has no value until a call that
  does not fail stores one; what follows reads it only if the length is right.\<close>

definition socket_option ::
  "('k, 'z) kernel_scheme \<Rightarrow> int \<Rightarrow> int \<Rightarrow> int option \<Rightarrow> ('k world, int option \<times> socklen_t) act" where
  "socket_option K fd option actual_value =
     bindS (osS (os_getsockopt K fd SOL_SOCKET option 4)) (\<lambda>(r, value, len).
     seqS (SystemCall K ''getsockopt'' (to_int r) 0)
       (retS (if to_int r < 0 then actual_value else Some value, len)))"

definition option_differs :: "int option \<Rightarrow> socklen_t \<Rightarrow> int \<Rightarrow> bool result" where
  "option_differs actual_value len expected =
     (if len \<noteq> 4 then Inr True
      else case actual_value of None \<Rightarrow> Inl (Undefined Uninitialized) | Some value \<Rightarrow> Inr (value \<noteq> expected))"

definition Socket_of_fd :: "('k, 'z) kernel_scheme \<Rightarrow> FileDescriptor \<Rightarrow> int \<Rightarrow> int \<Rightarrow> ('k world, FileDescriptor) act" where
  "Socket_of_fd K f domain type =
     on_throw
       (bindS (FileDescriptor_fd_num f) (\<lambda>fd.
        bindS (socket_option K fd SO_DOMAIN None) (\<lambda>(actual_value, len).
        bindS (liftS (option_differs actual_value len domain)) (\<lambda>differs.
        if differs then throwS (runtime_error ''socket domain mismatch'')
        else
        bindS (socket_option K fd SO_TYPE actual_value) (\<lambda>(actual_value, len).
        bindS (liftS (option_differs actual_value len type)) (\<lambda>differs.
        if differs then throwS (runtime_error ''socket type mismatch'')
        else retS f))))))
       (FileDescriptor_destroy K f)"

text \<open>\<open>function\<close> is \<open>getsockname\<close> or \<open>getpeername\<close>: it fills in the raw address and the size.\<close>

definition Socket_get_address ::
  "('k, 'z) kernel_scheme \<Rightarrow> FileDescriptor \<Rightarrow> string \<Rightarrow>
    (int \<Rightarrow> socklen_t \<Rightarrow> 'k \<Rightarrow> (int \<times> string \<times> socklen_t) \<times> 'k) \<Rightarrow> ('k world, Address) act" where
  "Socket_get_address K f name_of_function call =
     bindS (FileDescriptor_fd_num f) (\<lambda>fd.
     bindS (osS (call fd (of_nat sizeof_storage))) (\<lambda>(r, raw, size').
     seqS (SystemCall K name_of_function (to_int r) 0)
       (liftS (Address_of_sockaddr (overlay Raw_zero raw) (ucast size')))))"

definition Socket_local_address :: "('k, 'z) kernel_scheme \<Rightarrow> FileDescriptor \<Rightarrow> ('k world, Address) act" where
  "Socket_local_address K f = Socket_get_address K f ''getsockname'' (os_getsockname K)"

definition Socket_peer_address :: "('k, 'z) kernel_scheme \<Rightarrow> FileDescriptor \<Rightarrow> ('k world, Address) act" where
  "Socket_peer_address K f = Socket_get_address K f ''getpeername'' (os_getpeername K)"

definition Socket_bind :: "('k, 'z) kernel_scheme \<Rightarrow> FileDescriptor \<Rightarrow> Address \<Rightarrow> ('k world, unit) act" where
  "Socket_bind K f a =
     bindS (FileDescriptor_fd_num f) (\<lambda>fd.
     seqS (syscall K ''bind'' (os_bind K fd (Address_sockaddr a) (Address_size a))) (retS ()))"

definition Socket_connect :: "('k, 'z) kernel_scheme \<Rightarrow> FileDescriptor \<Rightarrow> Address \<Rightarrow> ('k world, unit) act" where
  "Socket_connect K f a =
     bindS (FileDescriptor_fd_num f) (\<lambda>fd.
     seqS (syscall K ''connect'' (os_connect K fd (Address_sockaddr a) (Address_size a))) (retS ()))"

definition Socket_shutdown :: "('k, 'z) kernel_scheme \<Rightarrow> FileDescriptor \<Rightarrow> int \<Rightarrow> ('k world, unit) act" where
  "Socket_shutdown K f how =
     bindS (FileDescriptor_fd_num f) (\<lambda>fd.
     seqS (syscall K ''shutdown'' (os_shutdown K fd how))
       (if how = SHUT_RD then register_read f
        else if how = SHUT_WR then register_write f
        else if how = SHUT_RDWR then seqS (register_read f) (register_write f)
        else throwS (runtime_error ''Socket::shutdown() called with invalid `how`'')))"

text \<open>\<open>setsockopt<int>\<close>, its one instance.\<close>

definition Socket_setsockopt ::
  "('k, 'z) kernel_scheme \<Rightarrow> FileDescriptor \<Rightarrow> int \<Rightarrow> int \<Rightarrow> int \<Rightarrow> ('k world, unit) act" where
  "Socket_setsockopt K f level option option_value =
     bindS (FileDescriptor_fd_num f) (\<lambda>fd.
     seqS (syscall K ''setsockopt'' (os_setsockopt K fd level option option_value 4)) (retS ()))"

definition Socket_set_reuseaddr :: "('k, 'z) kernel_scheme \<Rightarrow> FileDescriptor \<Rightarrow> ('k world, unit) act" where
  "Socket_set_reuseaddr K f = Socket_setsockopt K f SOL_SOCKET SO_REUSEADDR 1"

section \<open>UDPSocket\<close>

definition UDPSocket_new :: "('k, 'z) kernel_scheme \<Rightarrow> ('k world, FileDescriptor) act" where
  "UDPSocket_new K = Socket_new K AF_INET SOCK_DGRAM"

definition UDPSocket_of_fd :: "('k, 'z) kernel_scheme \<Rightarrow> FileDescriptor \<Rightarrow> ('k world, FileDescriptor) act" where
  "UDPSocket_of_fd K f = Socket_of_fd K f AF_INET SOCK_DGRAM"

record received_datagram =
  dg_source_address :: Address
  dg_payload :: string

definition UDPSocket_recv_into ::
  "('k, 'z) kernel_scheme \<Rightarrow> FileDescriptor \<Rightarrow> received_datagram \<Rightarrow> size_t \<Rightarrow> ('k world, received_datagram) act" where
  "UDPSocket_recv_into K f datagram mtu =
     bindS (liftS (string_resize (dg_payload datagram) mtu)) (\<lambda>payload.
     bindS (FileDescriptor_fd_num f) (\<lambda>fd.
     bindS (osS (os_recvfrom K fd (string_length payload) MSG_TRUNC (of_nat sizeof_storage)))
       (\<lambda>(r, data, source, fromlen).
     bindS (SystemCall K ''recvfrom'' (to_int r) 0) (\<lambda>recv_len.
     if recv_len > sint mtu then throwS (runtime_error ''recvfrom (oversized datagram)'')
     else
       seqS (register_read f)
         (bindS (liftS (Address_of_sockaddr (overlay Raw_zero source) (ucast fromlen))) (\<lambda>a.
          bindS (liftS (string_resize (overlay payload data) (of_int recv_len))) (\<lambda>payload.
            retS \<lparr>dg_source_address = a, dg_payload = payload\<rparr>)))))))"

text \<open>The default argument of both methods \<open>recv\<close>.\<close>

definition default_mtu :: size_t where
  "default_mtu = 65536"

text \<open>\<open>recv(mtu)\<close> starts from an empty datagram whose address is \<open>{nullptr, 0}\<close>.  The definition says what implementations do:
  \<open>memcpy\<close> of no bytes has no effect.  The language, however, does not allow a null pointer there even so, and the
  theorems on the absence of undefined behaviour leave this method out.\<close>

definition UDPSocket_recv :: "('k, 'z) kernel_scheme \<Rightarrow> FileDescriptor \<Rightarrow> size_t \<Rightarrow> ('k world, received_datagram) act" where
  "UDPSocket_recv K f mtu =
     bindS (liftS (Address_of_sockaddr [] 0)) (\<lambda>a.
       UDPSocket_recv_into K f \<lparr>dg_source_address = a, dg_payload = []\<rparr> mtu)"

definition sendmsg_helper ::
  "('k, 'z) kernel_scheme \<Rightarrow> int \<Rightarrow> string option \<Rightarrow> socklen_t \<Rightarrow> BufferViewList \<Rightarrow> ('k world, unit) act" where
  "sendmsg_helper K fd_num destination_address destination_address_len payload =
     (let iovecs = BufferViewList_as_iovecs payload;
          message = \<lparr>msg_name = destination_address, msg_namelen = destination_address_len,
            msg_iov = iovecs, msg_iovlen = of_nat (length iovecs)\<rparr> in
      bindS (syscall K ''sendmsg'' (os_sendmsg K fd_num message 0)) (\<lambda>bytes_sent.
        if (of_int bytes_sent :: size_t) \<noteq> BufferViewList_size payload
        then throwS (runtime_error ''datagram payload too big for sendmsg()'')
        else retS ()))"

definition UDPSocket_sendto ::
  "('k, 'z) kernel_scheme \<Rightarrow> FileDescriptor \<Rightarrow> Address \<Rightarrow> BufferViewList \<Rightarrow> ('k world, unit) act" where
  "UDPSocket_sendto K f destination payload =
     bindS (FileDescriptor_fd_num f) (\<lambda>fd.
     seqS (sendmsg_helper K fd (Some (Address_sockaddr destination)) (Address_size destination) payload)
       (register_write f))"

definition UDPSocket_send :: "('k, 'z) kernel_scheme \<Rightarrow> FileDescriptor \<Rightarrow> BufferViewList \<Rightarrow> ('k world, unit) act" where
  "UDPSocket_send K f payload =
     bindS (FileDescriptor_fd_num f) (\<lambda>fd.
     seqS (sendmsg_helper K fd None 0 payload) (register_write f))"

section \<open>TCPSocket and LocalStreamSocket\<close>

definition TCPSocket_new :: "('k, 'z) kernel_scheme \<Rightarrow> ('k world, FileDescriptor) act" where
  "TCPSocket_new K = Socket_new K AF_INET SOCK_STREAM"

definition TCPSocket_of_fd :: "('k, 'z) kernel_scheme \<Rightarrow> FileDescriptor \<Rightarrow> ('k world, FileDescriptor) act" where
  "TCPSocket_of_fd K f = Socket_of_fd K f AF_INET SOCK_STREAM"

definition TCPSocket_listen :: "('k, 'z) kernel_scheme \<Rightarrow> FileDescriptor \<Rightarrow> int \<Rightarrow> ('k world, unit) act" where
  "TCPSocket_listen K f backlog =
     bindS (FileDescriptor_fd_num f) (\<lambda>fd. seqS (syscall K ''listen'' (os_listen K fd backlog)) (retS ()))"

definition TCPSocket_accept :: "('k, 'z) kernel_scheme \<Rightarrow> FileDescriptor \<Rightarrow> ('k world, FileDescriptor) act" where
  "TCPSocket_accept K f =
     seqS (register_read f)
       (bindS (FileDescriptor_fd_num f) (\<lambda>fd.
        bindS (syscall K ''accept'' (os_accept K fd)) (\<lambda>n.
        bindS (FileDescriptor_new n) (\<lambda>g. TCPSocket_of_fd K g))))"

definition LocalStreamSocket_of_fd :: "('k, 'z) kernel_scheme \<Rightarrow> FileDescriptor \<Rightarrow> ('k world, FileDescriptor) act" where
  "LocalStreamSocket_of_fd K f = Socket_of_fd K f AF_UNIX SOCK_STREAM"

section \<open>TUN and TAP devices\<close>

definition CLONEDEV :: string where
  "CLONEDEV = ''/dev/net/tun''"

text \<open>\<open>strncpy\<close> copies up to \<open>n\<close> characters of a C string and fills the rest with null characters.\<close>

definition strncpy :: "string \<Rightarrow> string \<Rightarrow> nat \<Rightarrow> string" where
  "strncpy dest src n = (let s = take n (c_str src) in s @ replicate (n - length s) (CHR 0x00) @ drop n dest)"

definition tun_request :: "string \<Rightarrow> bool \<Rightarrow> ifreq" where
  "tun_request devname is_tun =
     (let name = strncpy (replicate IFNAMSIZ (CHR 0x00)) devname (IFNAMSIZ - 1) in
      \<lparr>ifr_name = name[IFNAMSIZ - 1 := CHR 0x00], ifr_flags = (if is_tun then 1 else 2) OR 0x1000\<rparr>)"

definition TunTapFD_new :: "('k, 'z) kernel_scheme \<Rightarrow> string \<Rightarrow> bool \<Rightarrow> ('k world, FileDescriptor) act" where
  "TunTapFD_new K devname is_tun =
     bindS (syscall K ''open'' (os_open K CLONEDEV O_RDWR)) (\<lambda>n.
     bindS (FileDescriptor_new n) (\<lambda>f.
       on_throw
         (bindS (FileDescriptor_fd_num f) (\<lambda>fd.
          seqS (syscall K ''ioctl'' (os_ioctl K fd TUNSETIFF (tun_request devname is_tun))) (retS f)))
         (FileDescriptor_destroy K f)))"

definition TunFD_new :: "('k, 'z) kernel_scheme \<Rightarrow> string \<Rightarrow> ('k world, FileDescriptor) act" where
  "TunFD_new K devname = TunTapFD_new K devname True"

definition TapFD_new :: "('k, 'z) kernel_scheme \<Rightarrow> string \<Rightarrow> ('k world, FileDescriptor) act" where
  "TapFD_new K devname = TunTapFD_new K devname False"

section \<open>Lemmas\<close>

lemma fd_num_run: "cell_at w f = Some c \<Longrightarrow> FileDescriptor_fd_num f w = (Inr (fdw_fd (cell_obj c)), w)"
  by (simp add: FileDescriptor_fd_num_def)

text \<open>A constructor that fails after it got a fresh descriptor closes it and passes the exception on.\<close>

lemma on_throw_destroy:
  assumes "cell_at w f = Some c" and "cell_refs c = 1" and "\<not> fdw_closed (cell_obj c)"
    and "os_close K (fdw_fd (cell_obj c)) (w_os w) = (0, k)"
    and "m w0 = (Inl e, w)" and "\<And>u. e \<noteq> Undefined u"
  shows "\<exists>w'. on_throw m (FileDescriptor_destroy K f) w0 = (Inl e, w') \<and> w_os w' = k \<and> cell_at w' f = None"
proof -
  obtain w' where "FileDescriptor_destroy K f w = (Inr (), w')" "w_os w' = k" "cell_at w' f = None"
    using destroy_last [OF assms(1,2), of k K] assms(3,4) by auto
  with assms(5,6) show ?thesis
    by (cases e) (auto simp: on_throw_def catchS_def seqS_run)
qed

lemma new_fd:
  assumes "0 \<le> n"
  shows "FileDescriptor_new n w = (Inr (length (w_heap w)), w\<lparr>w_heap := w_heap w @ [Some \<lparr>cell_refs = 1,
    cell_obj = \<lparr>fdw_fd = n, fdw_eof = False, fdw_closed = False, fdw_read_count = 0, fdw_write_count = 0\<rparr>\<rparr>]\<rparr>)"
  using assms by (simp add: FileDescriptor_new_def FDWrapper_new_def)

lemma cell_at_new: "cell_at (w\<lparr>w_heap := w_heap w @ [x]\<rparr>) g = (if g = length (w_heap w) then x else cell_at w g)"
  by (auto simp: cell_at_def nth_append)

lemma syscall_ok: "g (w_os w) = (r, k) \<Longrightarrow> 0 \<le> r \<Longrightarrow> int_ok r \<Longrightarrow> syscall K a g w = (Inr r, w\<lparr>w_os := k\<rparr>)"
  by (simp add: syscall_run SystemCall_run to_int_id)

lemma syscall_fails:
  "g (w_os w) = (-1, k) \<Longrightarrow> os_errno K k \<noteq> 0 \<Longrightarrow>
     syscall K a g w = (Inl (unix_error a (os_errno K k)), w\<lparr>w_os := k\<rparr>)"
  by (simp add: syscall_run SystemCall_run)

lemmas step_simps = bindS_run seqS_run fd_num_run syscall_ok syscall_fails

lemma socket_of_fd_same_kind:
  assumes "cell_at w f = Some c" and "fd = fdw_fd (cell_obj c)"
    and "\<And>k. os_getsockopt K fd SOL_SOCKET SO_DOMAIN 4 k = ((0, domain, 4), k)"
    and "\<And>k. os_getsockopt K fd SOL_SOCKET SO_TYPE 4 k = ((0, type, 4), k)"
  shows "Socket_of_fd K f domain type w = (Inr f, w)"
  using assms unfolding Socket_of_fd_def
  by (simp add: on_throw_run(1) step_simps socket_option_def option_differs_def SystemCall_run)

section \<open>Properties\<close>

text \<open>C31. A socket can be made only from a descriptor of its own kind: if the kernel reports the domain and type
  expected, the constructor returns the descriptor as it is; otherwise it throws, and the descriptor it
  was handed is closed and its wrapper destroyed.\<close>

theorem socket_of_fd_checks:
  assumes "cell_at w f = Some c" and "cell_refs c = 1" and "\<not> fdw_closed (cell_obj c)" and "fd = fdw_fd (cell_obj c)"
    and "\<And>k. os_getsockopt K fd SOL_SOCKET SO_DOMAIN 4 k = ((0, d, 4), k)"
    and "\<And>k. os_getsockopt K fd SOL_SOCKET SO_TYPE 4 k = ((0, t, 4), k)"
    and "os_close K fd (w_os w) = (0, k')"
  shows "if d = domain \<and> t = type then Socket_of_fd K f domain type w = (Inr f, w)
    else \<exists>w'. Socket_of_fd K f domain type w =
          (Inl (runtime_error (if d = domain then ''socket type mismatch'' else ''socket domain mismatch'')), w') \<and>
        w_os w' = k' \<and> cell_at w' f = None"
proof (cases "d = domain \<and> t = type")
  case True
  then show ?thesis
    using socket_of_fd_same_kind [OF assms(1,4), of K domain type] assms(5,6) by simp
next
  case False
  then show ?thesis
    using assms unfolding Socket_of_fd_def if_not_P [OF False]
    by (intro on_throw_destroy) (auto simp: step_simps socket_option_def option_differs_def SystemCall_run)
qed

definition socket_kernel :: "(int \<Rightarrow> string) kernel" where
  "socket_kernel = failing_kernel\<lparr>os_getsockopt := (\<lambda>fd level opt len k. ((0, if opt = 39 then 1 else 2, 4), k)),
     os_close := (\<lambda>fd k. (0, k(fd := ''closed'')))\<rparr>"

theorem socket_of_fd_checks_witness:
  "\<exists>w'. Socket_of_fd socket_kernel 0 AF_UNIX SOCK_STREAM (one_fd 6 (\<lambda>fd. [])) =
      (Inl (runtime_error ''socket type mismatch''), w') \<and> w_os w' 6 = ''closed'' \<and> cell_at w' 0 = None"
  using socket_of_fd_checks [OF one_fd_simps(2) [of 6 "\<lambda>fd. []"] _ _ refl,
      where K = socket_kernel and d = 1 and t = 2 and k' = "(\<lambda>fd. [])(6 := ''closed'')" and domain = AF_UNIX and type = SOCK_STREAM]
  by (auto simp: socket_kernel_def)

text \<open>\<open>shutdown\<close> counts as a read, a write or both, as \<open>how\<close> says; an invalid \<open>how\<close> is rejected only after the
  kernel was asked, so when the kernel accepts it, the exception leaves the shutdown done.\<close>

theorem shutdown_counts:
  assumes "cell_at w f = Some c" and "os_shutdown K (fdw_fd (cell_obj c)) how (w_os w) = (0, k)"
  shows "if how \<in> {SHUT_RD, SHUT_WR, SHUT_RDWR} then
      \<exists>w' c'. Socket_shutdown K f how w = (Inr (), w') \<and> w_os w' = k \<and> cell_at w' f = Some c' \<and>
        fdw_read_count (cell_obj c') = fdw_read_count (cell_obj c) + (if how = SHUT_WR then 0 else 1) \<and>
        fdw_write_count (cell_obj c') = fdw_write_count (cell_obj c) + (if how = SHUT_RD then 0 else 1) \<and>
        (\<forall>g. g \<noteq> f \<longrightarrow> cell_at w' g = cell_at w g)
    else Socket_shutdown K f how w =
      (Inl (runtime_error ''Socket::shutdown() called with invalid `how`''), w\<lparr>w_os := k\<rparr>)"
  using assms
  by (auto simp: Socket_shutdown_def step_simps register_read_def register_write_def cell_at_fd_world)

definition shutdown_kernel :: "int kernel" where
  "shutdown_kernel = failing_kernel\<lparr>os_shutdown := (\<lambda>fd how k. (0, how))\<rparr>"

theorem shutdown_counts_witness:
  "\<exists>w' c'. Socket_shutdown shutdown_kernel 0 SHUT_RDWR (one_fd 6 9) = (Inr (), w') \<and> w_os w' = 2 \<and>
     cell_at w' 0 = Some c' \<and> fdw_read_count (cell_obj c') = 1 \<and> fdw_write_count (cell_obj c') = 1"
  using shutdown_counts [OF one_fd_simps(2) [of 6 9], where K = shutdown_kernel and how = 2 and k = 2]
  by (auto simp: shutdown_kernel_def)

text \<open>The datagrams a kernel has been given to send: descriptor, destination if any, and bytes.
  \<open>sendmsg(2)\<close> fails and sends nothing, or sends one datagram of as many of the bytes as it returns.\<close>

definition sendmsg_contract :: "('k, 'z) kernel_scheme \<Rightarrow> ('k \<Rightarrow> (int \<times> string option \<times> string) list) \<Rightarrow> bool" where
  "sendmsg_contract K outbox \<longleftrightarrow> (\<forall>fd m flags k. case os_sendmsg K fd m flags k of (r, k') \<Rightarrow>
     if r < 0 then r = -1 \<and> os_errno K k' \<noteq> 0 \<and> outbox k' = outbox k
     else nat r \<le> length (iovecs_bytes (msg_iov m)) \<and> int_ok r \<and>
       outbox k' = outbox k @ [(fd, map_option (take (unat (msg_namelen m))) (msg_name m),
         take (nat r) (iovecs_bytes (msg_iov m)))])"

lemma sendmsg_contractD:
  assumes "sendmsg_contract K outbox" and "os_sendmsg K fd m flags k = (r, k')"
  shows "if r < 0 then r = -1 \<and> os_errno K k' \<noteq> 0 \<and> outbox k' = outbox k
     else nat r \<le> length (iovecs_bytes (msg_iov m)) \<and> int_ok r \<and>
       outbox k' = outbox k @ [(fd, map_option (take (unat (msg_namelen m))) (msg_name m),
         take (nat r) (iovecs_bytes (msg_iov m)))]"
  using assms(1) [unfolded sendmsg_contract_def, THEN spec, of fd, THEN spec, of m, THEN spec, of flags,
      THEN spec, of k] assms(2) by simp

text \<open>\<open>sendmsg_helper\<close> returns only if the whole payload went out.\<close>

lemma sendmsg_helper_run:
  assumes "sendmsg_contract K outbox" and "string_ok (concat payload)"
  obtains (throws) e k where "sendmsg_helper K fd name len payload w = (Inl e, w\<lparr>w_os := k\<rparr>)"
    | (sends) k where "sendmsg_helper K fd name len payload w = (Inr (), w\<lparr>w_os := k\<rparr>)"
      "outbox k = outbox (w_os w) @ [(fd, map_option (take (unat len)) name, concat payload)]"
proof -
  let ?iov = "BufferViewList_as_iovecs payload"
  let ?m = "\<lparr>msg_name = name, msg_namelen = len, msg_iov = ?iov, msg_iovlen = of_nat (length ?iov)\<rparr>"
  obtain r k where r: "os_sendmsg K fd ?m 0 (w_os w) = (r, k)"
    by (meson surj_pair)
  note ok = string_ok_concat [OF assms(2)]
  have b: "iovecs_bytes ?iov = concat payload"
    using ok by (simp add: as_iovecs_bytes)
  note con = sendmsg_contractD [OF assms(1) r, simplified b msghdr.simps]
  have h: "sendmsg_helper K fd name len payload w =
      bindS (syscall K ''sendmsg'' (os_sendmsg K fd ?m 0)) (\<lambda>bytes_sent.
        if (of_int bytes_sent :: size_t) \<noteq> BufferViewList_size payload
        then throwS (runtime_error ''datagram payload too big for sendmsg()'') else retS ()) w"
    by (simp add: sendmsg_helper_def Let_def)
  show ?thesis
  proof (cases "r < 0")
    case True
    with con have "r = -1" "os_errno K k \<noteq> 0" by simp_all
    with r have "sendmsg_helper K fd name len payload w = (Inl (unix_error ''sendmsg'' (os_errno K k)), w\<lparr>w_os := k\<rparr>)"
      unfolding h by (simp add: bindS_run syscall_fails)
    then show ?thesis by (rule throws)
  next
    case False
    with con have c: "nat r \<le> length (concat payload)" "int_ok r" "0 \<le> r"
      "outbox k = outbox (w_os w) @ [(fd, map_option (take (unat len)) name, take (nat r) (concat payload))]"
      by simp_all
    have sys: "syscall K ''sendmsg'' (os_sendmsg K fd ?m 0) w = (Inr r, w\<lparr>w_os := k\<rparr>)"
      using r c by (simp add: syscall_ok)
    show ?thesis
    proof (cases "(of_int r :: size_t) = BufferViewList_size payload")
      case True
      have "unat (of_int r :: size_t) = nat r"
        using c(2,3) unat_size_of_int [of r] by (simp add: size_of_int_def int_ok_def)
      then have "nat r = length (concat payload)"
        using True ok bvl.unat_sz [of payload] by simp
      with sys True c(4) show ?thesis
        by (intro sends [of k]) (simp_all add: h bindS_run)
    next
      case False
      with sys show ?thesis
        by (intro throws [of _ k]) (simp add: h bindS_run)
    qed
  qed
qed

text \<open>C29. \<open>sendto\<close> sends the payload as one datagram or throws: with a kernel whose \<open>sendmsg\<close> does what its
  manual says, a normal return means that exactly one datagram with all the bytes of the buffers went to
  the destination address, and one write is counted; after an exception no write is counted.\<close>

theorem udp_sendto_datagram:
  assumes "sendmsg_contract K outbox" and "string_ok (concat payload)"
    and "cell_at w f = Some c" and "fd = fdw_fd (cell_obj c)"
  shows "case UDPSocket_sendto K f dest payload w of
      (Inr _, w') \<Rightarrow> outbox (w_os w') = outbox (w_os w) @ [(fd, Some (addr_bytes dest), concat payload)] \<and>
        cell_at w' f = Some (wrote c)
    | (Inl e, w') \<Rightarrow> w_heap w' = w_heap w"
  using assms(1,2)
proof (cases rule: sendmsg_helper_run [where fd = fd and name = "Some (addr_storage dest)" and len = "addr_size dest"
      and w = w])
  case (throws e k)
  with assms(3,4) show ?thesis by (simp add: UDPSocket_sendto_def step_simps)
next
  case (sends k)
  with assms(3,4) show ?thesis
    by (simp add: UDPSocket_sendto_def step_simps register_write_def wrote_def cell_at_fd_world addr_bytes_def)
qed

definition datagram_kernel :: "(int \<times> string option \<times> string) list kernel" where
  "datagram_kernel = failing_kernel\<lparr>os_sendmsg := (\<lambda>fd m flags k.
     let b = take 1000 (iovecs_bytes (msg_iov m)) in
     (int (length b), k @ [(fd, map_option (take (unat (msg_namelen m))) (msg_name m), b)]))\<rparr>"

lemma datagram_kernel_contract: "sendmsg_contract datagram_kernel (\<lambda>k. k)"
  by (auto simp: sendmsg_contract_def datagram_kernel_def Let_def int_ok_def min_def)

theorem udp_sendto_datagram_witness:
  "case UDPSocket_sendto datagram_kernel 0 \<lparr>addr_size = 3, addr_storage = ''abcdef''\<rparr> [''he'', ''llo''] (one_fd 6 []) of
     (Inr _, w') \<Rightarrow> w_os w' = [(6, Some ''abc'', ''hello'')]
   | (Inl e, w') \<Rightarrow> w_heap w' = w_heap (one_fd 6 [] :: (int \<times> string option \<times> string) list world)"
proof -
  have "string_ok (concat [''he'', ''llo''])"
    by (simp add: string_ok_def string_max_size_def)
  from udp_sendto_datagram [OF datagram_kernel_contract this one_fd_simps(2) [of 6 "[]"] refl,
      of "\<lparr>addr_size = 3, addr_storage = ''abcdef''\<rparr>"]
  show ?thesis by (auto simp: addr_bytes_def split: prod.splits sum.splits)
qed

text \<open>The datagrams waiting on each descriptor: source address and bytes.  With \<open>MSG_TRUNC\<close>, \<open>recvfrom(2)\<close> stores
  as much of the first as fits, returns its real length, and takes it off the queue; or it fails.\<close>

definition recvfrom_contract :: "('k, 'z) kernel_scheme \<Rightarrow> ('k \<Rightarrow> int \<Rightarrow> (string \<times> string) list) \<Rightarrow> bool" where
  "recvfrom_contract K inbox \<longleftrightarrow> (\<forall>fd n k. case os_recvfrom K fd n MSG_TRUNC 128 k of
     ((r, data, source, fromlen), k') \<Rightarrow>
       if r < 0 then r = -1 \<and> os_errno K k' \<noteq> 0 \<and> inbox k' = inbox k
       else inbox k fd \<noteq> [] \<and> inbox k' = (inbox k)(fd := tl (inbox k fd)) \<and>
         source = fst (hd (inbox k fd)) \<and> unat fromlen = length source \<and> length source \<le> 128 \<and>
         r = int (length (snd (hd (inbox k fd)))) \<and> r \<le> 65535 \<and> data = take (unat n) (snd (hd (inbox k fd))))"

lemma recvfrom_contractD:
  assumes "recvfrom_contract K inbox" and "os_recvfrom K fd n MSG_TRUNC 128 k = ((r, data, source, fromlen), k')"
  shows "if r < 0 then r = -1 \<and> os_errno K k' \<noteq> 0 \<and> inbox k' = inbox k
       else inbox k fd \<noteq> [] \<and> inbox k' = (inbox k)(fd := tl (inbox k fd)) \<and>
         source = fst (hd (inbox k fd)) \<and> unat fromlen = length source \<and> length source \<le> 128 \<and>
         r = int (length (snd (hd (inbox k fd)))) \<and> r \<le> 65535 \<and> data = take (unat n) (snd (hd (inbox k fd)))"
  using assms(1) [unfolded recvfrom_contract_def, THEN spec, of fd, THEN spec, of n, THEN spec, of k] assms(2)
  by simp

text \<open>A received source address of up to 128 bytes is kept as it came.\<close>

lemma address_of_source:
  assumes "length source \<le> 128" and "unat fromlen = length source"
  shows "\<exists>a. Address_of_sockaddr (overlay Raw_zero source) (ucast (fromlen :: socklen_t)) = Inr a \<and>
           addr_bytes a = source"
proof -
  have u: "unat (ucast fromlen :: size_t) = length source"
    using assms(2) unsigned_less [of fromlen, where 'a = nat]
    by (simp add: unsigned_ucast_eq take_bit_nat_eq_self)
  have "take (length source) (overlay Raw_zero source) = source"
    using assms(1) by (simp add: take_overlay)
  with u assms(1) of_sockaddr_ok [of "ucast fromlen" "overlay Raw_zero source"] show ?thesis
    by auto
qed

lemma empty_address: "\<exists>a. Address_of_sockaddr [] 0 = Inr a"
  using of_sockaddr_ok [of 0 "[]"] by auto

text \<open>What \<open>recv\<close> does with the answer of the kernel.\<close>

lemma recv_answer:
  assumes "cell_at w f = Some c" and "fd = fdw_fd (cell_obj c)" and "unat mtu < 2 ^ 31"
    and "os_recvfrom K fd mtu MSG_TRUNC 128 (w_os w) = ((r, data, source, fromlen), k)"
  shows "UDPSocket_recv K f mtu w = bindS (SystemCall K ''recvfrom'' (to_int r) 0) (\<lambda>recv_len.
     if recv_len > int (unat mtu) then throwS (runtime_error ''recvfrom (oversized datagram)'')
     else
       seqS (register_read f)
         (bindS (liftS (Address_of_sockaddr (overlay Raw_zero source) (ucast fromlen))) (\<lambda>a.
          bindS (liftS (string_resize (overlay (replicate (unat mtu) (CHR 0x00)) data) (of_int recv_len))) (\<lambda>payload.
            retS \<lparr>dg_source_address = a, dg_payload = payload\<rparr>)))) (w\<lparr>w_os := k\<rparr>)"
proof -
  obtain a0 where a0: "Address_of_sockaddr [] 0 = Inr a0" using empty_address by blast
  have "unat mtu \<le> string_max_size" "string_length (replicate (unat mtu) (CHR 0x00)) = mtu"
    using assms(3) by (simp_all add: string_max_size_def string_length_def)
  moreover have "sint mtu = int (unat mtu)"
    using assms(3) by (intro sint_small) simp
  ultimately show ?thesis
    using assms(1,2,4) a0
    by (simp add: UDPSocket_recv_def UDPSocket_recv_into_def bindS_run [of "osS _"] bindS_run [of "FileDescriptor_fd_num _"]
        fd_num_run sizeof_storage_def)
qed

lemma recv_whole:
  assumes "cell_at w f = Some c" and "fd = fdw_fd (cell_obj c)" and "unat mtu < 2 ^ 31"
    and "os_recvfrom K fd mtu MSG_TRUNC 128 (w_os w) = ((int (length p), take (unat mtu) p, source, fromlen), k)"
    and "length p \<le> unat mtu" and "length p \<le> 65535" and "length source \<le> 128" and "unat fromlen = length source"
  shows "\<exists>a. UDPSocket_recv K f mtu w =
      (Inr \<lparr>dg_source_address = a, dg_payload = p\<rparr>, fd_world f (did_read False c) k w) \<and> addr_bytes a = source"
proof -
  obtain a where a: "Address_of_sockaddr (overlay Raw_zero source) (ucast fromlen) = Inr a" "addr_bytes a = source"
    using address_of_source [OF assms(7,8)] by blast
  have i: "to_int (int (length p)) = int (length p)"
    using assms(6) by (intro to_int_id int_okI) simp_all
  have u: "unat (of_nat (length p) :: size_t) = length p"
    using assms(6) by (simp add: unat_of_nat_size)
  have "string_resize (overlay (replicate (unat mtu) (CHR 0x00)) p) (of_nat (length p)) = Inr p"
    using assms(5,6) u by (simp add: take_overlay string_max_size_def)
  moreover have "\<not> uint mtu < int (length p)"
    using assms(5) by (metis of_nat_less_iff of_nat_unat leD)
  ultimately show ?thesis
    unfolding recv_answer [OF assms(1-4)] using i assms(1,5) a
    by (simp add: bindS_run SystemCall_run seqS_run register_read_def did_read_def Let_def)
qed

text \<open>C30. \<open>recv\<close> returns a datagram whole or throws: with a kernel whose \<open>recvfrom\<close> does what its manual says, a
  normal return hands over exactly the first waiting datagram, all its bytes and the address it came
  from, and counts one read.  If the call throws, no read is counted, and either nothing was taken or
  the datagram was longer than \<open>mtu\<close>; such a datagram is lost.\<close>

theorem udp_recv_datagram:
  assumes "recvfrom_contract K inbox" and "cell_at w f = Some c" and "fd = fdw_fd (cell_obj c)"
    and "unat mtu < 2 ^ 31"
  shows "case UDPSocket_recv K f mtu w of
      (Inr dg, w') \<Rightarrow>
        (\<exists>rest. inbox (w_os w) fd = (addr_bytes (dg_source_address dg), dg_payload dg) # rest \<and>
           inbox (w_os w') = (inbox (w_os w))(fd := rest)) \<and>
        cell_at w' f = Some (did_read False c)
    | (Inl e, w') \<Rightarrow> w_heap w' = w_heap w \<and>
        (inbox (w_os w') = inbox (w_os w) \<or>
         (\<exists>src p rest. inbox (w_os w) fd = (src, p) # rest \<and> unat mtu < length p \<and>
            inbox (w_os w') = (inbox (w_os w))(fd := rest)))"
proof -
  obtain r data source fromlen k where r: "os_recvfrom K fd mtu MSG_TRUNC 128 (w_os w) = ((r, data, source, fromlen), k)"
    by (metis surj_pair)
  note con = recvfrom_contractD [OF assms(1) r] and run = recv_answer [OF assms(2-4) r]
  show ?thesis
  proof (cases "r < 0")
    case True
    with con have "to_int r = -1" "os_errno K k \<noteq> 0" "inbox k = inbox (w_os w)" by simp_all
    then show ?thesis unfolding run by (simp add: bindS_run SystemCall_run)
  next
    case False
    with con obtain p rest where q: "inbox (w_os w) fd = (source, p) # rest"
        "inbox k = (inbox (w_os w))(fd := rest)" "r = int (length p)" "data = take (unat mtu) p"
        "unat fromlen = length source" "length source \<le> 128" "length p \<le> 65535"
      by (cases "inbox (w_os w) fd") auto
    show ?thesis
    proof (cases "unat mtu < length p")
      case True
      then have "uint mtu < int (length p)"
        by (metis of_nat_less_iff of_nat_unat)
      moreover have "to_int r = int (length p)"
        unfolding q(3) using q(7) by (intro to_int_id int_okI) simp_all
      ultimately show ?thesis unfolding run using True q(1,2) by (simp add: bindS_run SystemCall_run)
    next
      case False
      then show ?thesis
        using recv_whole [OF assms(2-4) r [unfolded q(3,4)] _ q(7,6,5)] q(1,2) cell_at_fd_world [OF assms(2)] by auto
    qed
  qed
qed

definition inbox_kernel :: "(int \<Rightarrow> (string \<times> string) list) kernel" where
  "inbox_kernel = failing_kernel\<lparr>os_recvfrom := (\<lambda>fd n flags len k.
     case k fd of
       (src, p) # rest \<Rightarrow>
         if length src \<le> 128 \<and> length p \<le> 65535
         then ((int (length p), take (unat n) p, src, of_nat (length src)), k(fd := rest))
         else ((-1, [], [], len), k)
     | [] \<Rightarrow> ((-1, [], [], len), k))\<rparr>"

lemma inbox_kernel_contract: "recvfrom_contract inbox_kernel (\<lambda>k. k)"
  by (auto simp: recvfrom_contract_def inbox_kernel_def failing_kernel_def unat_of_nat take_bit_nat_eq_self
      split: list.splits)

theorem udp_recv_datagram_witness:
  "case UDPSocket_recv inbox_kernel 0 2 (one_fd 6 (\<lambda>fd. [(''src'', ''hello'')])) of
      (Inr dg, w') \<Rightarrow> dg_payload dg = ''hello'' \<and> w_os w' 6 = []
    | (Inl e, w') \<Rightarrow> w_os w' 6 = [] \<or> w_os w' 6 = [(''src'', ''hello'')]"
proof -
  have "unat (2 :: size_t) < 2 ^ 31" by simp
  from udp_recv_datagram [OF inbox_kernel_contract one_fd_simps(2) [of 6 "\<lambda>fd. [(''src'', ''hello'')]"] refl this]
  show ?thesis by (auto split: prod.splits sum.splits)
qed

text \<open>\<open>accept\<close> counts as a read of the listening socket even if it fails.  When the kernel hands out a
  connection of the right kind, the result is a new socket that no one else owns, on the kernel's
  number; when it does not, the exception carries \<open>errno\<close>.\<close>

theorem tcp_accept_counts:
  assumes "cell_at w f = Some c" and "fd = fdw_fd (cell_obj c)"
    and "os_accept K fd (w_os w) = (n, k)"
    and "n = -1 \<and> os_errno K k \<noteq> 0 \<or> 0 \<le> n \<and> int_ok n"
    and "\<And>k. os_getsockopt K n SOL_SOCKET SO_DOMAIN 4 k = ((0, AF_INET, 4), k)"
    and "\<And>k. os_getsockopt K n SOL_SOCKET SO_TYPE 4 k = ((0, SOCK_STREAM, 4), k)"
  shows "\<exists>r w'. TCPSocket_accept K f w = (r, w') \<and> cell_at w' f = Some (did_read False c) \<and> w_os w' = k \<and>
    (if 0 \<le> n then \<exists>g c'. r = Inr g \<and> cell_at w g = None \<and> cell_at w' g = Some c' \<and> cell_refs c' = 1 \<and>
         fdw_fd (cell_obj c') = n \<and> \<not> fdw_closed (cell_obj c')
     else r = Inl (unix_error ''accept'' (os_errno K k)))"
proof -
  define w1 where "w1 = fd_world f (did_read False c) k w"
  have rr: "register_read f w = (Inr (), fd_world f (did_read False c) (w_os w) w)"
    using assms(1) by (simp add: register_read_def did_read_def Let_def set_cell_def fd_world_def)
  have c1: "cell_at (fd_world f (did_read False c) (w_os w) w) f = Some (did_read False c)"
      "cell_at w1 f = Some (did_read False c)" "fdw_fd (cell_obj (did_read False c)) = fd"
    using assms(1,2) by (simp_all add: cell_at_fd_world did_read_def Let_def w1_def)
  have len: "length (w_heap w1) = length (w_heap w)" "cell_at w (length (w_heap w)) = None"
      "f \<noteq> length (w_heap w)"
    using assms(1) by (auto simp: w1_def fd_world_def cell_at_def)
  show ?thesis
  proof (cases "0 \<le> n")
    case True
    then have "syscall K ''accept'' (os_accept K fd) (fd_world f (did_read False c) (w_os w) w) = (Inr n, w1)"
      using assms(3,4) by (simp add: syscall_ok w1_def)
    with True rr c1 assms(5,6) len show ?thesis
      by (simp add: TCPSocket_accept_def bindS_run seqS_run fd_num_run new_fd TCPSocket_of_fd_def Socket_of_fd_def
          on_throw_run(1) socket_option_def option_differs_def SystemCall_run cell_at_new) (simp add: w1_def)
  next
    case False
    then have "syscall K ''accept'' (os_accept K fd) (fd_world f (did_read False c) (w_os w) w) =
        (Inl (unix_error ''accept'' (os_errno K k)), w1)"
      using assms(3,4) by (simp add: syscall_fails w1_def)
    with False rr c1 show ?thesis
      by (simp add: TCPSocket_accept_def bindS_run seqS_run fd_num_run) (simp add: w1_def)
  qed
qed

definition accept_kernel :: "nat kernel" where
  "accept_kernel = failing_kernel\<lparr>os_accept := (\<lambda>fd k. (8, Suc k)),
     os_getsockopt := (\<lambda>fd level opt len k. ((0, if opt = 39 then 2 else 1, 4), k))\<rparr>"

theorem tcp_accept_counts_witness:
  "\<exists>g w' c'. TCPSocket_accept accept_kernel 0 (one_fd 6 0) = (Inr g, w') \<and> cell_at w' g = Some c' \<and>
     fdw_fd (cell_obj c') = 8 \<and> w_os w' = 1"
  using tcp_accept_counts [OF one_fd_simps(2) [of 6 0] refl, where K = accept_kernel and n = 8 and k = 1]
  by (auto simp: accept_kernel_def int_ok_def)

lemma tun_request_name:
  "ifr_name (tun_request devname is_tun) =
     take 15 (c_str devname) @ replicate (16 - length (take 15 (c_str devname))) (CHR 0x00)"
proof -
  define s where "s = take 15 (c_str devname)"
  define m where "m = 15 - length s"
  have "length s \<le> 15" by (simp add: s_def)
  then have m: "16 - length s = Suc m" "length s + m = 15"
    by (simp_all add: m_def)
  have "ifr_name (tun_request devname is_tun) = (s @ replicate m (CHR 0x00) @ [CHR 0x00])[15 := CHR 0x00]"
    by (simp add: tun_request_def strncpy_def Let_def s_def m_def)
  also have "\<dots> = s @ replicate m (CHR 0x00) @ [CHR 0x00]"
    unfolding m(2) [symmetric] by (simp add: list_update_append)
  also have "\<dots> = s @ replicate (Suc m) (CHR 0x00)"
    by (simp add: replicate_append_same)
  finally show ?thesis
    unfolding s_def [symmetric] m(1) .
qed

lemma c_str_padded:
  assumes "CHR 0x00 \<notin> set s"
  shows "c_str (s @ replicate (Suc m) (CHR 0x00)) = s"
  using assms unfolding c_str_def by (subst takeWhile_append2) auto

text \<open>Opening a TUN or TAP device: the name given to the kernel is the device name cut to 15 characters and
  always ends in a null character, the flags ask for exactly the kind of device wanted, without packet
  information, and when the kernel refuses, the clone device that was opened is closed again.\<close>

theorem tun_open_device:
  assumes "os_open K CLONEDEV O_RDWR (w_os w) = (n, k1)" and "0 \<le> n" and "int_ok n"
    and "os_ioctl K n TUNSETIFF (tun_request devname is_tun) k1 = (r, k2)"
    and "r = 0 \<or> r = -1 \<and> os_errno K k2 \<noteq> 0 \<and> os_close K n k2 = (0, k3)"
  shows "c_str (ifr_name (tun_request devname is_tun)) = take 15 (c_str devname) \<and>
    length (ifr_name (tun_request devname is_tun)) = 16 \<and>
    ifr_flags (tun_request devname is_tun) = (if is_tun then 0x1001 else 0x1002) \<and>
    (\<exists>w'. if r = 0
       then TunTapFD_new K devname is_tun w = (Inr (length (w_heap w)), w') \<and> w_os w' = k2 \<and>
         (\<exists>c. cell_at w' (length (w_heap w)) = Some c \<and> fdw_fd (cell_obj c) = n)
       else TunTapFD_new K devname is_tun w = (Inl (unix_error ''ioctl'' (os_errno K k2)), w') \<and> w_os w' = k3 \<and>
         cell_at w' (length (w_heap w)) = None)"
proof (intro conjI)
  have z: "CHR 0x00 \<notin> set (take 15 (c_str devname))"
    by (auto simp: c_str_def dest!: in_set_takeD set_takeWhileD)
  have n: "16 - length (take 15 (c_str devname)) = Suc (15 - length (take 15 (c_str devname)))"
    by (simp add: Suc_diff_le)
  show "c_str (ifr_name (tun_request devname is_tun)) = take 15 (c_str devname)"
    unfolding tun_request_name n by (rule c_str_padded [OF z])
  show "length (ifr_name (tun_request devname is_tun)) = 16"
    unfolding tun_request_name by simp
  show "ifr_flags (tun_request devname is_tun) = (if is_tun then 0x1001 else 0x1002)"
    by (simp add: tun_request_def Let_def)
  let ?f = "length (w_heap w)"
  define c where "c = \<lparr>cell_refs = 1, cell_obj = \<lparr>fdw_fd = n, fdw_eof = False, fdw_closed = False,
    fdw_read_count = 0, fdw_write_count = 0\<rparr>\<rparr>"
  define w1 where "w1 = w\<lparr>w_os := k1, w_heap := w_heap w @ [Some c]\<rparr>"
  define body where "body = bindS (FileDescriptor_fd_num ?f) (\<lambda>fd.
      seqS (syscall K ''ioctl'' (os_ioctl K fd TUNSETIFF (tun_request devname is_tun))) (retS ?f))"
  have c1: "cell_at w1 ?f = Some c" "w_os w1 = k1"
    by (simp_all add: w1_def cell_at_def)
  have run: "TunTapFD_new K devname is_tun w = on_throw body (FileDescriptor_destroy K ?f) w1"
    using assms(1-3) by (simp add: TunTapFD_new_def bindS_run syscall_ok new_fd body_def w1_def c_def)
  show "\<exists>w'. if r = 0
       then TunTapFD_new K devname is_tun w = (Inr ?f, w') \<and> w_os w' = k2 \<and>
         (\<exists>c. cell_at w' ?f = Some c \<and> fdw_fd (cell_obj c) = n)
       else TunTapFD_new K devname is_tun w = (Inl (unix_error ''ioctl'' (os_errno K k2)), w') \<and> w_os w' = k3 \<and>
         cell_at w' ?f = None"
  proof (cases "r = 0")
    case True
    then have "body w1 = (Inr ?f, w1\<lparr>w_os := k2\<rparr>)"
      using c1 assms(4) by (simp add: body_def step_simps c_def)
    with True c1(1) show ?thesis
      unfolding run by (simp add: on_throw_run(1) c_def)
  next
    case False
    then have "r = -1" "os_errno K k2 \<noteq> 0" "os_close K n k2 = (0, k3)"
      using assms(5) by simp_all
    moreover from this have "body w1 = (Inl (unix_error ''ioctl'' (os_errno K k2)), w1\<lparr>w_os := k2\<rparr>)"
      using c1 assms(4) by (simp add: body_def step_simps c_def)
    ultimately show ?thesis
      unfolding run if_not_P [OF False] using c1(1)
      by (intro on_throw_destroy [where c = c and w = "w1\<lparr>w_os := k2\<rparr>"]) (simp_all add: c_def)
  qed
qed

definition tun_kernel :: "string kernel" where
  "tun_kernel = failing_kernel\<lparr>os_open := (\<lambda>path flags k. (4, path)),
     os_ioctl := (\<lambda>fd req r k. if ifr_flags r = 0x1001 then (0, ifr_name r) else (-1, k)),
     os_close := (\<lambda>fd k. (0, ''closed''))\<rparr>"

theorem tun_open_device_witness:
  "\<exists>w'. TunTapFD_new tun_kernel ''tap7'' False (fresh_world []) = (Inl (unix_error ''ioctl'' 9), w') \<and>
     w_os w' = ''closed'' \<and> cell_at w' 0 = None"
proof -
  have "ifr_flags (tun_request ''tap7'' False) = 0x1002"
    by (simp add: tun_request_def Let_def)
  then have ioctl: "os_ioctl tun_kernel 4 TUNSETIFF (tun_request ''tap7'' False) CLONEDEV = (-1, CLONEDEV)"
    by (simp add: tun_kernel_def)
  have opens: "os_open tun_kernel CLONEDEV O_RDWR (w_os (fresh_world [])) = (4, CLONEDEV)"
    by (simp add: tun_kernel_def)
  have fails: "(-1 :: int) = 0 \<or> -1 = (-1 :: int) \<and> os_errno tun_kernel CLONEDEV \<noteq> 0 \<and>
      os_close tun_kernel 4 CLONEDEV = (0, ''closed'')"
    by (simp add: tun_kernel_def failing_kernel_def)
  have "int_ok 4" "os_errno tun_kernel CLONEDEV = 9"
    by (simp_all add: int_ok_def tun_kernel_def failing_kernel_def)
  with tun_open_device [OF opens _ _ ioctl fails] show ?thesis by simp
qed

end
