(* ===== verification/Fd_Programs.thy ===== *)
theory Fd_Programs
  imports Sockets
begin

text \<open>
  Programs on variables of type \<open>FileDescriptor\<close> and its subclasses.  A variable holds a \<open>shared_ptr\<close>: the address of
  a wrapper, or nothing after it was moved from.  The statements are the constructors, copies by
  \<open>duplicate\<close>, moves, destruction, and the methods of \<open>FileDescriptor\<close>, \<open>Socket\<close>, \<open>UDPSocket\<close> and \<open>TCPSocket\<close>.  The
  number of owners each wrapper counts is proved to be the number of variables that refer to it, whatever the
  program and the kernel do.
\<close>

section \<open>Moves\<close>

text \<open>The defaulted move operations, on the pointers of the two objects.  Move construction leaves the source empty.  Move
  assignment gives up what the target owned; assigned to itself, an object keeps what it has.\<close>

definition FileDescriptor_move_construct :: "FileDescriptor option \<Rightarrow> FileDescriptor option \<times> FileDescriptor option" where
  "FileDescriptor_move_construct other = (other, None)"

definition FileDescriptor_release ::
  "('k, 'z) kernel_scheme \<Rightarrow> FileDescriptor option \<Rightarrow> ('k world, unit) act" where
  "FileDescriptor_release K p = (case p of None \<Rightarrow> retS () | Some f \<Rightarrow> FileDescriptor_destroy K f)"

definition FileDescriptor_move_assign :: "('k, 'z) kernel_scheme \<Rightarrow> FileDescriptor option \<Rightarrow> FileDescriptor option \<Rightarrow>
    ('k world, FileDescriptor option \<times> FileDescriptor option) act" where
  "FileDescriptor_move_assign K this other = seqS (FileDescriptor_release K this) (retS (other, None))"

section \<open>Statements\<close>

text \<open>The methods of \<open>FileDescriptor\<close> and of the socket classes, but for \<open>UDPSocket::recv(mtu)\<close>, which hands a null pointer to
  \<open>memcpy\<close>; the other \<open>recv\<close> is there.\<close>

datatype fd_method =
    M_read size_t
  | M_read_into string size_t
  | M_write BufferViewList bool
  | M_close
  | M_set_blocking bool
  | M_fd_num
  | M_eof
  | M_closed
  | M_read_count
  | M_write_count
  | M_bind Address
  | M_connect Address
  | M_shutdown int
  | M_set_reuseaddr
  | M_local_address
  | M_peer_address
  | M_recv_into received_datagram size_t
  | M_sendto Address BufferViewList
  | M_send BufferViewList
  | M_listen int

definition discard :: "('s, 'a) act \<Rightarrow> ('s, unit) act" where
  "discard m = bindS m (\<lambda>_. retS ())"

fun call_method :: "('k, 'z) kernel_scheme \<Rightarrow> FileDescriptor \<Rightarrow> fd_method \<Rightarrow> ('k world, unit) act" where
  "call_method K f (M_read limit) = discard (FileDescriptor_read K f limit)"
| "call_method K f (M_read_into str limit) = discard (FileDescriptor_read_into K f str limit)"
| "call_method K f (M_write buffer write_all) = discard (FileDescriptor_write K f buffer write_all)"
| "call_method K f M_close = FileDescriptor_close K f"
| "call_method K f (M_set_blocking b) = FileDescriptor_set_blocking K f b"
| "call_method K f M_fd_num = discard (FileDescriptor_fd_num f)"
| "call_method K f M_eof = discard (FileDescriptor_eof f)"
| "call_method K f M_closed = discard (FileDescriptor_closed f)"
| "call_method K f M_read_count = discard (FileDescriptor_read_count f)"
| "call_method K f M_write_count = discard (FileDescriptor_write_count f)"
| "call_method K f (M_bind a) = Socket_bind K f a"
| "call_method K f (M_connect a) = Socket_connect K f a"
| "call_method K f (M_shutdown how) = Socket_shutdown K f how"
| "call_method K f M_set_reuseaddr = Socket_set_reuseaddr K f"
| "call_method K f M_local_address = discard (Socket_local_address K f)"
| "call_method K f M_peer_address = discard (Socket_peer_address K f)"
| "call_method K f (M_recv_into datagram mtu) = discard (UDPSocket_recv_into K f datagram mtu)"
| "call_method K f (M_sendto a payload) = UDPSocket_sendto K f a payload"
| "call_method K f (M_send payload) = UDPSocket_send K f payload"
| "call_method K f (M_listen backlog) = TCPSocket_listen K f backlog"

text \<open>A scope maps the variables that are alive to their pointers.\<close>

record ('k, 'v) scope =
  sc_vars :: "'v \<Rightarrow> FileDescriptor option option"
  sc_world :: "'k world"

datatype 'v fd_stmt =
    Construct 'v int
  | NewSocket 'v int int
  | AsSocket 'v 'v int int
  | Accept 'v 'v
  | OpenTunTap 'v string bool
  | Duplicate 'v 'v
  | MoveConstruct 'v 'v
  | MoveAssign 'v 'v
  | Destroy 'v
  | Call 'v fd_method

text \<open>\<open>declare_var x m\<close>: the variable comes to life when its constructor returns.\<close>

definition declare_var :: "'v \<Rightarrow> ('k world, FileDescriptor) act \<Rightarrow> (('k, 'v) scope, unit) act" where
  "declare_var x m s =
     (case m (sc_world s) of
        (Inl e, w) \<Rightarrow> (Inl e, s\<lparr>sc_world := w\<rparr>)
      | (Inr f, w) \<Rightarrow> (Inr (), s\<lparr>sc_vars := (sc_vars s)(x \<mapsto> Some f), sc_world := w\<rparr>))"

definition on_world :: "('k world, 'a) act \<Rightarrow> (('k, 'v) scope, 'a) act" where
  "on_world m s = (case m (sc_world s) of (r, w) \<Rightarrow> (r, s\<lparr>sc_world := w\<rparr>))"

text \<open>\<open>_internal_fd->...\<close> of a variable: not if it is empty.\<close>

definition use_var :: "'v \<Rightarrow> (FileDescriptor \<Rightarrow> (('k, 'v) scope, 'a) act) \<Rightarrow> (('k, 'v) scope, 'a) act" where
  "use_var x m s =
     (case sc_vars s x of Some (Some f) \<Rightarrow> m f s | _ \<Rightarrow> (Inl (Undefined DanglingPointer), s))"

definition set_var :: "'v \<Rightarrow> FileDescriptor option option \<Rightarrow> (('k, 'v) scope, unit) act" where
  "set_var x p = modS (\<lambda>s. s\<lparr>sc_vars := (sc_vars s)(x := p)\<rparr>)"

definition pointer :: "'v \<Rightarrow> ('k, 'v) scope \<Rightarrow> FileDescriptor option" where
  "pointer x s = (case sc_vars s x of Some p \<Rightarrow> p | None \<Rightarrow> None)"

fun exec :: "('k, 'z) kernel_scheme \<Rightarrow> 'v fd_stmt \<Rightarrow> (('k, 'v) scope, unit) act" where
  "exec K (Construct x n) = declare_var x (FileDescriptor_new n)"
| "exec K (NewSocket x domain type) = declare_var x (Socket_new K domain type)"
| "exec K (AsSocket x y domain type) =
     use_var y (\<lambda>f. seqS (set_var y (Some None)) (declare_var x (Socket_of_fd K f domain type)))"
| "exec K (Accept x y) = use_var y (\<lambda>f. declare_var x (TCPSocket_accept K f))"
| "exec K (OpenTunTap x devname is_tun) = declare_var x (TunTapFD_new K devname is_tun)"
| "exec K (Duplicate x y) =
     bindS (getS (pointer y)) (\<lambda>p. case p of
         None \<Rightarrow> set_var x (Some None)
       | Some f \<Rightarrow> declare_var x (FileDescriptor_duplicate f))"
| "exec K (MoveConstruct x y) =
     bindS (getS (pointer y)) (\<lambda>p. case FileDescriptor_move_construct p of
       (p, q) \<Rightarrow> seqS (set_var y (Some q)) (set_var x (Some p)))"
| "exec K (MoveAssign x y) =
     (if x = y then retS ()
      else bindS (getS (pointer x)) (\<lambda>this. bindS (getS (pointer y)) (\<lambda>other.
        bindS (on_world (FileDescriptor_move_assign K this other)) (\<lambda>(p, q).
          seqS (set_var y (Some q)) (set_var x (Some p))))))"
| "exec K (Destroy x) =
     bindS (getS (pointer x)) (\<lambda>p. seqS (on_world (FileDescriptor_release K p)) (set_var x None))"
| "exec K (Call x m) = use_var x (\<lambda>f. on_world (call_method K f m))"

text \<open>What the compiler checks of a statement (a variable is declared once and used while it is alive), and the rule the
  program has to keep: an object that was moved from is not asked for its descriptor.\<close>

definition alive :: "'v \<Rightarrow> ('k, 'v) scope \<Rightarrow> bool" where
  "alive x s \<longleftrightarrow> sc_vars s x \<noteq> None"

definition owns :: "'v \<Rightarrow> ('k, 'v) scope \<Rightarrow> bool" where
  "owns x s \<longleftrightarrow> pointer x s \<noteq> None"

fun stmt_ok :: "'v fd_stmt \<Rightarrow> ('k, 'v) scope \<Rightarrow> bool" where
  "stmt_ok (Construct x n) s = (\<not> alive x s)"
| "stmt_ok (NewSocket x domain type) s = (\<not> alive x s)"
| "stmt_ok (AsSocket x y domain type) s = (\<not> alive x s \<and> owns y s)"
| "stmt_ok (Accept x y) s = (\<not> alive x s \<and> owns y s)"
| "stmt_ok (OpenTunTap x devname is_tun) s = (\<not> alive x s)"
| "stmt_ok (Duplicate x y) s = (\<not> alive x s \<and> alive y s)"
| "stmt_ok (MoveConstruct x y) s = (\<not> alive x s \<and> alive y s)"
| "stmt_ok (MoveAssign x y) s = (alive x s \<and> alive y s)"
| "stmt_ok (Destroy x) s = alive x s"
| "stmt_ok (Call x m) s = owns x s"

text \<open>The scopes a program can reach from an empty one; a statement that throws leaves a scope in which the program
  goes on, as a handler does.\<close>

inductive fd_reach :: "('k, 'z) kernel_scheme \<Rightarrow> ('k, 'v) scope \<Rightarrow> bool" for K where
  empty: "sc_vars s = (\<lambda>x. None) \<Longrightarrow> (\<And>f. cell_at (sc_world s) f = None) \<Longrightarrow> fd_reach K s"
| step: "fd_reach K s \<Longrightarrow> stmt_ok t s \<Longrightarrow> exec K t s = (r, s') \<Longrightarrow> fd_reach K s'"

section \<open>Counting owners\<close>

definition owner_count :: "('v \<Rightarrow> FileDescriptor option option) \<Rightarrow> FileDescriptor \<Rightarrow> nat option" where
  "owner_count vars f = (let n = card {x. vars x = Some (Some f)} in if n = 0 then None else Some n)"

definition owners_ok :: "('k, 'v) scope \<Rightarrow> bool" where
  "owners_ok s \<longleftrightarrow> finite (dom (sc_vars s)) \<and> hrefs (sc_world s) = owner_count (sc_vars s)"

lemma finite_owners: "finite (dom vars) \<Longrightarrow> finite {x. vars x = Some (Some f)}"
  by (rule finite_subset [of _ "dom vars"]) auto

text \<open>A variable gains a pointer, gives one up, and hands one over.\<close>

definition empty_handed :: "FileDescriptor option option \<Rightarrow> bool" where
  "empty_handed p \<longleftrightarrow> (\<forall>f. p \<noteq> Some (Some f))"

lemma owner_count_gain:
  assumes "finite (dom vars)" and "empty_handed (vars x)"
  shows "owner_count (vars(x \<mapsto> Some f)) =
    (owner_count vars)(f \<mapsto> (case owner_count vars f of None \<Rightarrow> 1 | Some n \<Rightarrow> Suc n))"
proof
  fix g
  have "{y. (vars(x \<mapsto> Some f)) y = Some (Some g)} =
      (if g = f then insert x {y. vars y = Some (Some f)} else {y. vars y = Some (Some g)})"
    using assms(2) by (auto simp: empty_handed_def)
  moreover have "x \<notin> {y. vars y = Some (Some f)}"
    using assms(2) by (simp add: empty_handed_def)
  ultimately show "owner_count (vars(x \<mapsto> Some f)) g =
      ((owner_count vars)(f \<mapsto> (case owner_count vars f of None \<Rightarrow> 1 | Some n \<Rightarrow> Suc n))) g"
    using finite_owners [OF assms(1), of f] by (simp add: owner_count_def Let_def)
qed

lemma owner_count_lose:
  assumes "finite (dom vars)" and "vars x = Some (Some f)" and "empty_handed p"
  shows "\<exists>n. owner_count vars f = Some n \<and>
    owner_count (vars(x := p)) = (owner_count vars)(f := if n > 1 then Some (n - 1) else None)"
proof -
  let ?n = "card {y. vars y = Some (Some f)}"
  have x: "x \<in> {y. vars y = Some (Some f)}" using assms(2) by simp
  then have "0 < ?n"
    using finite_owners [OF assms(1), of f] by (auto simp: card_gt_0_iff)
  then have n: "owner_count vars f = Some ?n" "0 < ?n"
    by (simp_all add: owner_count_def Let_def)
  have "{y. (vars(x := p)) y = Some (Some g)} =
      (if g = f then {y. vars y = Some (Some f)} - {x} else {y. vars y = Some (Some g)})" for g
    using assms(2,3) by (auto simp: empty_handed_def)
  moreover have "card ({y. vars y = Some (Some f)} - {x}) = ?n - 1"
    using x by (rule card_Diff_singleton)
  ultimately have "owner_count (vars(x := p)) g =
      ((owner_count vars)(f := if ?n > 1 then Some (?n - 1) else None)) g" for g
    using n(2) by (auto simp: owner_count_def Let_def)
  with n(1) show ?thesis by blast
qed

lemma owner_count_empty_handed:
  assumes "empty_handed (vars x)" and "empty_handed p"
  shows "owner_count (vars(x := p)) = owner_count vars"
proof -
  have "{y. (vars(x := p)) y = Some (Some g)} = {y. vars y = Some (Some g)}" for g
    using assms by (auto simp: empty_handed_def)
  then show ?thesis by (simp add: owner_count_def fun_eq_iff)
qed

lemma owner_count_hand_over:
  assumes "finite (dom vars)" and "vars y = Some p" and "empty_handed (vars x)" and "x \<noteq> y"
  shows "owner_count (vars(y \<mapsto> None, x \<mapsto> p)) = owner_count vars"
proof (cases p)
  case None
  with assms show ?thesis
    by (simp add: owner_count_empty_handed empty_handed_def)
next
  case (Some f)
  let ?v = "vars(y \<mapsto> None)"
  obtain n where n: "owner_count vars f = Some n"
      "owner_count ?v = (owner_count vars)(f := if n > 1 then Some (n - 1) else None)"
    using owner_count_lose [OF assms(1), of y f "Some None"] assms(2) Some by (auto simp: empty_handed_def)
  moreover have "0 < n"
    using n(1) by (simp add: owner_count_def Let_def split: if_splits)
  moreover have "owner_count (?v(x \<mapsto> Some f)) =
      (owner_count ?v)(f \<mapsto> (case owner_count ?v f of None \<Rightarrow> 1 | Some m \<Rightarrow> Suc m))"
    using assms by (intro owner_count_gain) auto
  ultimately show ?thesis
    using Some by (auto simp: fun_eq_iff)
qed

section \<open>Constructors and methods, with every kernel\<close>

text \<open>A constructor makes a wrapper with one owner, or throws and leaves none behind.\<close>

definition makes_owner :: "('k world, FileDescriptor) act \<Rightarrow> 'k world \<Rightarrow> bool" where
  "makes_owner m w \<longleftrightarrow> (case m w of
      (Inr f, w') \<Rightarrow> hrefs w f = None \<and> hrefs w' = (hrefs w)(f \<mapsto> 1)
    | (Inl e, w') \<Rightarrow> defined (Inl e :: unit result) \<and> refs_kept w w')"

text \<open>A constructor that takes over an owner keeps it, or throws and gives it up.\<close>

definition takes_owner :: "FileDescriptor \<Rightarrow> ('k world, FileDescriptor) act \<Rightarrow> 'k world \<Rightarrow> bool" where
  "takes_owner f m w \<longleftrightarrow> (case m w of
      (Inr g, w') \<Rightarrow> g = f \<and> refs_kept w w'
    | (Inl e, w') \<Rightarrow> defined (Inl e :: unit result) \<and>
        (\<forall>n. hrefs w f = Some n \<longrightarrow> hrefs w' = (hrefs w)(f := if n > 1 then Some (n - 1) else None)))"

lemma new_makes_owner: "makes_owner (FileDescriptor_new n) w"
  using new_hrefs [of w n] by (simp add: makes_owner_def)

lemma bind_makes_owner:
  assumes "safe_wrt refs_kept m w" and "\<And>x w'. refs_kept w w' \<Longrightarrow> makes_owner (g x) w'"
  shows "makes_owner (bindS m g) w"
  using assms(1)
proof (cases rule: refs.safe_cases)
  case (throws e w')
  then show ?thesis by (simp add: makes_owner_def bindS_run)
next
  case (returns x w')
  with assms(2) [OF returns(2), of x] show ?thesis
    by (auto simp: makes_owner_def bindS_run refs_kept_def split: prod.splits sum.splits)
qed

lemma then_takes_owner:
  assumes "makes_owner m w" and "\<And>f w'. hrefs w' f = Some 1 \<Longrightarrow> takes_owner f (g f) w'"
  shows "makes_owner (bindS m g) w"
proof (cases "m w")
  case (Pair r w')
  show ?thesis
  proof (cases r)
    case (Inl e)
    with Pair assms(1) show ?thesis by (simp add: makes_owner_def bindS_run)
  next
    case (Inr f)
    with Pair assms(1) have w': "hrefs w f = None" "hrefs w' = (hrefs w)(f \<mapsto> 1)"
      by (simp_all add: makes_owner_def)
    then have "takes_owner f (g f) w'" by (intro assms(2)) simp
    with Pair Inr w' show ?thesis
      by (auto simp: makes_owner_def takes_owner_def bindS_run refs_kept_def fun_upd_idem
          split: prod.splits sum.splits)
  qed
qed

lemma on_throw_takes_owner:
  assumes "safe_wrt refs_kept m w" and "hrefs w f \<noteq> None" and "\<And>g w'. m w = (Inr g, w') \<Longrightarrow> g = f"
  shows "takes_owner f (on_throw m (FileDescriptor_destroy K f)) w"
  using assms(1)
proof (cases rule: refs.safe_cases)
  case (throws e w')
  obtain n where n: "hrefs w f = Some n" "hrefs w' f = Some n"
    using assms(2) throws(2) by (auto simp: refs_kept_def)
  from destroy_hrefs [OF n(2), of K] throws n(1) show ?thesis
    by (cases e) (auto simp: takes_owner_def on_throw_def catchS_def seqS_run refs_kept_def)
next
  case (returns g w')
  with assms(3) show ?thesis by (simp add: takes_owner_def on_throw_def catchS_def)
qed

text \<open>What \<open>getsockopt(2)\<close> promises: when it fails, \<open>errno\<close> says why.  Otherwise \<open>SystemCall\<close> would let the constructor of \<open>Socket\<close>
  go on and read a variable that was never set.\<close>

definition getsockopt_ok :: "('k, 'z) kernel_scheme \<Rightarrow> bool" where
  "getsockopt_ok K \<longleftrightarrow> (\<forall>fd level option len k. case os_getsockopt K fd level option len k of ((r, value, len'), k') \<Rightarrow>
     to_int r < 0 \<longrightarrow> os_errno K k' \<noteq> 0)"

lemma socket_option_safe:
  assumes "getsockopt_ok K" and "\<And>v len w'. refs_kept w w' \<Longrightarrow> safe_wrt refs_kept (m (Some v) len) w'"
  shows "safe_wrt refs_kept (bindS (socket_option K fd option x) (\<lambda>(v, len). m v len)) w"
proof -
  obtain r v len k where k: "os_getsockopt K fd SOL_SOCKET option 4 (w_os w) = ((r, v, len), k)"
    by (metis surj_pair)
  then have "to_int r < 0 \<Longrightarrow> os_errno K k \<noteq> 0"
    using assms(1) unfolding getsockopt_ok_def by (metis (mono_tags, lifting) case_prod_conv)
  moreover have "refs_kept w (w\<lparr>w_os := k\<rparr>)" by (simp add: refs_kept_def)
  moreover from this have "safe_wrt refs_kept (m (Some v) len) (w\<lparr>w_os := k\<rparr>)" by (rule assms(2))
  ultimately show ?thesis
    using k by (auto simp: safe_wrt_def socket_option_def bindS_run seqS_run SystemCall_run refs_kept_def)
qed

lemma defined_option_differs [simp]: "defined (option_differs (Some v) len expected)"
  by (simp add: option_differs_def)

lemma Socket_of_fd_takes_owner:
  assumes "getsockopt_ok K" and "hrefs w f \<noteq> None"
  shows "takes_owner f (Socket_of_fd K f domain type) w"
  unfolding Socket_of_fd_def
proof (rule on_throw_takes_owner [OF _ assms(2)], goal_cases)
  case 1
  show ?case using assms by (intro fd_method_safe socket_option_safe safe_intros; simp)
next
  case (2 g w')
  then show ?case by (auto simp: bindS_eq_Inr split: if_splits prod.splits)
qed

lemma constructors_make_owner:
  "makes_owner (Socket_new K domain type) w"
  "makes_owner (TunTapFD_new K devname is_tun) w"
  "getsockopt_ok K \<Longrightarrow> hrefs w f \<noteq> None \<Longrightarrow> makes_owner (TCPSocket_accept K f) w"
proof -
  show "makes_owner (Socket_new K domain type) w"
    unfolding Socket_new_def by (intro bind_makes_owner safe_intros new_makes_owner)
  have "takes_owner g (on_throw
      (bindS (FileDescriptor_fd_num g) (\<lambda>fd.
        seqS (syscall K ''ioctl'' (os_ioctl K fd TUNSETIFF (tun_request devname is_tun))) (retS g)))
      (FileDescriptor_destroy K g)) w'" if "hrefs w' g = Some 1" for g w'
  proof (rule on_throw_takes_owner, goal_cases)
    case 1
    show ?case using that by (intro safe_intros fd_method_safe; simp add: refs_kept_def)
  next
    case (3 g w')
    then show ?case by (auto simp: bindS_eq_Inr seqS_def)
  qed (simp add: that)
  then show "makes_owner (TunTapFD_new K devname is_tun) w"
    unfolding TunTapFD_new_def by (intro bind_makes_owner safe_intros then_takes_owner new_makes_owner)
  show "makes_owner (TCPSocket_accept K f) w" if "getsockopt_ok K" "hrefs w f \<noteq> None"
    unfolding TCPSocket_accept_def TCPSocket_of_fd_def seqS_def
    by (intro bind_makes_owner fd_method_safe safe_intros then_takes_owner new_makes_owner Socket_of_fd_takes_owner)
      (use that in \<open>simp_all add: refs_kept_def\<close>)
qed

text \<open>The methods.\<close>

lemma defined_Address_of_sockaddr [simp]:
  "defined (Address_of_sockaddr (overlay Raw_zero raw) n)" "defined (Address_of_sockaddr [] 0)"
  by (auto simp: Address_of_sockaddr_def sizeof_storage_def word_less_nat_alt not_less)

lemma discard_safe [safe_intros]: "safe_wrt refs_kept m w \<Longrightarrow> safe_wrt refs_kept (discard m) w"
  unfolding discard_def by (intro safe_intros)

lemmas socket_methods =
  Socket_bind_def Socket_connect_def Socket_shutdown_def Socket_set_reuseaddr_def Socket_setsockopt_def
  Socket_local_address_def Socket_peer_address_def Socket_get_address_def UDPSocket_recv_into_def
  UDPSocket_sendto_def UDPSocket_send_def sendmsg_helper_def TCPSocket_listen_def

lemma call_method_safe:
  assumes "hrefs w f \<noteq> None"
  shows "safe_wrt refs_kept (call_method K f m) w"
  using assms
  by (cases m) (simp_all only: call_method.simps socket_methods FileDescriptor_read_def FileDescriptor_eof_def
      FileDescriptor_closed_def FileDescriptor_read_count_def FileDescriptor_write_count_def Let_def,
    (intro safe_intros fd_method_safe; simp add: refs_kept_def)+)

section \<open>Statements keep the count\<close>

definition scope_safe :: "'a result \<times> ('k, 'v) scope \<Rightarrow> bool" where
  "scope_safe rs \<longleftrightarrow> defined (fst rs) \<and> owners_ok (snd rs)"

lemma empty_handed_simps [simp]: "empty_handed None" "empty_handed (Some None)" "\<not> empty_handed (Some (Some f))"
  by (simp_all add: empty_handed_def)

lemma not_alive: "\<not> alive x s \<Longrightarrow> sc_vars s x = None"
  by (simp add: alive_def)

lemma owns_cases:
  assumes "owns x s"
  obtains f where "sc_vars s x = Some (Some f)"
  using assms by (auto simp: owns_def pointer_def split: option.splits)

lemma owned_live: "owners_ok s \<Longrightarrow> sc_vars s x = Some (Some f) \<Longrightarrow> hrefs (sc_world s) f \<noteq> None"
  using owner_count_lose [of "sc_vars s" x f None] by (auto simp: owners_ok_def)

lemma declare_made:
  assumes "owners_ok s" and "empty_handed (sc_vars s x)" and "makes_owner m (sc_world s)"
  shows "scope_safe (declare_var x m s)"
proof -
  note ok = assms(1) [unfolded owners_ok_def]
  have "owner_count ((sc_vars s)(x \<mapsto> Some f)) = (hrefs (sc_world s))(f \<mapsto> 1)" if "hrefs (sc_world s) f = None" for f
    using owner_count_gain [OF conjunct1 [OF ok] assms(2), of f] ok that by simp
  with assms(3) ok show ?thesis
    by (auto simp: declare_var_def makes_owner_def scope_safe_def owners_ok_def refs_kept_def defined_def
        split: prod.splits sum.splits)
qed

lemma declare_taken:
  assumes "owners_ok s" and "sc_vars s y = Some (Some f)" and "sc_vars s x = None"
    and "takes_owner f m (sc_world s)"
  shows "scope_safe (seqS (set_var y (Some None)) (declare_var x m) s)"
proof -
  note ok = assms(1) [unfolded owners_ok_def]
  have over: "owner_count ((sc_vars s)(y \<mapsto> None, x \<mapsto> Some f)) = hrefs (sc_world s)"
    using owner_count_hand_over [of "sc_vars s" y "Some f" x] ok assms(2,3) by (cases "x = y") auto
  obtain n where "hrefs (sc_world s) f = Some n"
      "owner_count ((sc_vars s)(y \<mapsto> None)) = (hrefs (sc_world s))(f := if n > 1 then Some (n - 1) else None)"
    using owner_count_lose [of "sc_vars s" y f "Some None"] ok assms(2) by auto
  with over assms(4) ok show ?thesis
    by (auto simp: declare_var_def set_var_def takes_owner_def scope_safe_def owners_ok_def refs_kept_def defined_def
        split: prod.splits sum.splits)
qed

lemma on_world_safe:
  assumes "owners_ok s" and "safe_wrt refs_kept m (sc_world s)"
  shows "scope_safe (on_world m s)"
  using assms by (auto simp: on_world_def scope_safe_def safe_wrt_def owners_ok_def refs_kept_def split: prod.splits)

text \<open>Giving up a pointer, before the variable dies or gets another.\<close>

lemma release_owner:
  assumes "owners_ok s" and "alive x s" and "empty_handed p"
  shows "\<exists>w. on_world (FileDescriptor_release K (pointer x s)) s = (Inr (), s\<lparr>sc_world := w\<rparr>) \<and>
    owners_ok (s\<lparr>sc_vars := (sc_vars s)(x := p), sc_world := w\<rparr>)"
proof (cases "pointer x s")
  case None
  then have "empty_handed (sc_vars s x)"
    by (auto simp: pointer_def empty_handed_def)
  then have "owner_count ((sc_vars s)(x := p)) = owner_count (sc_vars s)"
    using assms(3) by (rule owner_count_empty_handed)
  with None assms(1) show ?thesis
    by (intro exI [of _ "sc_world s"]) (simp add: on_world_def FileDescriptor_release_def owners_ok_def)
next
  case (Some f)
  then have x: "sc_vars s x = Some (Some f)"
    by (auto simp: pointer_def split: option.splits)
  obtain n where n: "hrefs (sc_world s) f = Some n"
      "owner_count ((sc_vars s)(x := p)) = (hrefs (sc_world s))(f := if n > 1 then Some (n - 1) else None)"
    using owner_count_lose [of "sc_vars s" x f p] x assms(1,3) by (auto simp: owners_ok_def)
  obtain w where "FileDescriptor_destroy K f (sc_world s) = (Inr (), w)"
      "hrefs w = (hrefs (sc_world s))(f := if n > 1 then Some (n - 1) else None)"
    using destroy_hrefs [OF n(1)] by blast
  with Some n(2) assms(1) show ?thesis
    by (intro exI [of _ w]) (simp add: on_world_def FileDescriptor_release_def owners_ok_def)
qed

lemma exec_duplicate:
  assumes "owners_ok s" and "stmt_ok (Duplicate x y) s"
  shows "scope_safe (exec K (Duplicate x y) s)"
proof (cases "pointer y s")
  case None
  with assms show ?thesis
    by (simp add: set_var_def scope_safe_def owners_ok_def owner_count_empty_handed not_alive)
next
  case (Some f)
  then have "sc_vars s y = Some (Some f)"
    by (auto simp: pointer_def split: option.splits)
  then obtain n where n: "hrefs (sc_world s) f = Some n"
    using owned_live [OF assms(1)] by auto
  obtain w where "FileDescriptor_duplicate f (sc_world s) = (Inr f, w)" "hrefs w = (hrefs (sc_world s))(f \<mapsto> Suc n)"
    using duplicate_hrefs [OF n] by blast
  moreover have "owner_count ((sc_vars s)(x \<mapsto> Some f)) = (hrefs (sc_world s))(f \<mapsto> Suc n)"
    using owner_count_gain [of "sc_vars s" x f] assms n by (simp add: owners_ok_def not_alive)
  ultimately show ?thesis
    using Some assms(1) by (simp add: declare_var_def scope_safe_def owners_ok_def)
qed

lemma hand_over_ok:
  assumes "owners_ok s" and "alive y s" and "empty_handed (sc_vars s x)" and "x \<noteq> y"
  shows "owners_ok (s\<lparr>sc_vars := (sc_vars s)(y \<mapsto> None, x \<mapsto> pointer y s)\<rparr>)"
proof -
  have "sc_vars s y = Some (pointer y s)"
    using assms(2) by (auto simp: alive_def pointer_def)
  with assms show ?thesis
    using owner_count_hand_over [of "sc_vars s" y "pointer y s" x] by (simp add: owners_ok_def)
qed

lemma exec_moves:
  assumes "owners_ok s"
  shows "stmt_ok (MoveConstruct x y) s \<Longrightarrow> scope_safe (exec K (MoveConstruct x y) s)"
    and "stmt_ok (MoveAssign x y) s \<Longrightarrow> scope_safe (exec K (MoveAssign x y) s)"
proof -
  show "scope_safe (exec K (MoveConstruct x y) s)" if "stmt_ok (MoveConstruct x y) s"
    using hand_over_ok [OF assms, of y x] that
    by (cases "x = y") (auto simp: FileDescriptor_move_construct_def set_var_def scope_safe_def not_alive)
  show "scope_safe (exec K (MoveAssign x y) s)" if ok: "stmt_ok (MoveAssign x y) s"
  proof (cases "x = y")
    case True
    then show ?thesis using assms by (simp add: scope_safe_def)
  next
    case False
    have x: "alive x s" "alive y s" using ok by simp_all
    obtain w where w: "on_world (FileDescriptor_release K (pointer x s)) s = (Inr (), s\<lparr>sc_world := w\<rparr>)"
        "owners_ok (s\<lparr>sc_vars := (sc_vars s)(x \<mapsto> None), sc_world := w\<rparr>)"
      using release_owner [OF assms x(1), of "Some None"] by auto
    then have "on_world (FileDescriptor_move_assign K (pointer x s) (pointer y s)) s =
        (Inr (pointer y s, None), s\<lparr>sc_world := w\<rparr>)"
      by (simp add: on_world_def FileDescriptor_move_assign_def seqS_run split: prod.splits)
    moreover have "owners_ok (s\<lparr>sc_vars := (sc_vars s)(y \<mapsto> None, x \<mapsto> pointer y s), sc_world := w\<rparr>)"
      using hand_over_ok [OF w(2), of y x] False x(2) by (simp add: alive_def pointer_def fun_upd_twist owners_ok_def)
    ultimately show ?thesis
      using False by (simp add: bindS_run set_var_def scope_safe_def owners_ok_def)
  qed
qed

lemma exec_safe:
  assumes "owners_ok s" and "stmt_ok t s" and "getsockopt_ok K"
  shows "scope_safe (exec K t s)"
proof (cases t)
  case (Construct x n)
  with assms show ?thesis by (simp add: declare_made new_makes_owner not_alive)
next
  case (NewSocket x domain type)
  with assms show ?thesis by (simp add: declare_made constructors_make_owner(1) not_alive)
next
  case (AsSocket x y domain type)
  then obtain f where f: "sc_vars s y = Some (Some f)" using assms(2) by (auto elim: owns_cases)
  then show ?thesis
    using AsSocket assms declare_taken [OF assms(1) f, of x]
      Socket_of_fd_takes_owner [OF assms(3) owned_live [OF assms(1) f], of domain type]
    by (simp add: use_var_def not_alive)
next
  case (Accept x y)
  then obtain f where f: "sc_vars s y = Some (Some f)" using assms(2) by (auto elim: owns_cases)
  then show ?thesis
    using Accept assms declare_made [OF assms(1), of x] constructors_make_owner(3) [OF assms(3) owned_live [OF assms(1) f]]
    by (simp add: use_var_def not_alive)
next
  case (OpenTunTap x devname is_tun)
  with assms show ?thesis by (simp add: declare_made constructors_make_owner(2) not_alive)
next
  case (Duplicate x y)
  with assms show ?thesis using exec_duplicate [OF assms(1), of x y] by simp
next
  case (MoveConstruct x y)
  with assms(2) show ?thesis using exec_moves(1) [OF assms(1), of x y K] by (simp only:)
next
  case (MoveAssign x y)
  with assms(2) show ?thesis using exec_moves(2) [OF assms(1), of x y K] by (simp only:)
next
  case (Destroy x)
  with assms show ?thesis
    using release_owner [OF assms(1), of x None K] by (auto simp: bindS_run seqS_run set_var_def scope_safe_def owners_ok_def)
next
  case (Call x m)
  then obtain f where f: "sc_vars s x = Some (Some f)" using assms(2) by (auto elim: owns_cases)
  then show ?thesis
    using Call on_world_safe [OF assms(1) call_method_safe [OF owned_live [OF assms(1) f]]]
    by (simp add: use_var_def)
qed

lemma fd_reach_ok: "fd_reach K s \<Longrightarrow> getsockopt_ok K \<Longrightarrow> owners_ok s"
proof (induction rule: fd_reach.induct)
  case (empty s)
  then show ?case
    unfolding owners_ok_def by (auto simp: hrefs_def owner_count_def)
next
  case (step s t r s')
  then show ?case
    using exec_safe [of s t K] by (simp add: scope_safe_def)
qed

section \<open>Properties\<close>

text \<open>C20. No program can make a descriptor dangle or leak.  Whatever statements it runs on its variables (constructors, copies, moves,
  destructors, reads, writes, socket calls other than \<open>recv(mtu)\<close>, which hands a null pointer to \<open>memcpy\<close>), whichever
  of them throw, and whatever the kernel answers to each system call, as long as a \<open>getsockopt\<close> that fails sets \<open>errno\<close>:
  every wrapper on the heap counts exactly the variables that refer to it; the next statement stays within the language,
  provided that it does not use a variable that was moved from; and when the last variable is gone, no wrapper is
  left.\<close>

theorem fd_programs_safe:
  assumes "fd_reach K s" and "getsockopt_ok K"
  shows "(\<forall>f. map_option cell_refs (cell_at (sc_world s) f) =
            (let n = card {x. sc_vars s x = Some (Some f)} in if n = 0 then None else Some n)) \<and>
         (\<forall>t u. stmt_ok t s \<longrightarrow> fst (exec K t s) \<noteq> Inl (Undefined u)) \<and>
         ((\<forall>x. \<not> alive x s) \<longrightarrow> (\<forall>f. cell_at (sc_world s) f = None))"
proof -
  have ok: "owners_ok s" using assms by (rule fd_reach_ok)
  then have refs: "hrefs (sc_world s) = owner_count (sc_vars s)" by (simp add: owners_ok_def)
  have "fst (exec K t s) \<noteq> Inl (Undefined u)" if "stmt_ok t s" for t u
    using exec_safe [OF ok that assms(2)] by (simp add: scope_safe_def defined_def)
  moreover have "cell_at (sc_world s) f = None" if "\<forall>x. \<not> alive x s" for f
    using fun_cong [OF refs, of f] that by (simp add: hrefs_def owner_count_def alive_def)
  moreover have "map_option cell_refs (cell_at (sc_world s) f) =
      (let n = card {x. sc_vars s x = Some (Some f)} in if n = 0 then None else Some n)" for f
    using fun_cong [OF refs, of f] by (simp add: hrefs_def owner_count_def)
  ultimately show ?thesis by blast
qed

text \<open>A program as a list of statements.\<close>

fun run_stmts :: "('k, 'z) kernel_scheme \<Rightarrow> 'v fd_stmt list \<Rightarrow> ('k, 'v) scope \<Rightarrow> ('k, 'v) scope" where
  "run_stmts K [] s = s"
| "run_stmts K (t # ts) s = run_stmts K ts (snd (exec K t s))"

fun stmts_ok :: "('k, 'z) kernel_scheme \<Rightarrow> 'v fd_stmt list \<Rightarrow> ('k, 'v) scope \<Rightarrow> bool" where
  "stmts_ok K [] s = True"
| "stmts_ok K (t # ts) s = (stmt_ok t s \<and> stmts_ok K ts (snd (exec K t s)))"

lemma fd_reach_stmts: "fd_reach K s \<Longrightarrow> stmts_ok K ts s \<Longrightarrow> fd_reach K (run_stmts K ts s)"
  by (induction ts arbitrary: s) (auto intro: fd_reach.step [OF _ _ prod.collapse [symmetric]])

definition empty_scope :: "'k \<Rightarrow> ('k, nat) scope" where
  "empty_scope k = \<lparr>sc_vars = (\<lambda>x. None), sc_world = fresh_world k\<rparr>"

definition small_program :: "nat fd_stmt list" where
  "small_program = [Construct 0 5, Duplicate 1 0, Call 1 M_eof, Construct 2 7, MoveAssign 2 1, Destroy 0, Destroy 1,
     Call 2 M_close, Destroy 2]"

lemmas run_program = small_program_def empty_scope_def fresh_world_def declare_var_def use_var_def set_var_def on_world_def
  pointer_def alive_def owns_def FileDescriptor_new_def FDWrapper_new_def FileDescriptor_duplicate_def
  FileDescriptor_move_assign_def FileDescriptor_release_def FileDescriptor_destroy_def FDWrapper_destroy_def fd_methods
  cell_at_def set_cell_def fd_get_def fd_mod_def catchS_def bindS_run seqS_run syscall_run SystemCall_run discard_def

theorem fd_programs_safe_witness:
  "\<forall>f. cell_at (sc_world (run_stmts failing_kernel small_program (empty_scope ()))) f = None"
proof -
  have "fd_reach failing_kernel (empty_scope ())"
    by (rule fd_reach.empty) (simp_all add: empty_scope_def fresh_world_def cell_at_def)
  moreover have "stmts_ok failing_kernel small_program (empty_scope ())"
    by (simp add: run_program failing_kernel_def)
  ultimately have "fd_reach failing_kernel (run_stmts failing_kernel small_program (empty_scope ()))"
    by (rule fd_reach_stmts)
  moreover have "\<forall>x. \<not> alive x (run_stmts failing_kernel small_program (empty_scope ()))"
    by (simp add: run_program failing_kernel_def)
  moreover have "getsockopt_ok (failing_kernel :: unit kernel)"
    by (simp add: getsockopt_ok_def failing_kernel_def)
  ultimately show ?thesis
    using fd_programs_safe by blast
qed

end
