(* ===== verification/Event_Loop.thy ===== *)
theory Event_Loop
  imports Fd_Programs
begin

unbundle bit_operations_syntax

text \<open>
  \<open>EventLoop\<close> of \<open>libsponge/util/eventloop.hh\<close> and \<open>libsponge/util/eventloop.cc\<close>.  The rules are the nodes of a
  \<open>std::list\<close>: a node has an address, an iterator is the address of a node or the end, and using an
  iterator whose node is gone is undefined.  The closures a rule holds can do anything to the state,
  so they are names, and what running one does is a parameter \<open>C\<close>.  The two loops of
  \<open>wait_next_event\<close> may not end when closures keep adding rules; then the result is \<open>None\<close>.
\<close>

section \<open>Rules\<close>

datatype Direction = In | Out

fun Direction_bits :: "Direction \<Rightarrow> uint16_t" where
  "Direction_bits In = POLLIN"
| "Direction_bits Out = POLLOUT"

record 'c Rule =
  rule_node :: nat
  rule_fd :: FileDescriptor
  rule_direction :: Direction
  rule_callback :: 'c
  rule_interest :: 'c
  rule_cancel :: 'c

record ('k, 'c) loop =
  lp_world :: "'k world"
  lp_rules :: "'c Rule list"
  lp_next_node :: nat

text \<open>\<open>CallbackT\<close> closures return nothing, \<open>InterestT\<close> closures a \<open>bool\<close>.\<close>

record ('k, 'c) closures =
  run_callback :: "'c \<Rightarrow> (('k, 'c) loop, unit) act"
  run_interest :: "'c \<Rightarrow> (('k, 'c) loop, bool) act"

datatype Result = Success | Timeout | Exit

definition worldS :: "('k world, 'a) act \<Rightarrow> (('k, 'c) loop, 'a) act" where
  "worldS m = (\<lambda>s. case m (lp_world s) of (r, w) \<Rightarrow> (r, s\<lparr>lp_world := w\<rparr>))"

definition Rule_service_count :: "'c Rule \<Rightarrow> (('k, 'c) loop, uint32_t) act" where
  "Rule_service_count r =
     worldS (if rule_direction r = In then FileDescriptor_read_count (rule_fd r)
             else FileDescriptor_write_count (rule_fd r))"

definition EventLoop_add_rule ::
  "FileDescriptor \<Rightarrow> Direction \<Rightarrow> 'c \<Rightarrow> 'c \<Rightarrow> 'c \<Rightarrow> (('k, 'c) loop, unit) act" where
  "EventLoop_add_rule f direction callback interest cancel =
     bindS (worldS (FileDescriptor_duplicate f)) (\<lambda>g.
       modS (\<lambda>s. s\<lparr>lp_rules := lp_rules s @ [\<lparr>rule_node = lp_next_node s, rule_fd = g, rule_direction = direction,
           rule_callback = callback, rule_interest = interest, rule_cancel = cancel\<rparr>],
         lp_next_node := Suc (lp_next_node s)\<rparr>))"

section \<open>Iterators\<close>

text \<open>An iterator is the address of a node, or \<open>None\<close> for \<open>end()\<close>.\<close>

fun iter_begin :: "'c Rule list \<Rightarrow> nat option" where
  "iter_begin [] = None"
| "iter_begin (r # rs) = Some (rule_node r)"

fun iter_after :: "'c Rule list \<Rightarrow> nat \<Rightarrow> nat option result" where
  "iter_after [] n = Inl (Undefined BadIterator)"
| "iter_after (r # rs) n = (if rule_node r = n then Inr (iter_begin rs) else iter_after rs n)"

fun rule_at :: "'c Rule list \<Rightarrow> nat \<Rightarrow> 'c Rule result" where
  "rule_at [] n = Inl (Undefined BadIterator)"
| "rule_at (r # rs) n = (if rule_node r = n then Inr r else rule_at rs n)"

definition iter_deref :: "nat \<Rightarrow> (('k, 'c) loop, 'c Rule) act" where
  "iter_deref n = bindS (getS (\<lambda>s. rule_at (lp_rules s) n)) liftS"

definition iter_next :: "nat \<Rightarrow> (('k, 'c) loop, nat option) act" where
  "iter_next n = bindS (getS (\<lambda>s. iter_after (lp_rules s) n)) liftS"

text \<open>\<open>_rules.erase(it)\<close>: the node goes, and with it the rule's own copy of the descriptor.\<close>

definition drop_rule :: "('k, 'z) kernel_scheme \<Rightarrow> 'c Rule \<Rightarrow> (('k, 'c) loop, unit) act" where
  "drop_rule K r =
     seqS (modS (\<lambda>s. s\<lparr>lp_rules := filter (\<lambda>r'. rule_node r' \<noteq> rule_node r) (lp_rules s)\<rparr>))
       (worldS (FileDescriptor_destroy K (rule_fd r)))"

definition rules_erase :: "('k, 'z) kernel_scheme \<Rightarrow> nat \<Rightarrow> (('k, 'c) loop, nat option) act" where
  "rules_erase K n =
     bindS (iter_deref n) (\<lambda>r. bindS (iter_next n) (\<lambda>it. seqS (drop_rule K r) (retS it)))"

section \<open>wait_next_event\<close>

text \<open>The first loop.  For one rule: cancel it (\<open>None\<close>) or make its \<open>pollfd\<close>.\<close>

definition setup_rule ::
  "('k, 'c) closures \<Rightarrow> 'c Rule \<Rightarrow> (('k, 'c) loop, (pollfd \<times> bool) option) act" where
  "setup_rule C r =
     bindS (if rule_direction r = In then worldS (FileDescriptor_eof (rule_fd r)) else retS False) (\<lambda>eof.
     if eof then seqS (run_callback C (rule_cancel r)) (retS None)
     else
     bindS (worldS (FileDescriptor_closed (rule_fd r))) (\<lambda>closed.
     if closed then seqS (run_callback C (rule_cancel r)) (retS None)
     else
     bindS (run_interest C (rule_interest r)) (\<lambda>interested.
     bindS (worldS (FileDescriptor_fd_num (rule_fd r))) (\<lambda>fd.
       retS (Some (\<lparr>pfd_fd = fd, pfd_events = (if interested then Direction_bits (rule_direction r) else 0),
         pfd_revents = 0\<rparr>, interested))))))"

definition setup_step ::
  "('k, 'z) kernel_scheme \<Rightarrow> ('k, 'c) closures \<Rightarrow> nat \<Rightarrow> pollfd list \<Rightarrow> bool \<Rightarrow>
    (('k, 'c) loop, nat option \<times> pollfd list \<times> bool) act" where
  "setup_step K C n pollfds something_to_poll =
     bindS (iter_deref n) (\<lambda>r.
     bindS (setup_rule C r) (\<lambda>made. case made of
         None \<Rightarrow> bindS (rules_erase K n) (\<lambda>it. retS (it, pollfds, something_to_poll))
       | Some (p, interested) \<Rightarrow>
           bindS (iter_next n) (\<lambda>it. retS (it, pollfds @ [p], something_to_poll \<or> interested))))"

partial_function (option) setup_loop ::
  "('k, 'z) kernel_scheme \<Rightarrow> ('k, 'c) closures \<Rightarrow> nat option \<Rightarrow> pollfd list \<Rightarrow> bool \<Rightarrow> ('k, 'c) loop \<Rightarrow>
    ((pollfd list \<times> bool) result \<times> ('k, 'c) loop) option" where
  "setup_loop K C it pollfds something_to_poll s =
     (case it of
        None \<Rightarrow> Some (Inr (pollfds, something_to_poll), s)
      | Some n \<Rightarrow>
          (case setup_step K C n pollfds something_to_poll s of
             (Inl e, s') \<Rightarrow> Some (Inl e, s')
           | (Inr (it', pollfds', something'), s') \<Rightarrow> setup_loop K C it' pollfds' something' s'))"

text \<open>The call of \<open>poll\<close>: the kernel fills in \<open>revents\<close>.  The handler returns for \<open>EINTR\<close>, and for every other
  \<open>unix_error\<close> it lets the function go on.\<close>

fun set_revents :: "pollfd list \<Rightarrow> uint16_t list \<Rightarrow> pollfd list" where
  "set_revents (p # ps) (v # vs) = p\<lparr>pfd_revents := v\<rparr> # set_revents ps vs"
| "set_revents ps vs = ps"

datatype polled = Returns Result | Goes_on

definition poll_result :: "('k, 'z) kernel_scheme \<Rightarrow> int \<Rightarrow> ('k world, polled) act" where
  "poll_result K r =
     catchS
       (bindS (SystemCall K ''poll'' (to_int r) 0) (\<lambda>n. retS (if n = 0 then Returns Timeout else Goes_on)))
       (\<lambda>e. case e of
            unix_error _ code \<Rightarrow> retS (if code = EINTR then Returns Exit else Goes_on)
          | _ \<Rightarrow> throwS e)"

definition call_poll ::
  "('k, 'z) kernel_scheme \<Rightarrow> pollfd list \<Rightarrow> int \<Rightarrow> (('k, 'c) loop, polled \<times> pollfd list) act" where
  "call_poll K pollfds timeout_ms =
     bindS (worldS (osS (os_poll K pollfds (of_nat (length pollfds)) timeout_ms))) (\<lambda>(r, revents).
     bindS (worldS (poll_result K r)) (\<lambda>p. retS (p, set_revents pollfds revents)))"

text \<open>The second loop.  For one rule and its \<open>pollfd\<close>: whether the rule is to be erased.  \<open>this_rule\<close> refers to the
  node, which must still be there when the callback has returned.\<close>

definition dispatch_rule :: "('k, 'c) closures \<Rightarrow> 'c Rule \<Rightarrow> pollfd \<Rightarrow> (('k, 'c) loop, bool) act" where
  "dispatch_rule C r p =
     (let poll_error = (pfd_revents p AND (POLLERR OR POLLNVAL) \<noteq> 0);
          poll_ready = (pfd_revents p AND pfd_events p \<noteq> 0);
          poll_hup = (pfd_revents p AND POLLHUP \<noteq> 0) in
      if poll_error then throwS (runtime_error ''EventLoop: error on polled file descriptor'')
      else if poll_hup \<and> pfd_events p \<noteq> 0 \<and> \<not> poll_ready then
        seqS (run_callback C (rule_cancel r)) (retS True)
      else if poll_ready then
        bindS (Rule_service_count r) (\<lambda>count_before.
        seqS (run_callback C (rule_callback r))
          (seqS (iter_deref (rule_node r))
          (bindS (Rule_service_count r) (\<lambda>count_after.
           bindS (if count_before = count_after then run_interest C (rule_interest r) else retS False) (\<lambda>busy.
           if busy then throwS (runtime_error
             ''EventLoop: busy wait detected: callback did not read/write fd and is still interested'')
           else retS False)))))
      else retS False)"

definition dispatch_step ::
  "('k, 'z) kernel_scheme \<Rightarrow> ('k, 'c) closures \<Rightarrow> nat \<Rightarrow> nat \<Rightarrow> pollfd list \<Rightarrow> (('k, 'c) loop, nat option) act" where
  "dispatch_step K C n idx pollfds =
     (if length pollfds \<le> idx then throwS (Undefined OutOfBounds)
      else
        bindS (iter_deref n) (\<lambda>r.
        bindS (dispatch_rule C r (pollfds ! idx)) (\<lambda>gone.
          if gone then rules_erase K n else iter_next n)))"

partial_function (option) dispatch_loop ::
  "('k, 'z) kernel_scheme \<Rightarrow> ('k, 'c) closures \<Rightarrow> nat option \<Rightarrow> nat \<Rightarrow> pollfd list \<Rightarrow> ('k, 'c) loop \<Rightarrow>
    (unit result \<times> ('k, 'c) loop) option" where
  "dispatch_loop K C it idx pollfds s =
     (case it of
        None \<Rightarrow> Some (Inr (), s)
      | Some n \<Rightarrow>
          (case dispatch_step K C n idx pollfds s of
             (Inl e, s') \<Rightarrow> Some (Inl e, s')
           | (Inr it', s') \<Rightarrow> dispatch_loop K C it' (Suc idx) pollfds s'))"

definition EventLoop_wait_next_event ::
  "('k, 'z) kernel_scheme \<Rightarrow> ('k, 'c) closures \<Rightarrow> int \<Rightarrow> ('k, 'c) loop \<Rightarrow> (Result result \<times> ('k, 'c) loop) option" where
  "EventLoop_wait_next_event K C timeout_ms s =
     (case setup_loop K C (iter_begin (lp_rules s)) [] False s of
        None \<Rightarrow> None
      | Some (Inl e, s1) \<Rightarrow> Some (Inl e, s1)
      | Some (Inr (pollfds, something_to_poll), s1) \<Rightarrow>
          if \<not> something_to_poll then Some (Inr Exit, s1)
          else (case call_poll K pollfds timeout_ms s1 of
              (Inl e, s2) \<Rightarrow> Some (Inl e, s2)
            | (Inr (Returns r, pollfds'), s2) \<Rightarrow> Some (Inr r, s2)
            | (Inr (Goes_on, pollfds'), s2) \<Rightarrow>
                (case dispatch_loop K C (iter_begin (lp_rules s2)) 0 pollfds' s2 of
                   None \<Rightarrow> None
                 | Some (Inl e, s3) \<Rightarrow> Some (Inl e, s3)
                 | Some (Inr _, s3) \<Rightarrow> Some (Inr Success, s3))))"

section \<open>Tame closures\<close>

text \<open>What a closure may not touch: the list of rules and the owners of descriptors.\<close>

definition keeps :: "('k, 'c) loop \<Rightarrow> ('k, 'c) loop \<Rightarrow> bool" where
  "keeps s s' \<longleftrightarrow> lp_rules s' = lp_rules s \<and> lp_next_node s' = lp_next_node s \<and>
     refs_kept (lp_world s) (lp_world s')"

abbreviation safe :: "(('k, 'c) loop, 'a) act \<Rightarrow> ('k, 'c) loop \<Rightarrow> bool" where
  "safe \<equiv> safe_wrt keeps"

text \<open>Every rule has a node of its own, older than the next one to be allocated, and a live descriptor, of which
  it is one of the owners.  The descriptors in \<open>H\<close> are held by the program: they have an owner beside the rules.\<close>

definition owners :: "'c Rule list \<Rightarrow> FileDescriptor \<Rightarrow> nat" where
  "owners rs f = length (filter (\<lambda>r. rule_fd r = f) rs)"

definition loop_ok :: "FileDescriptor set \<Rightarrow> ('k, 'c) loop \<Rightarrow> bool" where
  "loop_ok H s \<longleftrightarrow> distinct (map rule_node (lp_rules s)) \<and>
     (\<forall>r \<in> set (lp_rules s). rule_node r < lp_next_node s) \<and>
     (\<forall>r \<in> set (lp_rules s). \<exists>c. cell_at (lp_world s) (rule_fd r) = Some c \<and>
        owners (lp_rules s) (rule_fd r) \<le> cell_refs c) \<and>
     (\<forall>f \<in> H. \<exists>c. cell_at (lp_world s) f = Some c \<and> owners (lp_rules s) f < cell_refs c)"

text \<open>Tame closures may read, write and close the descriptors the program holds, and throw, but neither add nor remove
  rules or owners of descriptors, and they stay within the language.\<close>

definition tame :: "FileDescriptor set \<Rightarrow> ('k, 'c) closures \<Rightarrow> bool" where
  "tame H C \<longleftrightarrow> (\<forall>c s. loop_ok H s \<longrightarrow> safe (run_callback C c) s \<and> safe (run_interest C c) s)"

interpretation lk: kept_relation keeps
  by unfold_locales (auto simp: keeps_def intro: refs.kept_refl refs.kept_trans)

declare lk.kept_refl [simp]

lemma cell_hrefs: "(\<exists>c. cell_at w f = Some c \<and> P (cell_refs c)) \<longleftrightarrow> (\<exists>n. hrefs w f = Some n \<and> P n)"
  by (auto simp: hrefs_def)

lemma keeps_loop_ok: "loop_ok H s \<Longrightarrow> keeps s s' \<Longrightarrow> loop_ok H s'"
  unfolding loop_ok_def cell_hrefs keeps_def refs_kept_def by simp

text \<open>What is safe for the descriptors is safe for the loop around them.\<close>

lemma world_safe: "safe_wrt refs_kept m (lp_world s) \<Longrightarrow> safe (worldS m) s"
  by (auto simp: safe_wrt_def worldS_def keeps_def split: prod.splits)

text \<open>Looking at the descriptor of a rule.\<close>

lemma rule_live: "loop_ok H s \<Longrightarrow> r \<in> set (lp_rules s) \<Longrightarrow> keeps s s' \<Longrightarrow> \<exists>c. cell_at (lp_world s') (rule_fd r) = Some c"
  using keeps_loop_ok [of H s s'] by (auto simp: keeps_def loop_ok_def)

lemma safe_fd_get:
  assumes "loop_ok H s" and "r \<in> set (lp_rules s)" and "keeps s s'"
  shows "safe (worldS (fd_get (rule_fd r) g)) s'"
  using rule_live [OF assms] by (intro world_safe fd_get_safe) (auto simp: hrefs_def)

lemmas fd_accessors =
  FileDescriptor_eof_def FileDescriptor_closed_def FileDescriptor_fd_num_def FileDescriptor_read_count_def
  FileDescriptor_write_count_def

lemma safe_service_count: "loop_ok H s \<Longrightarrow> r \<in> set (lp_rules s) \<Longrightarrow> keeps s s' \<Longrightarrow> safe (Rule_service_count r) s'"
  by (simp add: Rule_service_count_def fd_accessors safe_fd_get)

lemma rule_at_set: "r \<in> set rs \<Longrightarrow> \<exists>r'. rule_at rs (rule_node r) = Inr r'"
  by (induction rs) auto

lemma safe_deref:
  assumes "r \<in> set (lp_rules s)" and "keeps s s'"
  shows "safe (iter_deref (rule_node r)) s'"
proof -
  have "r \<in> set (lp_rules s')" using assms by (simp add: keeps_def)
  then show ?thesis using rule_at_set [of r "lp_rules s'"] by (auto simp: safe_wrt_def iter_deref_def)
qed

lemma closure_safe:
  assumes "tame H C" and "loop_ok H s" and "keeps s s'"
  shows "safe (run_callback C c) s'" and "safe (run_interest C c) s'"
  using assms keeps_loop_ok [OF assms(2,3)] by (simp_all add: tame_def)

lemma safe_setup_rule:
  assumes "tame H C" and "loop_ok H s" and "r \<in> set (lp_rules s)"
  shows "safe (setup_rule C r) s"
  unfolding setup_rule_def fd_accessors
  by (intro safe_intros) (auto intro!: safe_fd_get [OF assms(2,3)] closure_safe [OF assms(1,2)] intro: lk.kept_trans)

lemma safe_dispatch_rule:
  assumes "tame H C" and "loop_ok H s" and "r \<in> set (lp_rules s)"
  shows "safe (dispatch_rule C r p) s"
  unfolding dispatch_rule_def Let_def
  by (intro safe_intros)
    (auto intro!: safe_service_count [OF assms(2,3)] safe_deref [OF assms(3)] closure_safe [OF assms(1,2)]
      intro: lk.kept_trans)

section \<open>Erasing and advancing\<close>

lemma rule_at_mid: "rule_node r \<notin> rule_node ` set pre \<Longrightarrow> rule_at (pre @ r # rs) (rule_node r) = Inr r"
  by (induction pre) auto

lemma iter_after_mid: "rule_node r \<notin> rule_node ` set pre \<Longrightarrow> iter_after (pre @ r # rs) (rule_node r) = Inr (iter_begin rs)"
  by (induction pre) auto

lemma rule_at_after: "iter_after rs n = Inr it \<Longrightarrow> \<exists>r. rule_at rs n = Inr r"
  by (induction rs) (auto split: if_splits)

lemma filter_mid:
  assumes "rule_node r \<notin> rule_node ` set (pre @ rs)"
  shows "filter (\<lambda>r'. rule_node r' \<noteq> rule_node r) (pre @ r # rs) = pre @ rs"
proof -
  have "filter (\<lambda>r'. rule_node r' \<noteq> rule_node r) (pre @ rs) = pre @ rs"
    using assms by (intro filter_True) (metis image_eqI)
  then show ?thesis by simp
qed

lemma drop_rule_run:
  assumes "loop_ok H s" and "lp_rules s = pre @ r # rs"
  shows "\<exists>s'. drop_rule K r s = (Inr (), s') \<and> lp_rules s' = pre @ rs \<and> loop_ok H s'"
proof -
  let ?f = "rule_fd r"
  have d: "distinct (map rule_node (pre @ r # rs))"
    and live: "\<forall>r' \<in> set (pre @ r # rs). \<exists>c. cell_at (lp_world s) (rule_fd r') = Some c \<and>
      owners (pre @ r # rs) (rule_fd r') \<le> cell_refs c"
    using assms by (auto simp: loop_ok_def)
  obtain c where c: "cell_at (lp_world s) ?f = Some c" "Suc (owners (pre @ rs) ?f) \<le> cell_refs c"
    using live by (auto simp: owners_def)
  obtain w' where w': "FileDescriptor_destroy K ?f (lp_world s) = (Inr (), w')"
      "\<forall>g. g \<noteq> ?f \<longrightarrow> cell_at w' g = cell_at (lp_world s) g"
      "cell_at w' ?f = (if cell_refs c > 1 then Some (c\<lparr>cell_refs := cell_refs c - 1\<rparr>) else None)"
    using destroy_run [OF c(1)] by blast
  have "rule_node r \<notin> rule_node ` set (pre @ rs)"
    using d by auto
  note flt = filter_mid [OF this]
  let ?s = "s\<lparr>lp_rules := pre @ rs, lp_world := w'\<rparr>"
  have "drop_rule K r s = (Inr (), ?s)"
    using w'(1) assms(2) flt by (simp add: drop_rule_def worldS_def)
  moreover have "\<exists>c'. cell_at w' (rule_fd r') = Some c' \<and> owners (pre @ rs) (rule_fd r') \<le> cell_refs c'"
    if r': "r' \<in> set (pre @ rs)" for r'
  proof (cases "rule_fd r' = ?f")
    case True
    then have "0 < owners (pre @ rs) ?f"
      using r' by (auto simp: owners_def filter_empty_conv)
    then show ?thesis using True c(2) w'(3) by auto
  next
    case False
    obtain c' where "cell_at (lp_world s) (rule_fd r') = Some c'" "owners (pre @ r # rs) (rule_fd r') \<le> cell_refs c'"
      using live r' by auto
    then show ?thesis using False w'(2) by (auto simp: owners_def)
  qed
  moreover have "\<exists>c'. cell_at w' f = Some c' \<and> owners (pre @ rs) f < cell_refs c'" if f: "f \<in> H" for f
  proof -
    obtain c' where c': "cell_at (lp_world s) f = Some c'" "owners (pre @ r # rs) f < cell_refs c'"
      using assms f by (auto simp: loop_ok_def)
    then show ?thesis
      using w'(2,3) c(1) by (cases "f = ?f") (auto simp: owners_def)
  qed
  ultimately show ?thesis
    using d assms by (auto simp: loop_ok_def)
qed

lemma rules_erase_run:
  assumes "loop_ok H s" and "lp_rules s = pre @ r # rs"
  shows "\<exists>s'. rules_erase K (rule_node r) s = (Inr (iter_begin rs), s') \<and> drop_rule K r s = (Inr (), s') \<and>
    lp_rules s' = pre @ rs \<and> loop_ok H s'"
proof -
  have "rule_node r \<notin> rule_node ` set pre"
    using assms by (auto simp: loop_ok_def)
  then show ?thesis
    using drop_rule_run [OF assms, of K] assms(2)
    by (auto simp: rules_erase_def iter_deref_def iter_next_def bindS_run seqS_run rule_at_mid iter_after_mid)
qed

section \<open>The loops as recursion over the rules\<close>

text \<open>With tame closures the iterators are a way to go through the list of rules once: these are the two loops
  without iterators, and \<open>wait_next_event\<close> made of them.\<close>

fun setup_ref ::
  "('k, 'z) kernel_scheme \<Rightarrow> ('k, 'c) closures \<Rightarrow> 'c Rule list \<Rightarrow> pollfd list \<Rightarrow> bool \<Rightarrow>
    (('k, 'c) loop, pollfd list \<times> bool) act" where
  "setup_ref K C [] pollfds something = retS (pollfds, something)"
| "setup_ref K C (r # rs) pollfds something =
     bindS (setup_rule C r) (\<lambda>made. case made of
         None \<Rightarrow> seqS (drop_rule K r) (setup_ref K C rs pollfds something)
       | Some (p, interested) \<Rightarrow> setup_ref K C rs (pollfds @ [p]) (something \<or> interested))"

fun dispatch_ref ::
  "('k, 'z) kernel_scheme \<Rightarrow> ('k, 'c) closures \<Rightarrow> 'c Rule list \<Rightarrow> pollfd list \<Rightarrow> (('k, 'c) loop, unit) act" where
  "dispatch_ref K C [] ps = retS ()"
| "dispatch_ref K C (r # rs) [] = throwS (Undefined OutOfBounds)"
| "dispatch_ref K C (r # rs) (p # ps) =
     bindS (dispatch_rule C r p) (\<lambda>gone.
       if gone then seqS (drop_rule K r) (dispatch_ref K C rs ps) else dispatch_ref K C rs ps)"

definition wait_ref ::
  "('k, 'z) kernel_scheme \<Rightarrow> ('k, 'c) closures \<Rightarrow> int \<Rightarrow> (('k, 'c) loop, Result) act" where
  "wait_ref K C timeout_ms =
     bindS (bindS (getS lp_rules) (\<lambda>rs. setup_ref K C rs [] False)) (\<lambda>(pollfds, something_to_poll).
       if \<not> something_to_poll then retS Exit
       else bindS (call_poll K pollfds timeout_ms) (\<lambda>(p, pollfds'). case p of
           Returns r \<Rightarrow> retS r
         | Goes_on \<Rightarrow> seqS (bindS (getS lp_rules) (\<lambda>rs. dispatch_ref K C rs pollfds')) (retS Success)))"

text \<open>What one call leaves behind: a result within the language, and a subsequence of the rules, all of them
  still live.\<close>

definition wait_post :: "FileDescriptor set \<Rightarrow> ('k, 'c) loop \<Rightarrow> 'a result \<times> ('k, 'c) loop \<Rightarrow> bool" where
  "wait_post H s rs' \<longleftrightarrow> (case rs' of (r, s') \<Rightarrow>
     defined r \<and> loop_ok H s' \<and> subseq (lp_rules s') (lp_rules s))"

text \<open>The iterator at a node of the list, and what an action that keeps the list leaves of it.\<close>

lemma at_node:
  assumes "loop_ok H s" and "lp_rules s = pre @ r # rs"
  shows "r \<in> set (lp_rules s)" and "iter_deref (rule_node r) s = (Inr r, s)"
    and "iter_next (rule_node r) s = (Inr (iter_begin rs), s)"
proof -
  have "rule_node r \<notin> rule_node ` set pre"
    using assms by (auto simp: loop_ok_def)
  then show "r \<in> set (lp_rules s)" "iter_deref (rule_node r) s = (Inr r, s)"
    "iter_next (rule_node r) s = (Inr (iter_begin rs), s)"
    using assms(2) by (simp_all add: iter_deref_def rule_at_mid iter_next_def iter_after_mid)
qed

lemma keeps_rules: "loop_ok H s \<Longrightarrow> lp_rules s = l \<Longrightarrow> keeps s s' \<Longrightarrow> loop_ok H s' \<and> lp_rules s' = l"
  using keeps_loop_ok by (auto simp: keeps_def)

lemma setup_step_run:
  assumes "tame H C" and "loop_ok H s" and "lp_rules s = pre @ r # rs"
  obtains (throws) e s' where "setup_step K C (rule_node r) pollfds something s = (Inl e, s')"
      "setup_ref K C (r # rs) pollfds something s = (Inl e, s')" "defined (Inl e :: unit result)"
      "loop_ok H s'" "lp_rules s' = pre @ r # rs"
    | (cancels) s' where "setup_step K C (rule_node r) pollfds something s = (Inr (iter_begin rs, pollfds, something), s')"
      "setup_ref K C (r # rs) pollfds something s = setup_ref K C rs pollfds something s'"
      "loop_ok H s'" "lp_rules s' = pre @ rs"
    | (polls) p b s' where
      "setup_step K C (rule_node r) pollfds something s = (Inr (iter_begin rs, pollfds @ [p], something \<or> b), s')"
      "setup_ref K C (r # rs) pollfds something s = setup_ref K C rs (pollfds @ [p]) (something \<or> b) s'"
      "loop_ok H s'" "lp_rules s' = (pre @ [r]) @ rs"
proof -
  note r = at_node [OF assms(2,3)]
  from safe_setup_rule [OF assms(1,2) r(1)] show ?thesis
  proof (cases rule: lk.safe_cases)
    case (throws e s')
    with that(1) [of e s'] keeps_rules [OF assms(2,3)] r(2) show ?thesis
      by (simp add: setup_step_def bindS_run)
  next
    case (returns made s1)
    then have s1: "loop_ok H s1" "lp_rules s1 = pre @ r # rs"
      using keeps_rules [OF assms(2,3)] by blast+
    show ?thesis
    proof (cases made)
      case None
      obtain s2 where "rules_erase K (rule_node r) s1 = (Inr (iter_begin rs), s2)" "drop_rule K r s1 = (Inr (), s2)"
          "lp_rules s2 = pre @ rs" "loop_ok H s2"
        using rules_erase_run [OF s1] by blast
      with that(2) [of s2] r(2) returns(1) None show ?thesis
        by (simp add: setup_step_def bindS_run seqS_run)
    next
      case (Some pb)
      obtain p b where "pb = (p, b)" by (cases pb)
      with that(3) [of p b s1] r(2) returns(1) Some at_node(3) [OF s1] s1 show ?thesis
        by (simp add: setup_step_def bindS_run)
    qed
  qed
qed

lemma setup_loop_ref:
  assumes "tame H C" and "loop_ok H s" and "lp_rules s = pre @ rs"
  shows "setup_loop K C (iter_begin rs) pollfds something s = Some (setup_ref K C rs pollfds something s) \<and>
    (case setup_ref K C rs pollfds something s of (r, s') \<Rightarrow>
       defined r \<and> loop_ok H s' \<and> (\<exists>rs'. lp_rules s' = pre @ rs' \<and> subseq rs' rs \<and>
         (\<forall>ps b. r = Inr (ps, b) \<longrightarrow> length ps = length pollfds + length rs')))"
  using assms(2,3)
proof (induction rs arbitrary: s pre pollfds something)
  case Nil
  then show ?case by (simp add: setup_loop.simps [of K C None])
next
  case (Cons r rs)
  note unfold = setup_loop.simps [of K C "Some (rule_node r)"]
  from assms(1) Cons.prems show ?case
  proof (cases rule: setup_step_run [where K = K and pollfds = pollfds and something = something])
    case (throws e s')
    then show ?thesis by (auto simp: unfold defined_def simp del: setup_ref.simps)
  next
    case (cancels s')
    with Cons.IH [OF cancels(3,4), of pollfds something] show ?thesis
      by (auto simp: unfold simp del: setup_ref.simps)
  next
    case (polls p b s')
    with Cons.IH [OF polls(3,4), of "pollfds @ [p]" "something \<or> b"] show ?thesis
      by (fastforce simp: unfold simp del: setup_ref.simps)
  qed
qed

lemma dispatch_step_run:
  assumes "tame H C" and "loop_ok H s" and "lp_rules s = pre @ r # rs" and "drop idx pollfds = p # ps"
  obtains (throws) e s' where "dispatch_step K C (rule_node r) idx pollfds s = (Inl e, s')"
      "dispatch_ref K C (r # rs) (p # ps) s = (Inl e, s')" "defined (Inl e :: unit result)"
      "loop_ok H s'" "lp_rules s' = pre @ r # rs"
    | (cancels) s' where "dispatch_step K C (rule_node r) idx pollfds s = (Inr (iter_begin rs), s')"
      "dispatch_ref K C (r # rs) (p # ps) s = dispatch_ref K C rs ps s'" "loop_ok H s'" "lp_rules s' = pre @ rs"
    | (stays) s' where "dispatch_step K C (rule_node r) idx pollfds s = (Inr (iter_begin rs), s')"
      "dispatch_ref K C (r # rs) (p # ps) s = dispatch_ref K C rs ps s'" "loop_ok H s'" "lp_rules s' = (pre @ [r]) @ rs"
proof -
  have p: "\<not> length pollfds \<le> idx" "pollfds ! idx = p"
    using assms(4) by (metis drop_all list.distinct(1), metis hd_drop_conv_nth list.sel(1) not_le drop_all list.distinct(1))
  note r = at_node [OF assms(2,3)]
  from safe_dispatch_rule [OF assms(1,2) r(1), of p] show ?thesis
  proof (cases rule: lk.safe_cases)
    case (throws e s')
    with that(1) [of e s'] keeps_rules [OF assms(2,3)] r(2) p show ?thesis
      by (simp add: dispatch_step_def bindS_run)
  next
    case (returns gone s1)
    then have s1: "loop_ok H s1" "lp_rules s1 = pre @ r # rs"
      using keeps_rules [OF assms(2,3)] by blast+
    show ?thesis
    proof (cases gone)
      case True
      obtain s2 where "rules_erase K (rule_node r) s1 = (Inr (iter_begin rs), s2)" "drop_rule K r s1 = (Inr (), s2)"
          "lp_rules s2 = pre @ rs" "loop_ok H s2"
        using rules_erase_run [OF s1] by blast
      with that(2) [of s2] r(2) returns(1) True p show ?thesis
        by (simp add: dispatch_step_def bindS_run seqS_run)
    next
      case False
      with that(3) [of s1] r(2) returns(1) at_node(3) [OF s1] s1 p show ?thesis
        by (simp add: dispatch_step_def bindS_run)
    qed
  qed
qed

lemma dispatch_loop_ref:
  assumes "tame H C" and "loop_ok H s" and "lp_rules s = pre @ rs" and "idx + length rs \<le> length pollfds"
  shows "dispatch_loop K C (iter_begin rs) idx pollfds s = Some (dispatch_ref K C rs (drop idx pollfds) s) \<and>
    (case dispatch_ref K C rs (drop idx pollfds) s of (r, s') \<Rightarrow>
       defined r \<and> loop_ok H s' \<and> (\<exists>rs'. lp_rules s' = pre @ rs' \<and> subseq rs' rs))"
  using assms(2-4)
proof (induction rs arbitrary: s pre idx)
  case Nil
  then show ?case by (simp add: dispatch_loop.simps [of K C None])
next
  case (Cons r rs)
  have idx: "Suc idx + length rs \<le> length pollfds"
    and dr: "drop idx pollfds = pollfds ! idx # drop (Suc idx) pollfds"
    using Cons.prems(3) by (simp_all add: Cons_nth_drop_Suc)
  note unfold = dispatch_loop.simps [of K C "Some (rule_node r)"] dr
  from assms(1) Cons.prems(1,2) dr show ?case
  proof (cases rule: dispatch_step_run [where K = K])
    case (throws e s')
    then show ?thesis by (auto simp: unfold defined_def simp del: dispatch_ref.simps)
  next
    case (cancels s')
    with Cons.IH [OF cancels(3,4) idx] show ?thesis
      by (auto simp: unfold simp del: dispatch_ref.simps)
  next
    case (stays s')
    with Cons.IH [OF stays(3,4) idx] show ?thesis
      by (fastforce simp: unfold simp del: dispatch_ref.simps)
  qed
qed

lemma length_set_revents [simp]: "length (set_revents ps vs) = length ps"
  by (induction ps vs rule: set_revents.induct) simp_all

lemma call_poll_run:
  "\<exists>p vs s'. call_poll K pollfds t s = (Inr (p, set_revents pollfds vs), s') \<and> keeps s s'"
proof -
  obtain r vs k where k: "os_poll K pollfds (of_nat (length pollfds)) t (w_os (lp_world s)) = ((r, vs), k)"
    by (metis surj_pair)
  have "\<exists>p. poll_result K r (lp_world s\<lparr>w_os := k\<rparr>) = (Inr p, lp_world s\<lparr>w_os := k\<rparr>)"
    by (auto simp: poll_result_def catchS_def bindS_run SystemCall_run)
  then obtain p where "poll_result K r (lp_world s\<lparr>w_os := k\<rparr>) = (Inr p, lp_world s\<lparr>w_os := k\<rparr>)" ..
  with k have "call_poll K pollfds t s = (Inr (p, set_revents pollfds vs), s\<lparr>lp_world := lp_world s\<lparr>w_os := k\<rparr>\<rparr>)"
    by (simp add: call_poll_def bindS_run worldS_def)
  moreover have "keeps s (s\<lparr>lp_world := lp_world s\<lparr>w_os := k\<rparr>\<rparr>)"
    by (simp add: keeps_def refs_kept_def)
  ultimately show ?thesis by blast
qed

lemma wait_next_event_ref:
  assumes "tame H C" and "loop_ok H s"
  shows "EventLoop_wait_next_event K C t s = Some (wait_ref K C t s) \<and> wait_post H s (wait_ref K C t s)"
proof -
  have first: "setup_loop K C (iter_begin (lp_rules s)) [] False s = Some (setup_ref K C (lp_rules s) [] False s)"
    and post: "case setup_ref K C (lp_rules s) [] False s of (r, s') \<Rightarrow>
       defined r \<and> loop_ok H s' \<and> subseq (lp_rules s') (lp_rules s) \<and>
         (\<forall>ps b. r = Inr (ps, b) \<longrightarrow> length ps = length (lp_rules s'))"
    using setup_loop_ref [OF assms, of "[]" "lp_rules s" K "[]" False] by auto
  obtain r1 s1 where r1: "setup_ref K C (lp_rules s) [] False s = (r1, s1)" by fastforce
  show ?thesis
  proof (cases r1)
    case (Inl e)
    with first post r1 show ?thesis
      by (simp add: EventLoop_wait_next_event_def wait_ref_def bindS_run wait_post_def defined_def)
  next
    case (Inr x)
    obtain ps b where x: "x = (ps, b)" by (cases x)
    show ?thesis
    proof (cases b)
      case False
      with first post r1 Inr x show ?thesis
        by (simp add: EventLoop_wait_next_event_def wait_ref_def bindS_run wait_post_def)
    next
      case True
      obtain p vs s2 where cp: "call_poll K ps t s1 = (Inr (p, set_revents ps vs), s2)" "keeps s1 s2"
        using call_poll_run by blast
      then have s2: "loop_ok H s2" "lp_rules s2 = lp_rules s1" "length ps = length (lp_rules s2)"
        "subseq (lp_rules s2) (lp_rules s)"
        using post r1 Inr x keeps_loop_ok [of H s1 s2] by (auto simp: keeps_def)
      have "dispatch_loop K C (iter_begin (lp_rules s2)) 0 (set_revents ps vs) s2 =
            Some (dispatch_ref K C (lp_rules s2) (set_revents ps vs) s2)"
        "case dispatch_ref K C (lp_rules s2) (set_revents ps vs) s2 of (r, s') \<Rightarrow>
           defined r \<and> loop_ok H s' \<and> subseq (lp_rules s') (lp_rules s2)"
        using dispatch_loop_ref [OF assms(1) s2(1), of "[]" "lp_rules s2" 0 "set_revents ps vs" K] s2(3) by auto
      then show ?thesis
        using first r1 Inr x True cp(1) s2
        by (cases p; cases "dispatch_ref K C (lp_rules s2) (set_revents ps vs) s2";
            cases "fst (dispatch_ref K C (lp_rules s2) (set_revents ps vs) s2)")
          (auto simp: EventLoop_wait_next_event_def wait_ref_def bindS_run seqS_run wait_post_def defined_def
            intro: subseq_order.trans)
    qed
  qed
qed

lemma polled_length:
  assumes "tame H C" and "loop_ok H s" and "setup_ref K C (lp_rules s) [] False s = (Inr (ps, b), s0)"
    and "call_poll K ps t s0 = (Inr (p, qs), s1)"
  shows "length qs = length (lp_rules s1)"
proof -
  have "length ps = length (lp_rules s0)"
    using setup_loop_ref [OF assms(1,2), of "[]" "lp_rules s" K "[]" False] assms(3) by auto
  moreover obtain vs where "qs = set_revents ps vs" "lp_rules s1 = lp_rules s0"
    using call_poll_run [of K ps t s0] assms(4) by (auto simp: keeps_def)
  ultimately show ?thesis by simp
qed

lemma dispatch_ref_append:
  assumes "length ps = length pre" and "dispatch_ref K C pre ps s = (Inr (), s')"
  shows "dispatch_ref K C (pre @ rs) (ps @ qs) s = dispatch_ref K C rs qs s'"
  using assms
proof (induction ps pre arbitrary: s rule: list_induct2)
  case (Cons p ps r pre)
  obtain x s1 where x: "dispatch_rule C r p s = (x, s1)" by fastforce
  with Cons.prems obtain gone where gone: "x = Inr gone" by (cases x) (auto simp: bindS_run)
  obtain y s2 where y: "drop_rule K r s1 = (y, s2)" by fastforce
  with Cons.prems x gone Cons.IH show ?case
    by (cases gone; cases y) (auto simp: bindS_run seqS_run)
qed simp

lemma rule_at_Inl: "rule_at rs n = Inl e \<Longrightarrow> e = Undefined BadIterator"
  by (induction rs) (auto split: if_splits)

section \<open>A loop with one rule\<close>

fun service :: "Direction \<Rightarrow> FDWrapper \<Rightarrow> uint32_t" where
  "service In x = fdw_read_count x"
| "service Out x = fdw_write_count x"

lemma service_count_run:
  "cell_at (lp_world s) (rule_fd r) = Some c \<Longrightarrow>
     Rule_service_count r s = (Inr (service (rule_direction r) (cell_obj c)), s)"
  by (cases "rule_direction r") (simp_all add: Rule_service_count_def fd_accessors worldS_def)

definition rule_pollfd :: "'c Rule \<Rightarrow> FDCell \<Rightarrow> pollfd" where
  "rule_pollfd r c = \<lparr>pfd_fd = fdw_fd (cell_obj c), pfd_events = Direction_bits (rule_direction r), pfd_revents = 0\<rparr>"

lemma Direction_bits_nonzero [simp]: "Direction_bits d \<noteq> 0"
  by (cases d) simp_all

text \<open>One rule, open and wanted, whose descriptor \<open>poll\<close> reports ready: what is left of \<open>wait_next_event\<close> is the
  second loop, at the callback.\<close>

lemma one_rule_polled:
  assumes "lp_rules s = [r]" and "cell_at (lp_world s) (rule_fd r) = Some c"
    and "\<not> fdw_eof (cell_obj c)" and "\<not> fdw_closed (cell_obj c)"
    and "run_interest C (rule_interest r) s = (Inr True, s)"
    and "os_poll K [rule_pollfd r c] 1 t (w_os (lp_world s)) = ((1, [v]), k)"
    and "s1 = s\<lparr>lp_world := lp_world s\<lparr>w_os := k\<rparr>\<rparr>"
  shows "EventLoop_wait_next_event K C t s =
    (case dispatch_loop K C (Some (rule_node r)) 0 [rule_pollfd r c\<lparr>pfd_revents := v\<rparr>] s1 of
         None \<Rightarrow> None
       | Some (Inl e, s3) \<Rightarrow> Some (Inl e, s3)
       | Some (Inr _, s3) \<Rightarrow> Some (Inr Success, s3))"
proof -
  let ?p = "rule_pollfd r c"
  have rule: "setup_rule C r s = (Inr (Some (?p, True)), s)"
    using assms(2-5) by (simp add: setup_rule_def fd_accessors worldS_def bindS_run rule_pollfd_def)
  have deref: "iter_deref (rule_node r) s = (Inr r, s)" "iter_next (rule_node r) s = (Inr None, s)"
    using assms(1) by (simp_all add: iter_deref_def iter_next_def)
  have "setup_loop K C (Some (rule_node r)) [] False s = setup_loop K C None [?p] True s"
    using rule deref by (subst setup_loop.simps) (simp add: setup_step_def bindS_run)
  then have su: "setup_loop K C (Some (rule_node r)) [] False s = Some (Inr ([?p], True), s)"
    by (simp add: setup_loop.simps [of K C None])
  have "to_int 1 = 1" by (intro to_int_id int_okI) simp_all
  then have cp: "call_poll K [?p] t s = (Inr (Goes_on, [?p\<lparr>pfd_revents := v\<rparr>]), s1)"
    using assms(6,7)
    by (simp add: call_poll_def bindS_run worldS_def poll_result_def catchS_def SystemCall_run)
  from su cp assms(1,7) show ?thesis
    by (simp add: EventLoop_wait_next_event_def)
qed

lemma one_rule_ready:
  assumes "lp_rules s = [r]" and "cell_at (lp_world s) (rule_fd r) = Some c"
    and "\<not> fdw_eof (cell_obj c)" and "\<not> fdw_closed (cell_obj c)"
    and "\<And>s. run_interest C (rule_interest r) s = (Inr True, s)"
    and "os_poll K [rule_pollfd r c] 1 t (w_os (lp_world s)) = ((1, [v]), k)"
    and "v AND Direction_bits (rule_direction r) \<noteq> 0" and "v AND (POLLERR OR POLLNVAL) = 0"
    and "s1 = s\<lparr>lp_world := lp_world s\<lparr>w_os := k\<rparr>\<rparr>"
    and "run_callback C (rule_callback r) s1 = (Inr (), s2)"
    and "cell_at (lp_world s2) (rule_fd r) = Some c2" and "iter_after (lp_rules s2) (rule_node r) = Inr it"
  shows "EventLoop_wait_next_event K C t s =
    (if service (rule_direction r) (cell_obj c) = service (rule_direction r) (cell_obj c2)
     then Some (Inl (runtime_error
       ''EventLoop: busy wait detected: callback did not read/write fd and is still interested''), s2)
     else case dispatch_loop K C it 1 [rule_pollfd r c\<lparr>pfd_revents := v\<rparr>] s2 of
         None \<Rightarrow> None
       | Some (Inl e, s3) \<Rightarrow> Some (Inl e, s3)
       | Some (Inr _, s3) \<Rightarrow> Some (Inr Success, s3))"
proof -
  let ?p = "rule_pollfd r c\<lparr>pfd_revents := v\<rparr>"
    and ?idle = "service (rule_direction r) (cell_obj c) = service (rule_direction r) (cell_obj c2)"
    and ?e = "runtime_error ''EventLoop: busy wait detected: callback did not read/write fd and is still interested''"
  have c1: "cell_at (lp_world s1) (rule_fd r) = Some c" "iter_deref (rule_node r) s1 = (Inr r, s1)"
    using assms(1,2,9) by (simp_all add: iter_deref_def)
  have there: "\<exists>r'. iter_deref (rule_node r) s2 = (Inr r', s2)"
    using rule_at_after [OF assms(12)] by (auto simp: iter_deref_def)
  have "dispatch_rule C r ?p s1 = (if ?idle then Inl ?e else Inr False, s2)"
    using assms(5,7,8,10,11) c1(1) there
    by (auto simp add: dispatch_rule_def Let_def rule_pollfd_def bindS_run seqS_run service_count_run)
  moreover have "iter_next (rule_node r) s2 = (Inr it, s2)"
    using assms(12) by (simp add: iter_next_def)
  ultimately have "dispatch_step K C (rule_node r) 0 [?p] s1 = (if ?idle then Inl ?e else Inr it, s2)"
    using c1(2) by (simp add: dispatch_step_def bindS_run)
  then have "dispatch_loop K C (Some (rule_node r)) 0 [?p] s1 =
      (if ?idle then Some (Inl ?e, s2) else dispatch_loop K C it 1 [?p] s2)"
    by (subst dispatch_loop.simps) simp
  with one_rule_polled [OF assms(1-6,9)] show ?thesis by simp
qed

lemma poll_irrelevant:
  "drop_rule (K\<lparr>os_poll := g\<rparr>) r = drop_rule K r"
  "setup_ref (K\<lparr>os_poll := g\<rparr>) C rs ps b = setup_ref K C rs ps b"
proof -
  show d: "drop_rule (K\<lparr>os_poll := g\<rparr>) r = drop_rule K r" for r
  proof -
    have "tagged_error_what (K\<lparr>os_poll := g\<rparr>) cat a n = tagged_error_what K cat a n" for cat a n
      by (cases cat) simp_all
    then have what: "exn_what (K\<lparr>os_poll := g\<rparr>) e = exn_what K e" for e
      by (cases e) simp_all
    have "FDWrapper_close (K\<lparr>os_poll := g\<rparr>) f = FDWrapper_close K f" for f
      by (simp add: FDWrapper_close_def syscall_def SystemCall_def)
    with what have "FDWrapper_destroy (K\<lparr>os_poll := g\<rparr>) f = FDWrapper_destroy K f" for f
      by (simp only: FDWrapper_destroy_def)
    then show ?thesis
      by (simp only: drop_rule_def FileDescriptor_destroy_def)
  qed
  show "setup_ref (K\<lparr>os_poll := g\<rparr>) C rs ps b = setup_ref K C rs ps b"
    by (induction rs arbitrary: ps b) (simp_all add: d)
qed

text \<open>Closures that never throw and rules nobody is interested in.\<close>

definition idle :: "('k, 'c) closures \<Rightarrow> bool" where
  "idle C \<longleftrightarrow> (\<forall>c s. fst (run_callback C c s) = Inr ()) \<and> (\<forall>c s. fst (run_interest C c s) = Inr False)"

lemma idle_setup_rule:
  assumes "tame H C" and "idle C" and "loop_ok H s" and "r \<in> set (lp_rules s)"
  shows "\<exists>made s'. setup_rule C r s = (Inr made, s') \<and> keeps s s' \<and> (\<forall>p b. made = Some (p, b) \<longrightarrow> \<not> b)"
proof -
  obtain c where c: "cell_at (lp_world s) (rule_fd r) = Some c"
    using rule_live [OF assms(3,4) lk.kept_refl] by blast
  obtain s1 where s1: "run_callback C (rule_cancel r) s = (Inr (), s1)" "keeps s s1"
    using assms(2) closure_safe [OF assms(1,3) lk.kept_refl] unfolding idle_def safe_wrt_def by (metis prod.collapse)
  obtain s2 where s2: "run_interest C (rule_interest r) s = (Inr False, s2)" "keeps s s2"
    using assms(2) closure_safe [OF assms(1,3) lk.kept_refl] unfolding idle_def safe_wrt_def by (metis prod.collapse)
  obtain c2 where c2: "cell_at (lp_world s2) (rule_fd r) = Some c2"
    using rule_live [OF assms(3,4) s2(2)] by blast
  show ?thesis
    using c s1 s2 c2 by (auto simp: setup_rule_def fd_accessors worldS_def bindS_run seqS_run)
qed

lemma idle_setup:
  assumes "tame H C" and "idle C" and "loop_ok H s" and "lp_rules s = pre @ rs"
  shows "\<exists>ps s'. setup_ref K C rs ps0 b s = (Inr (ps, b), s')"
  using assms(3,4)
proof (induction rs arbitrary: s pre ps0)
  case (Cons r rs)
  have r: "r \<in> set (lp_rules s)" using Cons.prems(2) by simp
  from idle_setup_rule [OF assms(1,2) Cons.prems(1) r] obtain made s1 where m: "setup_rule C r s = (Inr made, s1)"
    "keeps s s1" "\<forall>p b. made = Some (p, b) \<longrightarrow> \<not> b" by blast
  then have s1: "loop_ok H s1" "lp_rules s1 = pre @ r # rs"
    using keeps_loop_ok [OF Cons.prems(1)] Cons.prems(2) by (auto simp: keeps_def)
  show ?case
  proof (cases made)
    case None
    obtain s2 where "drop_rule K r s1 = (Inr (), s2)" "lp_rules s2 = pre @ rs" "loop_ok H s2"
      using drop_rule_run [OF s1] by blast
    with Cons.IH [of s2 pre ps0] m(1) None show ?thesis by (simp add: bindS_run seqS_run)
  next
    case (Some pb)
    then obtain p where "made = Some (p, False)" using m(3) by (cases pb) auto
    with Cons.IH [of s1 "pre @ [r]" "ps0 @ [p]"] m(1) s1 show ?thesis by (simp add: bindS_run)
  qed
qed simp

section \<open>Properties\<close>

text \<open>C21. One call of \<open>wait_next_event\<close> goes through the rules once and safely: for closures that leave the list of
  rules and the owners of descriptors alone and use only descriptors the program holds, the call ends; it does exactly what the two loops over the
  list, without iterators, do; it never uses an iterator, a \<open>pollfd\<close> or an \<open>FDWrapper\<close> that is not
  there; and the rules left are some of those before, in the same order, each with a live descriptor.\<close>

theorem event_loop_refines:
  assumes "tame H C" and "loop_ok H s"
  shows "EventLoop_wait_next_event K C timeout_ms s = Some (wait_ref K C timeout_ms s) \<and>
    (case wait_ref K C timeout_ms s of (r, s') \<Rightarrow>
       (\<forall>u. r \<noteq> Inl (Undefined u)) \<and> loop_ok H s' \<and> subseq (lp_rules s') (lp_rules s))"
  using wait_next_event_ref [OF assms, of K timeout_ms] by (auto simp: wait_post_def defined_def)

text \<open>Closures that call methods of the descriptors the program holds are tame, whatever the methods and the kernel.\<close>

fun call_methods :: "('k, 'z) kernel_scheme \<Rightarrow> (FileDescriptor \<times> fd_method) list \<Rightarrow> ('k world, unit) act" where
  "call_methods K [] = retS ()"
| "call_methods K ((f, m) # ms) = seqS (call_method K f m) (call_methods K ms)"

definition method_closures ::
  "('k, 'z) kernel_scheme \<Rightarrow> ('c \<Rightarrow> (FileDescriptor \<times> fd_method) list) \<Rightarrow> ('c \<Rightarrow> bool) \<Rightarrow> ('k, 'c) closures" where
  "method_closures K code wanted =
     \<lparr>run_callback = (\<lambda>c. worldS (call_methods K (code c))), run_interest = (\<lambda>c. retS (wanted c))\<rparr>"

lemma call_methods_safe:
  "\<forall>(f, m) \<in> set ms. hrefs w f \<noteq> None \<Longrightarrow> safe_wrt refs_kept (call_methods K ms) w"
proof (induction ms arbitrary: w)
  case Nil
  show ?case unfolding call_methods.simps by (rule refs.ret_safe)
next
  case (Cons fm ms)
  obtain f m where fm: "fm = (f, m)" by fastforce
  have "safe_wrt refs_kept (seqS (call_method K f m) (call_methods K ms)) w"
    using Cons.prems fm by (intro refs.seq_safe call_method_safe Cons.IH) (auto simp: refs_kept_def)
  then show ?case by (simp add: fm)
qed

lemma methods_tame:
  assumes "\<And>c. fst ` set (code c) \<subseteq> H"
  shows "tame H (method_closures K code wanted)"
proof -
  have "safe (worldS (call_methods K (code c))) s" if "loop_ok H s" for c s
  proof (intro world_safe call_methods_safe)
    show "\<forall>(f, m) \<in> set (code c). hrefs (lp_world s) f \<noteq> None"
      using assms [of c] that by (force simp: loop_ok_def hrefs_def)
  qed
  then show ?thesis by (auto simp: tame_def method_closures_def intro: lk.ret_safe)
qed

text \<open>A callback that reads the first descriptor, with a rule that is interested and one that never is.\<close>

definition reader_closures :: "('k, 'z) kernel_scheme \<Rightarrow> ('k, nat) closures" where
  "reader_closures K = method_closures K (\<lambda>c. if c = 0 then [] else [(0, M_read 1024)]) (\<lambda>c. c \<noteq> 0)"

lemma reader_tame: "tame {0} (reader_closures K)"
  unfolding reader_closures_def by (rule methods_tame) simp

definition two_rules :: "'k \<Rightarrow> ('k, nat) loop" where
  "two_rules k = \<lparr>lp_world = (fresh_world k)\<lparr>w_heap := [Some \<lparr>cell_refs = 3, cell_obj =
       \<lparr>fdw_fd = 5, fdw_eof = False, fdw_closed = False, fdw_read_count = 0, fdw_write_count = 0\<rparr>\<rparr>]\<rparr>,
     lp_rules = [\<lparr>rule_node = 0, rule_fd = 0, rule_direction = In, rule_callback = 1, rule_interest = 1, rule_cancel = 0\<rparr>,
       \<lparr>rule_node = 1, rule_fd = 0, rule_direction = Out, rule_callback = 1, rule_interest = 0, rule_cancel = 0\<rparr>],
     lp_next_node = 2\<rparr>"

lemma two_rules_ok: "loop_ok {0} (two_rules k)"
  by (simp add: loop_ok_def two_rules_def owners_def cell_at_def)

theorem event_loop_refines_witness:
  "EventLoop_wait_next_event failing_kernel (reader_closures failing_kernel) 100 (two_rules ()) =
     Some (wait_ref failing_kernel (reader_closures failing_kernel) 100 (two_rules ())) \<and>
   loop_ok {0} (snd (wait_ref failing_kernel (reader_closures failing_kernel) 100 (two_rules ())))"
  using event_loop_refines [OF reader_tame two_rules_ok, of failing_kernel failing_kernel 100 "()"] by (auto split: prod.splits)

text \<open>\<open>add_rule\<close> keeps the loop well-formed: the new rule comes last, holds its own share of the descriptor, and
  the caller keeps its own.\<close>

lemma add_rule_ok:
  assumes "loop_ok H s" and "cell_at (lp_world s) f = Some c" and "owners (lp_rules s) f < cell_refs c"
  shows "\<exists>s' r c'. EventLoop_add_rule f direction callback interest cancel s = (Inr (), s') \<and> loop_ok H s' \<and>
    lp_rules s' = lp_rules s @ [r] \<and> rule_fd r = f \<and> rule_direction r = direction \<and>
    cell_at (lp_world s') f = Some c' \<and> owners (lp_rules s') f < cell_refs c' \<and> cell_obj c' = cell_obj c"
proof -
  let ?c = "c\<lparr>cell_refs := Suc (cell_refs c)\<rparr>"
  let ?r = "\<lparr>rule_node = lp_next_node s, rule_fd = f, rule_direction = direction,
    rule_callback = callback, rule_interest = interest, rule_cancel = cancel\<rparr>"
  let ?w = "set_cell f (Some ?c) (lp_world s)"
  let ?s = "s\<lparr>lp_world := ?w, lp_rules := lp_rules s @ [?r], lp_next_node := Suc (lp_next_node s)\<rparr>"
  have add: "EventLoop_add_rule f direction callback interest cancel s = (Inr (), ?s)"
    using assms(2) by (simp add: EventLoop_add_rule_def worldS_def bindS_run FileDescriptor_duplicate_def)
  have cell: "cell_at ?w g = (if g = f then Some ?c else cell_at (lp_world s) g)" for g
    using cell_at_Some [OF assms(2)] by (auto simp: cell_at_set_cell)
  have live: "\<exists>c'. cell_at ?w (rule_fd r) = Some c' \<and> owners (lp_rules s @ [?r]) (rule_fd r) \<le> cell_refs c'"
    if "r \<in> set (lp_rules s @ [?r])" for r
  proof (cases "rule_fd r = f")
    case True
    then show ?thesis using assms(3) by (simp add: cell owners_def)
  next
    case False
    then have "r \<in> set (lp_rules s)" using that by auto
    with False assms(1) show ?thesis by (auto simp: loop_ok_def cell owners_def)
  qed
  have held: "\<exists>c'. cell_at ?w g = Some c' \<and> owners (lp_rules s @ [?r]) g < cell_refs c'" if "g \<in> H" for g
    using that assms by (cases "g = f") (auto simp: loop_ok_def cell owners_def)
  have "loop_ok H ?s"
    using assms(1) live held unfolding loop_ok_def by (auto simp: less_Suc_eq)
  with add cell assms(3) show ?thesis
    by (intro exI [of _ ?s] exI [of _ ?r] exI [of _ ?c]) (simp add: owners_def)
qed

text \<open>A loop in use: rules are added on descriptors that the program holds, \<open>wait_next_event\<close> is called, and between the calls
  the program does what it likes as long as it leaves the list of rules and the owners of descriptors alone.\<close>

inductive loop_run ::
  "('k, 'z) kernel_scheme \<Rightarrow> ('k, 'c) closures \<Rightarrow> ('k, 'c) loop \<Rightarrow> ('k, 'c) loop \<Rightarrow> bool" for K C s where
  start: "loop_run K C s s"
| added: "loop_run K C s s' \<Longrightarrow> cell_at (lp_world s') f = Some c \<Longrightarrow> owners (lp_rules s') f < cell_refs c \<Longrightarrow>
    EventLoop_add_rule f direction callback interest cancel s' = (r, s'') \<Longrightarrow> loop_run K C s s''"
| waited: "loop_run K C s s' \<Longrightarrow> EventLoop_wait_next_event K C timeout_ms s' = Some (r, s'') \<Longrightarrow> loop_run K C s s''"
| elsewhere: "loop_run K C s s' \<Longrightarrow> keeps s' s'' \<Longrightarrow> loop_run K C s s''"

lemma loop_run_ok:
  assumes "loop_run K C s s'" and "tame H C" and "loop_ok H s"
  shows "loop_ok H s'"
  using assms(1)
proof (induction rule: loop_run.induct)
  case start
  show ?case by (rule assms(3))
next
  case (added s' f c direction callback interest cancel r s'')
  from add_rule_ok [OF added.IH added.hyps(2,3), of direction callback interest cancel] added.hyps(4)
  show ?case by auto
next
  case (waited s' timeout_ms r s'')
  from wait_next_event_ref [OF assms(2) waited.IH, of K timeout_ms] waited.hyps(2)
  show ?case by (auto simp: wait_post_def)
next
  case (elsewhere s' s'')
  then show ?case by (blast intro: keeps_loop_ok)
qed

text \<open>C23. An event loop stays usable: however rules were added and events waited for, as long as closures and the rest of the program
  leave the list of rules and the owners of descriptors alone, every rule has a node of its own and a
  live descriptor, and the next \<open>wait_next_event\<close> returns, with a result or an exception of the
  language, never with undefined behaviour.\<close>

theorem event_loop_always_usable:
  assumes "loop_run K C s s'" and "tame H C" and "loop_ok H s"
  shows "loop_ok H s' \<and> (\<exists>r s''. EventLoop_wait_next_event K C timeout_ms s' = Some (r, s'') \<and>
    (\<forall>u. r \<noteq> Inl (Undefined u)) \<and> loop_run K C s s'')"
proof -
  have ok: "loop_ok H s'" using assms by (rule loop_run_ok)
  obtain r s'' where r: "wait_ref K C timeout_ms s' = (r, s'')" by fastforce
  with wait_next_event_ref [OF assms(2) ok, of K timeout_ms]
  have "EventLoop_wait_next_event K C timeout_ms s' = Some (r, s'')" "\<forall>u. r \<noteq> Inl (Undefined u)"
    by (auto simp: wait_post_def defined_def)
  with ok assms(1) show ?thesis by (blast intro: loop_run.waited)
qed

theorem event_loop_always_usable_witness:
  "\<exists>s' r s''. EventLoop_add_rule 0 In 1 1 0 (two_rules ()) = (Inr (), s') \<and>
     EventLoop_wait_next_event failing_kernel (reader_closures failing_kernel) 100 s' = Some (r, s'') \<and> loop_ok {0} s''"
proof -
  let ?s = "two_rules ()"
  let ?c = "\<lparr>cell_refs = 3, cell_obj =
    \<lparr>fdw_fd = 5, fdw_eof = False, fdw_closed = False, fdw_read_count = 0, fdw_write_count = 0\<rparr>\<rparr>"
  have c: "cell_at (lp_world ?s) 0 = Some ?c" "owners (lp_rules ?s) 0 < cell_refs ?c"
    by (simp_all add: two_rules_def cell_at_def owners_def)
  obtain s' where s': "EventLoop_add_rule 0 In 1 1 0 ?s = (Inr (), s')"
    using add_rule_ok [OF two_rules_ok c, of In 1 1 0] by blast
  have run: "loop_run failing_kernel (reader_closures failing_kernel) ?s s'"
    by (rule loop_run.added [OF loop_run.start c s'])
  from event_loop_always_usable [OF run reader_tame two_rules_ok, of 100] obtain r s'' where
      w: "EventLoop_wait_next_event failing_kernel (reader_closures failing_kernel) 100 s' = Some (r, s'')"
        "loop_run failing_kernel (reader_closures failing_kernel) ?s s''" by blast
  from event_loop_always_usable [OF w(2) reader_tame two_rules_ok, of 100] w(1) s' show ?thesis by blast
qed

text \<open>C24. When no rule is interested, \<open>wait_next_event\<close> returns \<open>Exit\<close>, and it does so without calling \<open>poll\<close>: whatever
  that call would do, the result is the same.\<close>

theorem event_loop_exit:
  assumes "tame H C" and "idle C" and "loop_ok H s"
  shows "\<exists>s'. \<forall>g. EventLoop_wait_next_event (K\<lparr>os_poll := g\<rparr>) C timeout_ms s = Some (Inr Exit, s')"
proof -
  obtain ps s' where "setup_ref K C (lp_rules s) [] False s = (Inr (ps, False), s')"
    using idle_setup [OF assms, of "[]" "lp_rules s" K "[]" False] by auto
  then have "wait_ref (K\<lparr>os_poll := g\<rparr>) C timeout_ms s = (Inr Exit, s')" for g
    by (simp add: wait_ref_def bindS_run poll_irrelevant)
  then have "EventLoop_wait_next_event (K\<lparr>os_poll := g\<rparr>) C timeout_ms s = Some (Inr Exit, s')" for g
    using wait_next_event_ref [OF assms(1,3), of "K\<lparr>os_poll := g\<rparr>" timeout_ms] by simp
  then show ?thesis by blast
qed

definition idle_closures :: "('k, nat) closures" where
  "idle_closures = \<lparr>run_callback = (\<lambda>c s. (Inr (), s)), run_interest = (\<lambda>c s. (Inr False, s))\<rparr>"

theorem event_loop_exit_witness:
  "\<exists>s'. EventLoop_wait_next_event (failing_kernel\<lparr>os_poll := (\<lambda>ps n t k. ((2, [1, 4]), k))\<rparr>) idle_closures 100
     (two_rules ()) = Some (Inr Exit, s')"
proof -
  have "tame {0} (idle_closures :: (unit, nat) closures)" "idle (idle_closures :: (unit, nat) closures)"
    by (simp_all add: tame_def safe_wrt_def idle_def idle_closures_def)
  from event_loop_exit [OF this two_rules_ok, of failing_kernel 100] show ?thesis by blast
qed

lemma dispatch_nothing:
  "length rs = length ps \<Longrightarrow> \<forall>p \<in> set ps. pfd_revents p = 0 \<Longrightarrow> dispatch_ref K C rs ps s = (Inr (), s)"
proof (induction rs ps rule: list_induct2)
  case (Cons r rs p ps)
  then show ?case by (simp add: dispatch_rule_def Let_def)
qed simp

text \<open>C25. An error of \<open>poll\<close> other than \<open>EINTR\<close> is swallowed: the handler returns for \<open>EINTR\<close> only and drops every other
  \<open>unix_error\<close>, so the call goes on with the results left at zero, runs no closure, and reports
  \<open>Success\<close>.\<close>

theorem poll_error_swallowed:
  assumes "tame H C" and "loop_ok H s" and "setup_ref K C (lp_rules s) [] False s = (Inr (ps, True), s1)"
    and "\<forall>p \<in> set ps. pfd_revents p = 0"
    and "os_poll K ps (of_nat (length ps)) t (w_os (lp_world s1)) = ((-1, []), k)"
    and "os_errno K k \<noteq> 0" and "os_errno K k \<noteq> EINTR"
  shows "EventLoop_wait_next_event K C t s = Some (Inr Success, s1\<lparr>lp_world := lp_world s1\<lparr>w_os := k\<rparr>\<rparr>)"
proof -
  have len: "length ps = length (lp_rules s1)"
    using setup_loop_ref [OF assms(1,2), of "[]" "lp_rules s" K "[]" False] assms(3) by auto
  have "call_poll K ps t s1 = (Inr (Goes_on, ps), s1\<lparr>lp_world := lp_world s1\<lparr>w_os := k\<rparr>\<rparr>)"
    using assms(5-7)
    by (cases ps) (simp_all add: call_poll_def bindS_run worldS_def poll_result_def catchS_def SystemCall_run)
  then have "wait_ref K C t s = (Inr Success, s1\<lparr>lp_world := lp_world s1\<lparr>w_os := k\<rparr>\<rparr>)"
    using assms(3,4) len by (simp add: wait_ref_def bindS_run seqS_run dispatch_nothing)
  then show ?thesis
    using wait_next_event_ref [OF assms(1,2), of K t] by simp
qed

definition badly_polling :: "unit kernel" where
  "badly_polling = failing_kernel\<lparr>os_poll := (\<lambda>ps n t k. ((-1, []), k))\<rparr>"

theorem poll_error_swallowed_witness:
  "\<exists>s1. EventLoop_wait_next_event badly_polling (reader_closures badly_polling) 100 (two_rules ()) = Some (Inr Success, s1)"
proof -
  let ?ps = "[\<lparr>pfd_fd = 5, pfd_events = 1, pfd_revents = 0\<rparr>, \<lparr>pfd_fd = 5, pfd_events = 0, pfd_revents = 0\<rparr>]"
  have su: "setup_ref badly_polling (reader_closures badly_polling) (lp_rules (two_rules ())) [] False (two_rules ()) =
      (Inr (?ps, True), two_rules ())"
    by (simp add: two_rules_def setup_rule_def reader_closures_def method_closures_def worldS_def fd_accessors bindS_run cell_at_def
        fd_get_def)
  have zero: "\<forall>p \<in> set ?ps. pfd_revents p = 0" by simp
  have poll: "os_poll badly_polling ?ps (of_nat (length ?ps)) 100 (w_os (lp_world (two_rules ()))) = ((-1, []), ())"
    "os_errno badly_polling () \<noteq> 0" "os_errno badly_polling () \<noteq> EINTR"
    by (simp_all add: badly_polling_def failing_kernel_def)
  from poll_error_swallowed [OF reader_tame two_rules_ok su zero poll] show ?thesis by blast
qed

text \<open>C22. Busy waiting is detected, whatever the other rules do.  Take a call of \<open>wait_next_event\<close> whose second loop has dealt with the
  rules before some rule and finds that rule's descriptor ready.  Its callback is run; if the callback neither read nor
  wrote the descriptor (in the direction of the rule) and the rule is then still interested, the call throws.  In the other
  cases it goes on with the rules behind, from the state the callback left, or the interest test if that was asked.\<close>

theorem busy_wait_detected:
  assumes "tame H C" and "loop_ok H s"
    and "setup_ref K C (lp_rules s) [] False s = (Inr (ps, True), s0)"
    and "call_poll K ps t s0 = (Inr (Goes_on, qs), s1)" and "lp_rules s1 = pre @ r # post"
    and "dispatch_ref K C pre (take (length pre) qs) s1 = (Inr (), s2)"
    and "pfd_revents (qs ! length pre) AND pfd_events (qs ! length pre) \<noteq> 0"
    and "pfd_revents (qs ! length pre) AND (POLLERR OR POLLNVAL) = 0"
    and "cell_at (lp_world s2) (rule_fd r) = Some c"
    and "run_callback C (rule_callback r) s2 = (Inr (), s3)" and "cell_at (lp_world s3) (rule_fd r) = Some c'"
    and "run_interest C (rule_interest r) s3 = (Inr wanted, s4)"
    and "unserved \<longleftrightarrow> service (rule_direction r) (cell_obj c) = service (rule_direction r) (cell_obj c')"
  shows "EventLoop_wait_next_event K C t s =
    (if unserved \<and> wanted then Some (Inl (runtime_error
       ''EventLoop: busy wait detected: callback did not read/write fd and is still interested''), s4)
     else Some (seqS (dispatch_ref K C post (drop (Suc (length pre)) qs)) (retS Success) (if unserved then s4 else s3)))"
proof -
  let ?p = "qs ! length pre" and ?rest = "drop (Suc (length pre)) qs"
    and ?e = "runtime_error ''EventLoop: busy wait detected: callback did not read/write fd and is still interested''"
  note w = wait_next_event_ref [OF assms(1,2), of K t]
  have qs: "qs = take (length pre) qs @ ?p # ?rest" "length (take (length pre) qs) = length pre"
    using polled_length [OF assms(1-4)] assms(5) by (simp_all add: Cons_nth_drop_Suc)
  have "dispatch_ref K C (lp_rules s1) qs s1 = dispatch_ref K C (r # post) (?p # ?rest) s2"
    using dispatch_ref_append [OF qs(2) assms(6), of "r # post" "?p # ?rest"] assms(5) by (simp only: qs(1) [symmetric])
  then have run: "wait_ref K C t s = seqS (dispatch_ref K C (r # post) (?p # ?rest)) (retS Success) s2"
    using assms(3,4) by (simp add: wait_ref_def bindS_run seqS_run)
  have rule: "dispatch_rule C r ?p s2 = seqS (iter_deref (rule_node r))
      (\<lambda>s. (if unserved \<and> wanted then Inl ?e else Inr False, if unserved then s4 else s3)) s3"
    using assms(7-13) by (auto simp: dispatch_rule_def Let_def bindS_run seqS_def service_count_run iter_deref_def split: sum.splits)
  have "\<exists>r'. iter_deref (rule_node r) s3 = (Inr r', s3)"
  proof (cases "rule_at (lp_rules s3) (rule_node r)")
    case (Inl e)
    then have "wait_ref K C t s = (Inl e, s3)" "\<exists>u. e = Undefined u"
      using run rule rule_at_Inl [OF Inl] by (simp_all add: iter_deref_def bindS_run seqS_run)
    then show ?thesis using w by (auto simp: wait_post_def defined_def)
  qed (simp add: iter_deref_def bindS_run)
  then have "dispatch_rule C r ?p s2 =
      (if unserved \<and> wanted then Inl ?e else Inr False, if unserved then s4 else s3)"
    using rule by (auto simp: seqS_run)
  with run w show ?thesis
    by (auto simp: bindS_run seqS_def)
qed

definition one_rule :: "'k \<Rightarrow> nat \<Rightarrow> ('k, nat) loop" where
  "one_rule k callback = \<lparr>lp_world = (fresh_world k)\<lparr>w_heap := [Some \<lparr>cell_refs = 2, cell_obj =
       \<lparr>fdw_fd = 5, fdw_eof = False, fdw_closed = False, fdw_read_count = 0, fdw_write_count = 0\<rparr>\<rparr>]\<rparr>,
     lp_rules = [\<lparr>rule_node = 0, rule_fd = 0, rule_direction = In, rule_callback = callback, rule_interest = 1,
       rule_cancel = 0\<rparr>],
     lp_next_node = 1\<rparr>"

definition ready_kernel :: "unit kernel" where
  "ready_kernel = failing_kernel\<lparr>os_poll := (\<lambda>ps n t k. ((1, [1]), k))\<rparr>"

theorem busy_wait_detected_witness:
  "EventLoop_wait_next_event ready_kernel (reader_closures failing_kernel) 100 (one_rule () 0) =
     Some (Inl (runtime_error
       ''EventLoop: busy wait detected: callback did not read/write fd and is still interested''), one_rule () 0)"
proof -
  let ?s = "one_rule () 0" and ?C = "reader_closures failing_kernel :: (unit, nat) closures"
  let ?r = "\<lparr>rule_node = 0, rule_fd = 0, rule_direction = In, rule_callback = 0 :: nat, rule_interest = 1, rule_cancel = 0\<rparr>"
  let ?p = "\<lparr>pfd_fd = 5, pfd_events = 1, pfd_revents = 0\<rparr>"
  let ?c = "\<lparr>cell_refs = 2, cell_obj =
    \<lparr>fdw_fd = 5, fdw_eof = False, fdw_closed = False, fdw_read_count = 0, fdw_write_count = 0\<rparr>\<rparr>"
  have ok: "loop_ok {0} ?s"
    by (simp add: loop_ok_def one_rule_def owners_def cell_at_def)
  have rules: "lp_rules ?s = [] @ ?r # []" "cell_at (lp_world ?s) (rule_fd ?r) = Some ?c"
    by (simp_all add: one_rule_def cell_at_def)
  have su: "setup_ref ready_kernel ?C (lp_rules ?s) [] False ?s = (Inr ([?p], True), ?s)"
    by (simp add: one_rule_def setup_rule_def reader_closures_def method_closures_def worldS_def fd_accessors bindS_run
        cell_at_def fd_get_def)
  have one: "to_int 1 = 1"
    by (intro to_int_id int_okI) simp_all
  have poll: "call_poll ready_kernel [?p] 100 ?s = (Inr (Goes_on, [?p\<lparr>pfd_revents := 1\<rparr>]), ?s)"
    using one by (simp add: call_poll_def ready_kernel_def bindS_run worldS_def poll_result_def catchS_def SystemCall_run one_rule_def
        fresh_world_def)
  have cb: "run_callback ?C (rule_callback ?r) ?s = (Inr (), ?s)" "run_interest ?C (rule_interest ?r) ?s = (Inr True, ?s)"
    by (simp_all add: reader_closures_def method_closures_def worldS_def)
  from busy_wait_detected [OF reader_tame ok su poll rules(1) _ _ _ rules(2) cb(1) rules(2) cb(2) refl]
  show ?thesis by simp
qed

text \<open>C26. A callback must not add a rule.  Take a loop with one rule that is interested, whose descriptor is ready, and whose callback reads or
  writes the descriptor (otherwise the check for busy waiting comes first) and adds a rule: the second loop goes on to
  the new rule, for which there is no \<open>pollfd\<close>, and reads past the end of the vector, which is undefined behaviour.\<close>

theorem callback_adding_rule_out_of_bounds:
  assumes "lp_rules s = [r]" and "cell_at (lp_world s) (rule_fd r) = Some c"
    and "\<not> fdw_eof (cell_obj c)" and "\<not> fdw_closed (cell_obj c)"
    and "\<And>s. run_interest C (rule_interest r) s = (Inr True, s)"
    and "os_poll K [rule_pollfd r c] 1 t (w_os (lp_world s)) = ((1, [v]), k)"
    and "v AND Direction_bits (rule_direction r) \<noteq> 0" and "v AND (POLLERR OR POLLNVAL) = 0"
    and "run_callback C (rule_callback r) (s\<lparr>lp_world := lp_world s\<lparr>w_os := k\<rparr>\<rparr>) = (Inr (), s2)"
    and "lp_rules s2 = [r, r2]" and "cell_at (lp_world s2) (rule_fd r) = Some c2"
    and "service (rule_direction r) (cell_obj c) \<noteq> service (rule_direction r) (cell_obj c2)"
  shows "EventLoop_wait_next_event K C t s = Some (Inl (Undefined OutOfBounds), s2)"
  using one_rule_ready [OF assms(1-8) refl assms(9,11), of "Some (rule_node r2)"] assms(10,12)
  by (simp add: dispatch_loop.simps [of K C "Some _"] dispatch_step_def)

text \<open>A callback that reads its descriptor and then adds a rule on it.\<close>

definition adding_closures :: "(unit, nat) closures" where
  "adding_closures = \<lparr>run_callback = (\<lambda>c. seqS (worldS (register_read 0)) (EventLoop_add_rule 0 In 0 1 0)),
     run_interest = (\<lambda>c s. (Inr True, s))\<rparr>"

theorem callback_adding_rule_out_of_bounds_witness:
  "\<exists>s2. EventLoop_wait_next_event ready_kernel adding_closures 100 (one_rule () 0) =
     Some (Inl (Undefined OutOfBounds), s2)"
proof -
  let ?x = "\<lparr>fdw_fd = 5, fdw_eof = False, fdw_closed = False, fdw_read_count = 0, fdw_write_count = 0\<rparr>"
  let ?r = "\<lparr>rule_node = 0, rule_fd = 0, rule_direction = In, rule_callback = 0 :: nat, rule_interest = 1, rule_cancel = 0\<rparr>"
  let ?r2 = "\<lparr>rule_node = 1, rule_fd = 0, rule_direction = In, rule_callback = 0 :: nat, rule_interest = 1, rule_cancel = 0\<rparr>"
  let ?c2 = "\<lparr>cell_refs = 3, cell_obj = ?x\<lparr>fdw_read_count := 1\<rparr>\<rparr>"
  let ?s2 = "\<lparr>lp_world = (fresh_world ())\<lparr>w_heap := [Some ?c2]\<rparr>, lp_rules = [?r, ?r2], lp_next_node = 2\<rparr>"
  have cb: "run_callback adding_closures (rule_callback ?r) (one_rule () 0) = (Inr (), ?s2)"
    by (simp add: adding_closures_def one_rule_def seqS_run worldS_def register_read_def fd_mod_def cell_at_def
        set_cell_def EventLoop_add_rule_def bindS_run FileDescriptor_duplicate_def fresh_world_def)
  have same: "(one_rule () 0)\<lparr>lp_world := lp_world (one_rule () 0)\<lparr>w_os := ()\<rparr>\<rparr> = one_rule () 0"
    by (simp add: one_rule_def fresh_world_def)
  have "run_callback adding_closures (rule_callback ?r)
      ((one_rule () 0)\<lparr>lp_world := lp_world (one_rule () 0)\<lparr>w_os := ()\<rparr>\<rparr>) = (Inr (), ?s2)"
    unfolding same by (rule cb)
  then show ?thesis
    using callback_adding_rule_out_of_bounds [of "one_rule () 0" ?r "\<lparr>cell_refs = 2, cell_obj = ?x\<rparr>" adding_closures
        ready_kernel 100 1 "()" ?s2 ?r2 ?c2]
    by (simp add: one_rule_def adding_closures_def ready_kernel_def cell_at_def)
qed

end
