(* ===== verification/Webget.thy ===== *)
theory Webget
  imports Fd_Programs
begin

text \<open>
  The program \<open>apps/webget.cc\<close>: it connects to a host, sends one HTTP request, and copies what comes back to
  standard output until the end of the stream.  The copying loop is stated for any source of bytes that
  keeps the contract \<open>byte_source\<close>, which the descriptors of the library do.  A loop that does not end
  is \<open>None\<close>.
\<close>

section \<open>The loop\<close>

partial_function (option) copy_loop ::
  "('s, bool) act \<Rightarrow> ('s, string) act \<Rightarrow> (string \<Rightarrow> 's \<Rightarrow> 's) \<Rightarrow> 's \<Rightarrow> (unit result \<times> 's) option" where
  "copy_loop at_eof rd out s =
     (case at_eof s of
        (Inl e, s1) \<Rightarrow> Some (Inl e, s1)
      | (Inr b, s1) \<Rightarrow>
          if b then Some (Inr (), s1)
          else case rd s1 of
              (Inl e, s2) \<Rightarrow> Some (Inl e, s2)
            | (Inr d, s2) \<Rightarrow> copy_loop at_eof rd out (out d s2))"

section \<open>The program\<close>

definition size_max :: size_t where
  "size_max = - 1"

definition crlf :: string where
  "crlf = [CHR 0x0D, CHR 0x0A]"

definition http_request :: "string \<Rightarrow> string \<Rightarrow> string" where
  "http_request host path =
     ''GET '' @ path @ '' HTTP/1.1'' @ crlf @ ''Host: '' @ host @ crlf @ ''Connection: close'' @ crlf @ crlf"

definition cout_put :: "string \<Rightarrow> 'k world \<Rightarrow> 'k world" where
  "cout_put s w = w\<lparr>w_cout := ostream_put (w_cout w) s\<rparr>"

text \<open>Leaving the scope of a \<open>FileDescriptor\<close>, normally or by an exception.\<close>

definition scope_exit :: "('k, 'z) kernel_scheme \<Rightarrow> FileDescriptor \<Rightarrow> 'a result \<Rightarrow> 'k world \<Rightarrow> 'a result \<times> 'k world" where
  "scope_exit K f r w =
     (case FileDescriptor_destroy K f w of (Inl e, w') \<Rightarrow> (Inl e, w') | (Inr _, w') \<Rightarrow> (r, w'))"

definition get_URL ::
  "('k, 'z) kernel_scheme \<Rightarrow> string \<Rightarrow> string \<Rightarrow> 'k world \<Rightarrow> (unit result \<times> 'k world) option" where
  "get_URL K host path w =
     (case TCPSocket_new K w of
        (Inl e, w1) \<Rightarrow> Some (Inl e, w1)
      | (Inr sock, w1) \<Rightarrow>
          (case bindS (Address_of_host K host ''http'') (\<lambda>a.
                seqS (Socket_connect K sock a)
                  (FileDescriptor_write_string K sock (http_request host path) True)) w1 of
             (Inl e, w2) \<Rightarrow> Some (scope_exit K sock (Inl e) w2)
           | (Inr _, w2) \<Rightarrow>
               (case copy_loop (FileDescriptor_eof sock) (FileDescriptor_read K sock size_max) cout_put w2 of
                  None \<Rightarrow> None
                | Some (r, w3) \<Rightarrow> Some (scope_exit K sock r w3))))"

text \<open>How the process ends; \<open>argv\<close> is the list of the arguments, \<open>argc\<close> its length.\<close>

datatype outcome = Exit int | Aborted | Undefined_behaviour

definition main :: "('k, 'z) kernel_scheme \<Rightarrow> string list \<Rightarrow> 'k world \<Rightarrow> (outcome \<times> 'k world) option" where
  "main K argv w =
     (if length argv \<le> 0 then Some (Aborted, w)
      else if length argv \<noteq> 3 then
        Some (Exit 1, w\<lparr>w_cerr := w_cerr w @ ''Usage: '' @ argv ! 0 @ '' HOST PATH'' @ [CHR 0x0A] @
          [CHR 0x09] @ ''Example: '' @ argv ! 0 @ '' stanford.edu /class/cs144'' @ [CHR 0x0A]\<rparr>)
      else
        (case get_URL K (argv ! 1) (argv ! 2) w of
           None \<Rightarrow> None
         | Some (Inr _, w') \<Rightarrow> Some (Exit 0, w')
         | Some (Inl (Undefined u), w') \<Rightarrow> Some (Undefined_behaviour, w')
         | Some (Inl e, w') \<Rightarrow> Some (Exit 1, w'\<lparr>w_cerr := w_cerr w' @ exn_what K e @ [CHR 0x0A]\<rparr>)))"

section \<open>Sources of bytes\<close>

text \<open>A source knows what is still to come: reading hands over the next part of it and, when there is nothing
  left to hand over, marks the end.  The sink keeps what it is given in order and does not disturb the
  source.\<close>

locale byte_source =
  fixes inv :: "'s \<Rightarrow> bool"
    and at_eof :: "('s, bool) act"
    and rd :: "('s, string) act"
    and out :: "string \<Rightarrow> 's \<Rightarrow> 's"
    and ended :: "'s \<Rightarrow> bool"
    and coming :: "'s \<Rightarrow> string"
    and shown :: "'s \<Rightarrow> string"
  assumes eof_run: "inv s \<Longrightarrow> at_eof s = (Inr (ended s), s)"
    and ended_coming: "inv s \<Longrightarrow> ended s \<Longrightarrow> coming s = []"
    and rd_ok: "inv s \<Longrightarrow> \<not> ended s \<Longrightarrow> rd s = (Inr d, s') \<Longrightarrow>
      inv s' \<and> coming s = d @ coming s' \<and> shown s' = shown s \<and> (ended s' \<longleftrightarrow> d = [])"
    and rd_throws: "inv s \<Longrightarrow> \<not> ended s \<Longrightarrow> rd s = (Inl e, s') \<Longrightarrow> inv s' \<and> shown s' = shown s \<and> (\<forall>u. e \<noteq> Undefined u)"
    and out_ok: "inv s \<Longrightarrow> inv (out d s) \<and> coming (out d s) = coming s \<and> (ended (out d s) \<longleftrightarrow> ended s) \<and>
      shown (out d s) = shown s @ d"
begin

text \<open>A round of the loop in which the read returns.\<close>

lemma copy_round:
  assumes "inv s" and "\<not> ended s" and "rd s = (Inr d, s1)"
  shows "inv (out d s1)" and "coming s = d @ coming (out d s1)" and "ended (out d s1) \<longleftrightarrow> d = []"
    and "shown (out d s1) = shown s @ d" and "copy_loop at_eof rd out s = copy_loop at_eof rd out (out d s1)"
proof -
  have r: "inv s1" "coming s = d @ coming s1" "shown s1 = shown s" "ended s1 \<longleftrightarrow> d = []"
    using rd_ok [OF assms] by auto
  with out_ok [OF r(1), of d] show "inv (out d s1)" "coming s = d @ coming (out d s1)"
    "ended (out d s1) \<longleftrightarrow> d = []" "shown (out d s1) = shown s @ d" by simp_all
  show "copy_loop at_eof rd out s = copy_loop at_eof rd out (out d s1)"
    using eof_run [OF assms(1)] assms(2,3) by (simp add: copy_loop.simps [of at_eof rd out s])
qed

text \<open>The loop ends, and copies everything unless a read throws, in which case it has copied a part.\<close>

lemma copy_all:
  assumes "inv s"
  shows "\<exists>r s'. copy_loop at_eof rd out s = Some (r, s') \<and> inv s' \<and>
    (case r of Inr _ \<Rightarrow> shown s' = shown s @ coming s
     | Inl e \<Rightarrow> (\<exists>t. prefix t (coming s) \<and> shown s' = shown s @ t) \<and> (\<forall>u. e \<noteq> Undefined u))"
  using assms
proof (induction "length (coming s)" arbitrary: s rule: less_induct)
  case less
  note inv = less.prems
  show ?case
  proof (cases "ended s")
    case True
    then show ?thesis
      using inv eof_run [OF inv] ended_coming [OF inv] by (simp add: copy_loop.simps [of at_eof])
  next
    case False
    obtain r s1 where rd: "rd s = (r, s1)" by fastforce
    show ?thesis
    proof (cases r)
      case (Inl e)
      with rd False eof_run [OF inv] rd_throws [OF inv False] show ?thesis
        by (auto simp: copy_loop.simps [of at_eof] intro: exI [of _ "[]"])
    next
      case (Inr d)
      let ?s = "out d s1"
      note round = copy_round [OF inv False rd [unfolded Inr]]
      show ?thesis
      proof (cases "d = []")
        case True
        then have "copy_loop at_eof rd out ?s = Some (Inr (), ?s)"
          using round(3) eof_run [OF round(1)] by (subst copy_loop.simps) simp
        with True round(1-4) ended_coming [OF round(1)] show ?thesis
          unfolding round(5) by auto
      next
        case ne: False
        then have "length (coming ?s) < length (coming s)"
          using round(2) by simp
        from less.hyps [OF this round(1)] obtain r' s' where "copy_loop at_eof rd out ?s = Some (r', s')" "inv s'"
          "case r' of Inr _ \<Rightarrow> shown s' = shown ?s @ coming ?s
           | Inl e \<Rightarrow> (\<exists>t. prefix t (coming ?s) \<and> shown s' = shown ?s @ t) \<and> (\<forall>u. e \<noteq> Undefined u)"
          by blast
        then show ?thesis
          unfolding round(5) using round(2,4) by (cases r') (auto intro: exI [of _ "d @ _"])
      qed
    qed
  qed
qed

end

text \<open>A descriptor is such a source, with standard output as its sink, as long as it is the only owner of an open
  wrapper whose end-of-file flag is set only at the end.\<close>

definition reading :: "('k, 'z) kernel_scheme \<Rightarrow> ('k \<Rightarrow> int \<Rightarrow> string) \<Rightarrow> FileDescriptor \<Rightarrow> int \<Rightarrow> 'k world \<Rightarrow> bool" where
  "reading K pending f fd w \<longleftrightarrow> read_contract K pending \<and>
     (case cell_at w f of None \<Rightarrow> False
      | Some c \<Rightarrow> fdw_fd (cell_obj c) = fd \<and> cell_refs c = 1 \<and>
          (fdw_eof (cell_obj c) \<longrightarrow> pending (w_os w) fd = []))"

definition fd_ended :: "FileDescriptor \<Rightarrow> 'k world \<Rightarrow> bool" where
  "fd_ended f w = (case cell_at w f of None \<Rightarrow> False | Some c \<Rightarrow> fdw_eof (cell_obj c))"

definition cout_text :: "'k world \<Rightarrow> string" where
  "cout_text w = os_text (w_cout w)"

lemma cout_put_simps [simp]:
  "cell_at (cout_put d w) f = cell_at w f" "w_os (cout_put d w) = w_os w"
  "cout_text (cout_put d w) = cout_text w @ d"
  by (simp_all add: cout_put_def cell_at_def cout_text_def ostream_put_def)

lemma prefix_split: "prefix d xs \<Longrightarrow> xs = d @ drop (length d) xs"
  by (auto simp: prefix_def)

interpretation sock: byte_source "reading K pending f fd" "FileDescriptor_eof f" "FileDescriptor_read K f size_max"
  cout_put "fd_ended f" "\<lambda>w. pending (w_os w) fd" cout_text
proof unfold_locales
  fix s :: "'a world" and d s' e
  assume inv: "reading K pending f fd s"
  then obtain c where c: "cell_at s f = Some c" "fdw_fd (cell_obj c) = fd" "cell_refs c = 1" "read_contract K pending"
      "fdw_eof (cell_obj c) \<longrightarrow> pending (w_os s) fd = []"
    by (auto simp: reading_def split: option.splits)
  show "FileDescriptor_eof f s = (Inr (fd_ended f s), s)"
    using c(1) by (simp add: FileDescriptor_eof_def fd_ended_def)
  show "pending (w_os s) fd = []" if "fd_ended f s"
    using that c(1,5) by (simp add: fd_ended_def)
  have lim: "0 < size_max" by (simp add: size_max_def word_gt_0)
  note run = read_run [OF c(4,1) c(2) [symmetric], of size_max]
  show "reading K pending f fd s' \<and> pending (w_os s) fd = d @ pending (w_os s') fd \<and> cout_text s' = cout_text s \<and>
      (fd_ended f s' \<longleftrightarrow> d = [])" if ne: "\<not> fd_ended f s" and r: "FileDescriptor_read K f size_max s = (Inr d, s')"
  proof -
    from run r obtain k where k: "s' = fd_world f (did_read (d = []) c) k s" "prefix d (pending (w_os s) fd)"
        "pending k = (pending (w_os s))(fd := drop (length d) (pending (w_os s) fd))"
        "d = [] \<longrightarrow> pending (w_os s) fd = []"
      using lim by auto
    moreover have "\<not> fdw_eof (cell_obj c)"
      using ne c(1) by (simp add: fd_ended_def)
    ultimately show ?thesis
      using c prefix_split [OF k(2)]
      by (auto simp: reading_def fd_ended_def cell_at_fd_world did_read_def Let_def cout_text_def)
  qed
  show "reading K pending f fd s' \<and> cout_text s' = cout_text s \<and> (\<forall>u. e \<noteq> Undefined u)"
    if "\<not> fd_ended f s" and r: "FileDescriptor_read K f size_max s = (Inl e, s')"
  proof -
    from run r obtain n k where "s' = s\<lparr>w_os := k\<rparr>" "pending k = pending (w_os s)" "e = unix_error ''read'' n"
      by auto
    with c inv show ?thesis by (auto simp: reading_def cout_text_def)
  qed
  show "reading K pending f fd (cout_put d s) \<and> pending (w_os (cout_put d s)) fd = pending (w_os s) fd \<and>
      (fd_ended f (cout_put d s) \<longleftrightarrow> fd_ended f s) \<and> cout_text (cout_put d s) = cout_text s @ d"
    using c by (simp add: reading_def fd_ended_def)
qed

section \<open>Leaving the scope\<close>

lemma scope_exit_frees:
  assumes "cell_at w f = Some c" and "cell_refs c = 1"
  shows "\<exists>w'. scope_exit K f r w = (r, w') \<and> cell_at w' f = None \<and> cout_text w' = cout_text w"
  using destroy_run [OF assms(1), of K] assms(2) by (auto simp: scope_exit_def cout_text_def)

text \<open>What \<open>main\<close> makes of the result of \<open>get_URL\<close>.\<close>

lemma main_get_URL:
  assumes "get_URL K host path w = Some (r, w')" and "\<forall>u. r \<noteq> Inl (Undefined u)"
  shows "\<exists>w2. main K [prog, host, path] w = Some (Exit (case r of Inr _ \<Rightarrow> 0 | Inl _ \<Rightarrow> 1), w2) \<and>
    w_heap w2 = w_heap w' \<and> cout_text w2 = cout_text w' \<and> w_os w2 = w_os w' \<and>
    w_cerr w2 = w_cerr w' @ (case r of Inr _ \<Rightarrow> [] | Inl e \<Rightarrow> exn_what K e @ [CHR 0x0A])"
proof (cases r)
  case (Inr x)
  with assms show ?thesis by (simp add: main_def)
next
  case (Inl e)
  with assms show ?thesis by (cases e) (simp_all add: main_def cout_text_def)
qed

lemma heap_cell_at: "w_heap w = w_heap w' \<Longrightarrow> cell_at w f = cell_at w' f"
  by (simp add: cell_at_def)

text \<open>The socket right after \<open>TCPSocket sock;\<close>.\<close>

definition sock_cell :: "int \<Rightarrow> FDCell" where
  "sock_cell fd = \<lparr>cell_refs = 1, cell_obj = \<lparr>fdw_fd = fd, fdw_eof = False, fdw_closed = False,
     fdw_read_count = 0, fdw_write_count = 0\<rparr>\<rparr>"

lemma TCPSocket_new_run:
  assumes "os_socket K AF_INET SOCK_STREAM 0 (w_os w) = (fd, k)" and "0 \<le> fd" and "int_ok fd"
  shows "TCPSocket_new K w = (Inr (length (w_heap w)), w\<lparr>w_os := k, w_heap := w_heap w @ [Some (sock_cell fd)]\<rparr>)"
  using assms by (simp add: TCPSocket_new_def Socket_new_def bindS_run syscall_ok new_fd sock_cell_def)

section \<open>Safe with every kernel\<close>

text \<open>A copying loop made of safe actions is safe, if it ends.\<close>

context kept_relation
begin

lemma copy_loop_safe:
  assumes "copy_loop at_eof rd out s = Some y"
  shows "(\<forall>s'. kept s0 s' \<longrightarrow> safe_wrt kept at_eof s' \<and> safe_wrt kept rd s') \<longrightarrow> (\<forall>d s'. kept s' (out d s')) \<longrightarrow>
    kept s0 s \<longrightarrow> kept s0 (snd y) \<and> defined (fst y)"
  using assms
proof (rule copy_loop.raw_induct [rotated], intro impI)
  fix copy at_eof rd out s y
  assume ih: "\<And>at_eof rd out s y. copy at_eof rd out s = Some y \<Longrightarrow>
      (\<forall>s'. kept s0 s' \<longrightarrow> safe_wrt kept at_eof s' \<and> safe_wrt kept rd s') \<longrightarrow> (\<forall>d s'. kept s' (out d s')) \<longrightarrow>
      kept s0 s \<longrightarrow> kept s0 (snd y) \<and> defined (fst y)"
    and body: "(case at_eof s of (Inl e, s1) \<Rightarrow> Some (Inl e, s1)
      | (Inr b, s1) \<Rightarrow> if b then Some (Inr (), s1) else case rd s1 of
          (Inl e, s2) \<Rightarrow> Some (Inl e, s2) | (Inr d, s2) \<Rightarrow> copy at_eof rd out (out d s2)) = Some y"
    and acts: "\<forall>s'. kept s0 s' \<longrightarrow> safe_wrt kept at_eof s' \<and> safe_wrt kept rd s'"
    and out: "\<forall>d s'. kept s' (out d s')" and s: "kept s0 s"
  obtain b s1 where b: "at_eof s = (b, s1)" by fastforce
  then have s1: "kept s0 s1" "defined b"
    using acts s unfolding safe_wrt_def by (metis kept_trans snd_conv, metis fst_conv)
  obtain d s2 where d: "rd s1 = (d, s2)" by fastforce
  then have s2: "kept s0 s2" "defined d"
    using acts s1(1) unfolding safe_wrt_def by (metis kept_trans snd_conv, metis fst_conv)
  show "kept s0 (snd y) \<and> defined (fst y)"
  proof (cases b)
    case (Inl e)
    with body b s1 show ?thesis by (auto simp: defined_def)
  next
    case (Inr stop)
    show ?thesis
    proof (cases "stop \<or> (\<exists>e. d = Inl e)")
      case True
      with body b d Inr s1 s2 show ?thesis by (auto simp: defined_def split: if_splits)
    next
      case False
      then obtain x where "d = Inr x" by (cases d) auto
      with body b d Inr False have "copy at_eof rd out (out x s2) = Some y" by simp
      moreover have "kept s0 (out x s2)" using s2(1) out by (blast intro: kept_trans)
      ultimately show ?thesis using ih acts out by blast
    qed
  qed
qed

end

text \<open>What \<open>getaddrinfo(3)\<close> promises of each result: its address has the length it says.\<close>

definition resolver_ok :: "('k, 'z) kernel_scheme \<Rightarrow> bool" where
  "resolver_ok K \<longleftrightarrow> (\<forall>node service hints k. \<forall>r \<in> set (snd (fst (os_getaddrinfo K node service hints k))).
     unat (ai_addrlen r) \<le> length (ai_addr r))"

lemma resolve_safe [safe_intros]:
  assumes "resolver_ok K"
  shows "safe_wrt refs_kept (Address_resolve K node service hints) w"
proof -
  obtain ret rs k where g: "os_getaddrinfo K (c_str node) (c_str service) hints (w_os w) = ((ret, rs), k)"
    by (metis surj_pair)
  have "defined (Address_of_sockaddr (ai_addr r) (ucast (ai_addrlen r)))" if "r \<in> set rs" for r
  proof -
    have "unat (ai_addrlen r) \<le> length (ai_addr r)"
      using assms that g unfolding resolver_ok_def by (metis fst_conv snd_conv)
    moreover have "unat (ucast (ai_addrlen r) :: size_t) = unat (ai_addrlen r)"
      using unsigned_less [of "ai_addrlen r", where 'a = nat] by (simp add: unsigned_ucast_eq take_bit_nat_eq_self)
    ultimately show ?thesis by (simp add: Address_of_sockaddr_def)
  qed
  with g show ?thesis
    by (cases rs) (auto simp: Address_resolve_def safe_wrt_def bindS_run refs_kept_def)
qed

lemma scope_exit_refs:
  assumes "hrefs w f = None" and "hrefs w2 = (hrefs w)(f \<mapsto> 1)"
  shows "\<exists>w'. scope_exit K f r w2 = (r, w') \<and> refs_kept w w'"
proof -
  obtain w' where "FileDescriptor_destroy K f w2 = (Inr (), w')" "hrefs w' = (hrefs w2)(f := None)"
    using destroy_hrefs [of w2 f 1 K] assms(2) by auto
  with assms show ?thesis
    by (simp add: scope_exit_def refs_kept_def fun_upd_idem)
qed

lemma copy_from_safe:
  assumes "hrefs w f \<noteq> None"
    and "copy_loop (FileDescriptor_eof f) (FileDescriptor_read K f limit) cout_put w = Some y"
  shows "refs_kept w (snd y) \<and> defined (fst y)"
proof -
  have "safe_wrt refs_kept (FileDescriptor_eof f) w'" "safe_wrt refs_kept (FileDescriptor_read K f limit) w'"
    if "refs_kept w w'" for w'
    using refs_kept_live [OF that assms(1)] unfolding FileDescriptor_eof_def FileDescriptor_read_def
    by (intro safe_intros fd_method_safe; simp)+
  moreover have "refs_kept w' (cout_put d w')" for d w'
    by (simp add: refs_kept_def cout_put_def)
  ultimately show ?thesis
    using refs.copy_loop_safe [OF assms(2), of w] refs.kept_refl by blast
qed

lemma get_URL_safe:
  assumes "resolver_ok K" and "get_URL K host path w = Some (r, w')"
  shows "defined r \<and> refs_kept w w'"
proof -
  have new: "makes_owner (TCPSocket_new K) w"
    unfolding TCPSocket_new_def by (rule constructors_make_owner)
  obtain r1 w1 where r1: "TCPSocket_new K w = (r1, w1)" by fastforce
  show ?thesis
  proof (cases r1)
    case (Inl e)
    with r1 new assms(2) show ?thesis by (auto simp: get_URL_def makes_owner_def defined_def)
  next
    case (Inr f)
    with r1 new have w1: "hrefs w f = None" "hrefs w1 = (hrefs w)(f \<mapsto> 1)"
      by (simp_all add: makes_owner_def)
    let ?m = "bindS (Address_of_host K host ''http'') (\<lambda>a.
      seqS (Socket_connect K f a) (FileDescriptor_write_string K f (http_request host path) True))"
    obtain r2 w2 where r2: "?m w1 = (r2, w2)" by fastforce
    have "safe_wrt refs_kept ?m w1"
      unfolding Address_of_host_def Socket_connect_def FileDescriptor_write_string_def using assms(1) w1
      by (intro safe_intros fd_method_safe) (simp_all add: refs_kept_def)
    then have w2: "defined r2" "hrefs w2 = (hrefs w)(f \<mapsto> 1)"
      using r2 w1(2) by (simp_all add: safe_wrt_def refs_kept_def)
    obtain r3 w3 where w3: "get_URL K host path w = Some (scope_exit K f r3 w3)" "defined r3" "refs_kept w2 w3"
    proof (cases r2)
      case (Inl e)
      then show ?thesis
        using that [of "Inl e" w2] r1 Inr r2 w2(1) by (simp add: get_URL_def defined_def refs.kept_refl Inr)
    next
      case got: (Inr n)
      obtain y where y: "copy_loop (FileDescriptor_eof f) (FileDescriptor_read K f size_max) cout_put w2 = Some y"
        using assms(2) r1 Inr r2 got by (auto simp: get_URL_def split: option.splits)
      have "refs_kept w2 (snd y) \<and> defined (fst y)"
        using w2(2) by (intro copy_from_safe [OF _ y]) simp
      then show ?thesis
        using that [of "fst y" "snd y"] r1 Inr r2 got y by (simp add: get_URL_def split: prod.splits)
    qed
    with scope_exit_refs [OF w1(1), of w3 K r3] w2(2) assms(2) show ?thesis
      by (auto simp: refs_kept_def)
  qed
qed

section \<open>Properties\<close>

text \<open>The program up to the request: the world with the connected socket, and what \<open>get_URL\<close> does from there.\<close>

definition connected :: "'k world \<Rightarrow> int \<Rightarrow> 'k \<Rightarrow> 'k world" where
  "connected w fd k = w\<lparr>w_os := k, w_heap := w_heap w @ [Some (sock_cell fd)]\<rparr>"

lemma connected_simps [simp]:
  "cell_at (connected w fd k) (length (w_heap w)) = Some (sock_cell fd)" "w_os (connected w fd k) = k"
  "cout_text (connected w fd k) = cout_text w" "(connected w fd k)\<lparr>w_os := k'\<rparr> = connected w fd k'"
  by (simp_all add: connected_def cell_at_def cout_text_def)

lemma sock_cell_simps [simp]:
  "fdw_fd (cell_obj (sock_cell fd)) = fd" "cell_refs (sock_cell fd) = 1" "\<not> fdw_eof (cell_obj (sock_cell fd))"
  "\<not> fdw_closed (cell_obj (sock_cell fd))"
  by (simp_all add: sock_cell_def)

lemma connecting:
  assumes "os_socket K AF_INET SOCK_STREAM 0 (w_os w) = (fd, k1)" and "0 \<le> fd" and "int_ok fd"
    and "os_getaddrinfo K (c_str host) ''http'' (make_hints AI_ALL AF_INET) k1 = ((0, ai # rs), k2)"
    and "Address_of_sockaddr (ai_addr ai) (ucast (ai_addrlen ai)) = Inr a"
  shows "TCPSocket_new K w = (Inr (length (w_heap w)), connected w fd k1)"
    and "Address_of_host K host ''http'' (connected w fd k1) = (Inr a, connected w fd k2)"
proof -
  show "TCPSocket_new K w = (Inr (length (w_heap w)), connected w fd k1)"
    using TCPSocket_new_run [OF assms(1-3)] by (simp add: connected_def)
  have "c_str ''http'' = ''http''" by (simp add: c_str_def)
  then show "Address_of_host K host ''http'' (connected w fd k1) = (Inr a, connected w fd k2)"
    using assms(4,5) by (simp add: Address_of_host_def Address_resolve_def bindS_run)
qed

lemma get_URL_connected:
  assumes "os_socket K AF_INET SOCK_STREAM 0 (w_os w) = (fd, k1)" and "0 \<le> fd" and "int_ok fd"
    and "os_getaddrinfo K (c_str host) ''http'' (make_hints AI_ALL AF_INET) k1 = ((0, ai # rs), k2)"
    and "Address_of_sockaddr (ai_addr ai) (ucast (ai_addrlen ai)) = Inr a"
    and "os_connect K fd (addr_storage a) (addr_size a) k2 = (0, k3)" and "f = length (w_heap w)"
  shows "get_URL K host path w =
    (case FileDescriptor_write_string K f (http_request host path) True (connected w fd k3) of
       (Inl e, w2) \<Rightarrow> Some (scope_exit K f (Inl e) w2)
     | (Inr _, w2) \<Rightarrow>
         (case copy_loop (FileDescriptor_eof f) (FileDescriptor_read K f size_max) cout_put w2 of
            None \<Rightarrow> None
          | Some (r, w3) \<Rightarrow> Some (scope_exit K f r w3)))"
proof -
  note pre = connecting [OF assms(1-5)]
  have con: "Socket_connect K f a (connected w fd k2) = (Inr (), connected w fd k3)"
    using assms(6,7) by (simp add: Socket_connect_def step_simps)
  have "bindS (Address_of_host K host ''http'') (\<lambda>a. seqS (Socket_connect K f a)
      (FileDescriptor_write_string K f (http_request host path) True)) (connected w fd k1) =
      FileDescriptor_write_string K f (http_request host path) True (connected w fd k3)"
    using pre(2) con by (simp add: bindS_run seqS_run)
  with pre(1) show ?thesis unfolding assms(7) by (simp add: get_URL_def)
qed

text \<open>The loop on a descriptor of which this is the only owner, and the end of the scope.\<close>

lemma copy_and_exit:
  assumes "cell_at w f = Some c" and "cell_refs c = 1" and "fdw_fd (cell_obj c) = fd" and "\<not> fdw_eof (cell_obj c)"
    and "read_contract K pending"
  shows "\<exists>r w3 w4. copy_loop (FileDescriptor_eof f) (FileDescriptor_read K f size_max) cout_put w = Some (r, w3) \<and>
    scope_exit K f r w3 = (r, w4) \<and> cell_at w4 f = None \<and> (\<forall>u. r \<noteq> Inl (Undefined u)) \<and>
    (\<exists>t. cout_text w4 = cout_text w @ t \<and> prefix t (pending (w_os w) fd) \<and>
       (\<forall>x. r = Inr x \<longrightarrow> t = pending (w_os w) fd))"
proof -
  have "reading K pending f fd w"
    using assms by (simp add: reading_def)
  from sock.copy_all [OF this] obtain r w3 where loop:
      "copy_loop (FileDescriptor_eof f) (FileDescriptor_read K f size_max) cout_put w = Some (r, w3)"
      "reading K pending f fd w3"
      "case r of Inr _ \<Rightarrow> cout_text w3 = cout_text w @ pending (w_os w) fd
       | Inl e \<Rightarrow> (\<exists>t. prefix t (pending (w_os w) fd) \<and> cout_text w3 = cout_text w @ t) \<and> (\<forall>u. e \<noteq> Undefined u)"
    by blast
  obtain c3 where c3: "cell_at w3 f = Some c3" "cell_refs c3 = 1"
    using loop(2) by (auto simp: reading_def split: option.splits)
  obtain w4 where w4: "scope_exit K f r w3 = (r, w4)" "cell_at w4 f = None" "cout_text w4 = cout_text w3"
    using scope_exit_frees [OF c3, of K r] by blast
  have "\<exists>t. cout_text w4 = cout_text w @ t \<and> prefix t (pending (w_os w) fd) \<and>
      (\<forall>x. r = Inr x \<longrightarrow> t = pending (w_os w) fd)" "\<forall>u. r \<noteq> Inl (Undefined u)"
    using loop(3) w4(3) by (cases r; auto)+
  with loop(1) w4(1,2) show ?thesis by blast
qed

text \<open>C27. \<open>webget\<close> fetches: with a kernel that opens a socket, resolves the name and connects, and whose \<open>writev\<close> and
  \<open>read\<close> do what their manuals say, the program ends.  If it exits with 0, exactly the request was sent
  on the connection and everything that was to come on it after the request, up to the end of the
  stream, was written to standard output; if it exits with 1, a beginning of that was.  Nothing else can
  happen, and in either case the socket is gone.\<close>

theorem webget_fetches:
  assumes "os_socket K AF_INET SOCK_STREAM 0 (w_os w) = (fd, k1)" and "0 \<le> fd" and "int_ok fd"
    and "os_getaddrinfo K (c_str host) ''http'' (make_hints AI_ALL AF_INET) k1 = ((0, ai # rs), k2)"
    and "Address_of_sockaddr (ai_addr ai) (ucast (ai_addrlen ai)) = Inr a"
    and "os_connect K fd (addr_storage a) (addr_size a) k2 = (0, k3)"
    and "writev_contract K sent" and "read_contract K pending" and "string_ok (http_request host path)"
    and "FileDescriptor_write_string K (length (w_heap w)) (http_request host path) True (connected w fd k3) = (r, w2)"
  shows "\<exists>code w' t. main K [prog, host, path] w = Some (Exit code, w') \<and> cell_at w' (length (w_heap w)) = None \<and>
    cout_text w' = cout_text w @ t \<and> prefix t (pending (w_os w2) fd) \<and>
    (code = 0 \<and> sent (w_os w2) = (sent k3)(fd := sent k3 fd @ http_request host path) \<and> t = pending (w_os w2) fd \<or>
     code = 1)"
proof -
  let ?f = "length (w_heap w)" and ?req = "http_request host path"
  note get = get_URL_connected [OF assms(1-6) refl, of path]
  have rounds: "write_rounds K ?f True [?req] 0 (connected w fd k3) = (r, w2)"
    using assms(10) by (simp add: FileDescriptor_write_string_def FileDescriptor_write_def BufferViewList_of_string_def
        BufferViewList_of_view_def)
  obtain m c2 where m: "sent (w_os w2) = (sent k3)(fd := sent k3 fd @ take m ?req)"
      "\<forall>n. r = Inr n \<longrightarrow> m = length ?req" "\<forall>u. r \<noteq> Inl (Undefined u)" "w_cout w2 = w_cout (connected w fd k3)"
      "cell_at w2 ?f = Some c2" "same_file (sock_cell fd) c2"
    using write_rounds_run [OF assms(7) connected_simps(1) _ _ rounds] assms(9) by auto
  then have c2: "cell_refs c2 = 1" "fdw_fd (cell_obj c2) = fd" "\<not> fdw_eof (cell_obj c2)" "cout_text w2 = cout_text w"
    by (simp_all add: same_file_def cout_text_def connected_def sock_cell_def)
  have "\<exists>r' w4 t. get_URL K host path w = Some (r', w4) \<and> (\<forall>u. r' \<noteq> Inl (Undefined u)) \<and> cell_at w4 ?f = None \<and>
      cout_text w4 = cout_text w @ t \<and> prefix t (pending (w_os w2) fd) \<and>
      (\<forall>x. r' = Inr x \<longrightarrow> t = pending (w_os w2) fd \<and> (\<exists>n. r = Inr n))"
  proof (cases r)
    case (Inl e)
    then obtain w4 where "scope_exit K ?f (Inl e) w2 = (Inl e :: unit result, w4)" "cell_at w4 ?f = None"
        "cout_text w4 = cout_text w2"
      using scope_exit_frees [OF m(5) c2(1), of K "Inl e :: unit result"] by blast
    with Inl get assms(10) m(3) c2(4) show ?thesis by fastforce
  next
    case (Inr n)
    with copy_and_exit [OF m(5) c2(1-3) assms(8)] get assms(10) c2(4) show ?thesis by fastforce
  qed
  then obtain r' w4 t where g: "get_URL K host path w = Some (r', w4)" "\<forall>u. r' \<noteq> Inl (Undefined u)"
      "cell_at w4 ?f = None" "cout_text w4 = cout_text w @ t" "prefix t (pending (w_os w2) fd)"
      "\<forall>x. r' = Inr x \<longrightarrow> t = pending (w_os w2) fd \<and> (\<exists>n. r = Inr n)" by blast
  from main_get_URL [OF g(1,2), of prog] obtain w5 where
      w5: "main K [prog, host, path] w = Some (Exit (case r' of Inr _ \<Rightarrow> 0 | Inl _ \<Rightarrow> 1), w5)"
        "w_heap w5 = w_heap w4" "cout_text w5 = cout_text w4" by blast
  have "(case r' of Inr _ \<Rightarrow> 0 | Inl _ \<Rightarrow> 1) = (0 :: int) \<and>
      sent (w_os w2) = (sent k3)(fd := sent k3 fd @ ?req) \<and> t = pending (w_os w2) fd \<or>
      (case r' of Inr _ \<Rightarrow> 0 | Inl _ \<Rightarrow> 1) = (1 :: int)"
    using g(6) m(1,2) by (cases r') auto
  with w5 g(3-5) heap_cell_at [OF w5(2), of ?f] show ?thesis by auto
qed

text \<open>A kernel with one connection, on which a fixed answer comes back.\<close>

record wire =
  wire_sent :: "int \<Rightarrow> string"
  wire_pending :: "int \<Rightarrow> string"

definition web_kernel :: "wire kernel" where
  "web_kernel = failing_kernel\<lparr>
     os_socket := (\<lambda>d t p k. (3, k)),
     os_getaddrinfo := (\<lambda>node service hints k. ((0, [(make_hints 0 AF_INET)\<lparr>ai_addrlen := 16,
        ai_addr := sockaddr_in_bytes (ipv4_sockaddr 0x7f000001 80)\<rparr>]), k)),
     os_connect := (\<lambda>fd a len k. (0, k)),
     os_writev := (\<lambda>fd iov cnt k.
        let m = min 1000 (length (iovecs_bytes (take (nat cnt) iov))) in
        (int m, k\<lparr>wire_sent := (wire_sent k)(fd := wire_sent k fd @ take m (iovecs_bytes iov))\<rparr>)),
     os_read := (\<lambda>fd n k.
        let m = min (unat n) (length (wire_pending k fd)) in
        ((int m, take m (wire_pending k fd)),
         k\<lparr>wire_pending := (wire_pending k)(fd := drop m (wire_pending k fd))\<rparr>))\<rparr>"

lemma web_kernel_writev: "writev_contract web_kernel wire_sent"
  by (auto simp: writev_contract_def web_kernel_def Let_def min_def)

lemma web_kernel_read: "read_contract web_kernel wire_pending"
  by (auto simp: read_contract_def web_kernel_def Let_def min_def word_less_nat_alt)

theorem webget_fetches_witness:
  "\<exists>code w'. main web_kernel [''webget'', ''localhost'', ''/''] (fresh_world \<lparr>wire_sent = (\<lambda>_. []),
      wire_pending = (\<lambda>_. ''200 OK'')\<rparr>) = Some (Exit code, w') \<and>
    cell_at w' 0 = None \<and> prefix (cout_text w') ''200 OK'' \<and> (code = 0 \<and> cout_text w' = ''200 OK'' \<or> code = 1)"
proof -
  let ?w = "fresh_world \<lparr>wire_sent = (\<lambda>_. []), wire_pending = (\<lambda>_. ''200 OK'')\<rparr>"
  let ?ai = "(make_hints 0 AF_INET)\<lparr>ai_addrlen := 16, ai_addr := sockaddr_in_bytes (ipv4_sockaddr 0x7f000001 80)\<rparr>"
  let ?req = "http_request ''localhost'' ''/''"
  obtain a where a: "Address_of_sockaddr (ai_addr ?ai) (ucast (ai_addrlen ?ai)) = Inr a"
    using ipv4_address [of "ai_addr ?ai" "0x7f000001" 80] by auto
  have req: "string_ok ?req" "int_ok 3" "cout_text ?w = []"
    by (simp_all add: http_request_def crlf_def string_ok_def string_max_size_def int_ok_def cout_text_def fresh_world_def)
  obtain r w2 where w2: "FileDescriptor_write_string web_kernel 0 ?req True (connected ?w 3 (w_os ?w)) = (r, w2)"
    by fastforce
  have "wire_pending (w_os (snd (FileDescriptor_write_string web_kernel 0 ?req True (connected ?w 3 (w_os ?w))))) 3 =
      ''200 OK''"
    by code_simp
  then have pend: "wire_pending (w_os w2) 3 = ''200 OK''"
    using w2 by simp
  have "os_socket web_kernel AF_INET SOCK_STREAM 0 (w_os ?w) = (3, w_os ?w)"
      "os_getaddrinfo web_kernel (c_str ''localhost'') ''http'' (make_hints AI_ALL AF_INET) (w_os ?w) = ((0, [?ai]), w_os ?w)"
      "os_connect web_kernel 3 (addr_storage a) (addr_size a) (w_os ?w) = (0, w_os ?w)"
    by (simp_all add: web_kernel_def)
  from webget_fetches [OF this(1) _ req(2) this(2) a this(3) web_kernel_writev web_kernel_read req(1), of r w2 "''webget''"]
    w2 pend req(3)
  show ?thesis by auto
qed

text \<open>C28. \<open>webget\<close> is safe whatever happens: for every kernel, whatever it answers to any system call, if the program ends it ends with an
  exit code and not with undefined behaviour, and every descriptor it opened has been given back.  All that is asked
  of the resolver is that the addresses it returns have the length it says.\<close>

theorem webget_safe:
  assumes "resolver_ok K" and "main K argv w = Some (out, w')"
  shows "out \<noteq> Undefined_behaviour \<and> (\<forall>f. map_option cell_refs (cell_at w' f) = map_option cell_refs (cell_at w f))"
proof -
  have "defined r \<and> refs_kept w w1" if "get_URL K (argv ! 1) (argv ! 2) w = Some (r, w1)" for r w1
    using assms(1) that by (rule get_URL_safe)
  then have "out \<noteq> Undefined_behaviour \<and> hrefs w' = hrefs w"
    using assms(2) by (force simp: main_def refs_kept_def defined_def split: if_splits option.splits prod.splits sum.splits exn.splits)
  then show ?thesis by (auto simp: hrefs_def fun_eq_iff)
qed

definition nowhere :: "unit kernel" where
  "nowhere = failing_kernel\<lparr>os_socket := (\<lambda>d t p k. (3, k))\<rparr>"

theorem webget_safe_witness:
  "\<exists>out w'. main nowhere [''webget'', ''host'', ''/''] (fresh_world ()) = Some (out, w') \<and>
     out \<noteq> Undefined_behaviour \<and> cell_at w' 0 = None"
proof -
  have ok: "resolver_ok nowhere"
    by (simp add: resolver_ok_def nowhere_def failing_kernel_def)
  have "\<exists>y. get_URL nowhere ''host'' ''/'' (fresh_world ()) = Some y"
    by (simp add: get_URL_def TCPSocket_new_def Socket_new_def Address_of_host_def Address_resolve_def nowhere_def
        failing_kernel_def bindS_run syscall_run SystemCall_run to_int_def new_fd)
  then obtain out w' where m: "main nowhere [''webget'', ''host'', ''/''] (fresh_world ()) = Some (out, w')"
    by (fastforce simp: main_def split: sum.splits exn.splits)
  moreover have "cell_at (fresh_world ()) 0 = None"
    by (simp add: cell_at_def fresh_world_def)
  ultimately show ?thesis
    using webget_safe [OF ok m] by (metis option.map_disc_iff)
qed

text \<open>A failure is reported and nothing is printed: when the connection is refused, the program exits with 1,
  standard error says which call failed and why, standard output is untouched, and the socket is gone.\<close>

theorem webget_connection_refused:
  assumes "os_socket K AF_INET SOCK_STREAM 0 (w_os w) = (fd, k1)" and "0 \<le> fd" and "int_ok fd"
    and "os_getaddrinfo K (c_str host) ''http'' (make_hints AI_ALL AF_INET) k1 = ((0, ai # rs), k2)"
    and "Address_of_sockaddr (ai_addr ai) (ucast (ai_addrlen ai)) = Inr a"
    and "os_connect K fd (addr_storage a) (addr_size a) k2 = (-1, k3)" and "os_errno K k3 \<noteq> 0"
    and "os_close K fd k3 = (0, k4)"
  shows "\<exists>w'. main K [prog, host, path] w = Some (Exit 1, w') \<and> cell_at w' (length (w_heap w)) = None \<and>
    cout_text w' = cout_text w \<and> w_os w' = k4 \<and>
    (\<exists>s. w_cerr w' = s @ ''connect: '' @ os_strerror K (os_errno K k3) @ [CHR 0x0A])"
proof -
  let ?f = "length (w_heap w)" and ?e = "unix_error ''connect'' (os_errno K k3)"
  note pre = connecting [OF assms(1-5)]
  have con: "Socket_connect K ?f a (connected w fd k2) = (Inl ?e, connected w fd k3)"
    using assms(6,7) by (simp add: Socket_connect_def step_simps)
  obtain w2 where w2: "FileDescriptor_destroy K ?f (connected w fd k3) = (Inr (), w2)" "w_os w2 = k4"
      "cell_at w2 ?f = None"
    using destroy_last [of "connected w fd k3" ?f "sock_cell fd" k4 K] assms(8) by auto
  have shown: "cout_text w2 = cout_text w"
    using destroy_run [OF connected_simps(1) [of w fd k3], of K] w2(1) by (simp add: cout_text_def connected_def)
  have "get_URL K host path w = Some (Inl ?e, w2)"
    using pre con w2(1) by (simp add: get_URL_def bindS_run seqS_run scope_exit_def)
  from main_get_URL [OF this, of prog] obtain w3 where "main K [prog, host, path] w = Some (Exit 1, w3)"
      "w_heap w3 = w_heap w2" "cout_text w3 = cout_text w2" "w_os w3 = w_os w2"
      "w_cerr w3 = w_cerr w2 @ ''connect: '' @ os_strerror K (os_errno K k3) @ [CHR 0x0A]"
    by auto
  with w2 shown heap_cell_at [of w3 w2 ?f] show ?thesis by simp
qed

definition refusing_kernel :: "unit kernel" where
  "refusing_kernel = dns_instance\<lparr>os_socket := (\<lambda>d t p k. (3, k)), os_close := (\<lambda>fd k. (0, k))\<rparr>"

theorem webget_connection_refused_witness:
  "\<exists>w' s. main refusing_kernel [''webget'', ''dns'', ''/''] (fresh_world ()) = Some (Exit 1, w') \<and>
     cout_text w' = [] \<and> w_cerr w' = s @ ''connect: Bad file descriptor'' @ [CHR 0x0A]"
proof -
  let ?ai = "(make_hints 0 AF_INET)\<lparr>ai_addrlen := 16, ai_addr := sockaddr_in_bytes (ipv4_sockaddr 0x08080808 53)\<rparr>"
  obtain a where a: "Address_of_sockaddr (ai_addr ?ai) (ucast (ai_addrlen ?ai)) = Inr a"
    using ipv4_address [of "ai_addr ?ai" "0x08080808" 53] by auto
  have "os_socket refusing_kernel AF_INET SOCK_STREAM 0 (w_os (fresh_world ())) = (3, ())"
      "os_getaddrinfo refusing_kernel (c_str ''dns'') ''http'' (make_hints AI_ALL AF_INET) () = ((0, [?ai]), ())"
      "os_connect refusing_kernel 3 (addr_storage a) (addr_size a) () = (-1, ())"
      "os_errno refusing_kernel () \<noteq> 0" "os_close refusing_kernel 3 () = (0, ())"
    by (simp_all add: refusing_kernel_def dns_instance_def failing_kernel_def)
  note run = webget_connection_refused [OF this(1) _ _ this(2) a this(3-5), of "''webget''" "''/''"]
  have "int_ok 3" "os_strerror refusing_kernel (os_errno refusing_kernel ()) = ''Bad file descriptor''"
      "cout_text (fresh_world ()) = []"
    by (simp_all add: int_ok_def refusing_kernel_def dns_instance_def failing_kernel_def cout_text_def fresh_world_def)
  with run show ?thesis by auto
qed

end
