(* ===== verification/Random_Generator.thy ===== *)
theory Random_Generator
  imports Sponge_System
begin

unbundle bit_operations_syntax

text \<open>
  \<open>get_random_generator\<close> of \<open>libsponge/util/util.cc\<close>: 624 words from \<open>std::random_device\<close>, mixed by \<open>std::seed_seq\<close> into the state
  of a \<open>std::mt19937\<close>.  The device is a call of the system; \<open>seed_seq\<close> and the seeding of the engine are those of the
  C++ standard (sections \<open>rand.util.seedseq\<close> and \<open>rand.eng.mers\<close>).
\<close>

section \<open>The device\<close>

record 'k entropy_kernel = "'k kernel" +
  os_random_device :: "'k \<Rightarrow> uint32_t \<times> 'k"

definition state_size :: nat where
  "state_size = 624"

text \<open>\<open>generate(begin, end, f)\<close> calls \<open>f\<close> once for each element, from the first to the last.\<close>

fun generate :: "('k \<Rightarrow> 'a \<times> 'k) \<Rightarrow> nat \<Rightarrow> 'k \<Rightarrow> 'a list \<times> 'k" where
  "generate f 0 k = ([], k)"
| "generate f (Suc n) k = (let (x, k1) = f k; (xs, k2) = generate f n k1 in (x # xs, k2))"

section \<open>seed_seq\<close>

text \<open>The mixing function of \<open>seed_seq::generate\<close>.  Indices into the output wrap around; \<open>a\<close> is the output with \<open>n\<close> words.\<close>

definition seed_T :: "uint32_t \<Rightarrow> uint32_t" where
  "seed_T x = x XOR drop_bit 27 x"

definition ring_get :: "'a list \<Rightarrow> nat \<Rightarrow> 'a" where
  "ring_get a i = a ! (i mod length a)"

definition ring_set :: "'a list \<Rightarrow> nat \<Rightarrow> 'a \<Rightarrow> 'a list" where
  "ring_set a i x = a[i mod length a := x]"

definition seed_t :: "nat \<Rightarrow> nat" where
  "seed_t n = (if 623 \<le> n then 11 else if 68 \<le> n then 7 else if 39 \<le> n then 5 else if 7 \<le> n then 3 else (n - 1) div 2)"

definition seed_p :: "nat \<Rightarrow> nat" where
  "seed_p n = (n - seed_t n) div 2"

definition seed_q :: "nat \<Rightarrow> nat" where
  "seed_q n = seed_p n + seed_t n"

text \<open>\<open>k - 1\<close> wraps to the last word when \<open>k\<close> is 0.\<close>

definition before :: "'a list \<Rightarrow> nat \<Rightarrow> nat" where
  "before a k = k + length a - 1"

definition seed_add :: "uint32_t list \<Rightarrow> uint32_t list \<Rightarrow> nat \<Rightarrow> uint32_t list" where
  "seed_add v a k =
     (let n = length a; s = length v; p = seed_p n; q = seed_q n;
          r1 = 1664525 * seed_T (ring_get a k XOR ring_get a (k + p) XOR ring_get a (before a k));
          r2 = r1 + (if k = 0 then of_nat s
                     else if k \<le> s then of_nat (k mod n) + v ! (k - 1)
                     else of_nat (k mod n));
          a = ring_set a (k + p) (ring_get a (k + p) + r1);
          a = ring_set a (k + q) (ring_get a (k + q) + r2) in
      ring_set a k r2)"

definition seed_xor :: "uint32_t list \<Rightarrow> nat \<Rightarrow> uint32_t list" where
  "seed_xor a k =
     (let n = length a; p = seed_p n; q = seed_q n;
          r3 = 1566083941 * seed_T (ring_get a k + ring_get a (k + p) + ring_get a (before a k));
          r4 = r3 - of_nat (k mod n);
          a = ring_set a (k + p) (ring_get a (k + p) XOR r3);
          a = ring_set a (k + q) (ring_get a (k + q) XOR r4) in
      ring_set a k r4)"

definition seed_seq_generate :: "uint32_t list \<Rightarrow> nat \<Rightarrow> uint32_t list" where
  "seed_seq_generate v n =
     (if n = 0 then []
      else
        let m = max (length v + 1) n;
            a = foldl (seed_add v) (replicate n 0x8b8b8b8b) [0..<m] in
        foldl seed_xor a [m..<m + n])"

text \<open>A published test vector: ten words generated from the seeds 1 to 5.\<close>

lemma seed_seq_vector: "seed_seq_generate [1, 2, 3, 4, 5] 10 =
    [4204997637, 4246533866, 1856049002, 1129615051, 690460811, 1075771511, 46783058, 3904109078, 1534123438, 1495905678]"
  by code_simp

section \<open>mt19937\<close>

text \<open>The state is \<open>state_size\<close> words, of which the first counts with its highest bit only.  A state in which that bit and
  all other words are zero would produce zeros for ever; the constructor replaces it.\<close>

type_synonym mt19937 = "uint32_t list"

definition mt_degenerate :: "mt19937 \<Rightarrow> bool" where
  "mt_degenerate x \<longleftrightarrow> drop_bit 31 (hd x) = 0 \<and> list_all (\<lambda>y. y = 0) (tl x)"

definition mt19937_of_seed :: "uint32_t list \<Rightarrow> mt19937" where
  "mt19937_of_seed v =
     (let x = seed_seq_generate v state_size in
      if mt_degenerate x then x[0 := push_bit 31 1] else x)"

definition get_random_generator :: "('k, 'z) entropy_kernel_scheme \<Rightarrow> ('k world, mt19937) act" where
  "get_random_generator K =
     bindS (osS (generate (os_random_device K) state_size)) (\<lambda>seed_data. retS (mt19937_of_seed seed_data))"

text \<open>A call of the engine.  The state holds the last \<open>state_size\<close> values of the sequence, the oldest first: the next value is
  made of the upper bit of the oldest, the lower bits of its successor and the value 397 places on, and
  tempered for output.\<close>

definition mt_temper :: "uint32_t \<Rightarrow> uint32_t" where
  "mt_temper z =
     (let z = z XOR (drop_bit 11 z AND 0xffffffff);
          z = z XOR (push_bit 7 z AND 0x9d2c5680);
          z = z XOR (push_bit 15 z AND 0xefc60000) in
      z XOR drop_bit 18 z)"

definition mt19937_next :: "mt19937 \<Rightarrow> uint32_t \<times> mt19937" where
  "mt19937_next x =
     (let y = (x ! 0 AND 0x80000000) OR (x ! 1 AND 0x7fffffff);
          a = (if bit y 0 then 0x9908b0df else 0);
          z = x ! 397 XOR (drop_bit 1 y XOR a) in
      (mt_temper z, tl x @ [z]))"

section \<open>Lemmas\<close>

lemma length_ring_set [simp]: "length (ring_set a i x) = length a"
  by (simp add: ring_set_def)

lemma length_seed_steps [simp]: "length (seed_add v a k) = length a" "length (seed_xor a k) = length a"
  by (simp_all add: seed_add_def seed_xor_def Let_def)

lemma length_foldl:
  assumes "\<And>a k. length (g a k) = length a"
  shows "length (foldl g a ks) = length a"
  by (induction ks arbitrary: a) (simp_all add: assms)

lemma length_seed_seq_generate [simp]: "length (seed_seq_generate v n) = n"
  by (simp add: seed_seq_generate_def Let_def length_foldl)

text \<open>\<open>generate\<close> is the sequence of draws: element \<open>i\<close> is what the device yields after \<open>i\<close> draws.\<close>

lemma generate_draws:
  assumes "generate f n k = (xs, k')"
  shows "length xs = n" and "k' = ((\<lambda>k. snd (f k)) ^^ n) k" and "i < n \<Longrightarrow> xs ! i = fst (f (((\<lambda>k. snd (f k)) ^^ i) k))"
proof -
  have "length xs = n \<and> k' = ((\<lambda>k. snd (f k)) ^^ n) k \<and> (\<forall>i<n. xs ! i = fst (f (((\<lambda>k. snd (f k)) ^^ i) k)))"
    using assms
  proof (induction n arbitrary: k xs)
    case (Suc n)
    obtain x k1 ys where d: "f k = (x, k1)" "generate f n k1 = (ys, k')" "xs = x # ys"
      using Suc.prems by (auto simp: Let_def split: prod.splits)
    with Suc.IH [OF d(2)] show ?case
      by (auto simp: funpow_Suc_right nth_Cons' gr0_conv_Suc simp del: funpow.simps)
  qed simp
  then show "length xs = n" "k' = ((\<lambda>k. snd (f k)) ^^ n) k"
    "i < n \<Longrightarrow> xs ! i = fst (f (((\<lambda>k. snd (f k)) ^^ i) k))" by blast+
qed

lemma mt19937_of_seed_ok:
  "length (mt19937_of_seed v) = 624" "\<not> mt_degenerate (mt19937_of_seed v)"
proof -
  have len: "length (seed_seq_generate v state_size) = 624"
    by (simp add: state_size_def)
  then obtain x xs where x: "seed_seq_generate v state_size = x # xs"
    by (cases "seed_seq_generate v state_size") simp_all
  show "length (mt19937_of_seed v) = 624"
    using len by (simp add: mt19937_of_seed_def Let_def)
  have "drop_bit 31 (push_bit 31 1 :: uint32_t) \<noteq> 0"
    by simp
  then show "\<not> mt_degenerate (mt19937_of_seed v)"
    unfolding mt19937_of_seed_def Let_def x by (simp add: mt_degenerate_def)
qed

lemma get_random_generator_run:
  "\<exists>v. get_random_generator K w =
      (Inr (mt19937_of_seed v), w\<lparr>w_os := ((\<lambda>k. snd (os_random_device K k)) ^^ 624) (w_os w)\<rparr>) \<and>
    v = map (\<lambda>i. fst (os_random_device K (((\<lambda>k. snd (os_random_device K k)) ^^ i) (w_os w)))) [0..<624]"
proof -
  obtain v k where v: "generate (os_random_device K) 624 (w_os w) = (v, k)" by fastforce
  note d = generate_draws [OF v]
  have "get_random_generator K w = (Inr (mt19937_of_seed v), w\<lparr>w_os := k\<rparr>)"
    using v by (simp add: get_random_generator_def state_size_def bindS_run del: generate.simps)
  moreover have "v = map (\<lambda>i. fst (os_random_device K (((\<lambda>k. snd (os_random_device K k)) ^^ i) (w_os w)))) [0..<624]"
    using d(1,3) by (intro nth_equalityI) (simp_all del: funpow.simps)
  ultimately show ?thesis
    using d(2) by blast
qed

section \<open>Properties\<close>

text \<open>\<open>get_random_generator\<close> seeds the whole state: it draws exactly 624 words from the device, in order and nothing else from
  the system, and returns an engine of 624 words seeded with all of them; whatever the device yields,
  the engine is not in the state that produces only zeros.\<close>

theorem random_generator_seeded:
  "\<exists>v. get_random_generator K w =
      (Inr (mt19937_of_seed v), w\<lparr>w_os := ((\<lambda>k. snd (os_random_device K k)) ^^ 624) (w_os w)\<rparr>) \<and>
    v = map (\<lambda>i. fst (os_random_device K (((\<lambda>k. snd (os_random_device K k)) ^^ i) (w_os w)))) [0..<624] \<and>
    length (mt19937_of_seed v) = 624 \<and> \<not> mt_degenerate (mt19937_of_seed v)"
proof -
  obtain v where v: "get_random_generator K w =
      (Inr (mt19937_of_seed v), w\<lparr>w_os := ((\<lambda>k. snd (os_random_device K k)) ^^ 624) (w_os w)\<rparr>)"
    "v = map (\<lambda>i. fst (os_random_device K (((\<lambda>k. snd (os_random_device K k)) ^^ i) (w_os w)))) [0..<624]"
    using get_random_generator_run [of K w] by blast
  then show ?thesis
    using mt19937_of_seed_ok by blast
qed

end
