(* ===== verification/Doctests.thy ===== *)
theory Doctests
  imports Webget Random_Generator
begin

unbundle bit_operations_syntax

text \<open>
  The example programs of \<open>doctests\<close>, which the documentation of the library includes and the build runs: each is a small
  client of several components.  An \<open>example\<close> file is a piece of code that throws when something is not as expected; the
  \<open>_dt\<close> file around it turns that into an exit code.
\<close>

section \<open>Programs\<close>

text \<open>How a \<open>main\<close> made of a \<open>try\<close> block ends.\<close>

fun exit_code :: "'a result \<Rightarrow> outcome" where
  "exit_code (Inr x) = Exit 0"
| "exit_code (Inl (Undefined u)) = Undefined_behaviour"
| "exit_code (Inl e) = Exit 1"

text \<open>A local variable that owns a descriptor: it is destroyed at the end of the scope, however that is reached.\<close>

definition scoped :: "('k, 'z) kernel_scheme \<Rightarrow> FileDescriptor \<Rightarrow> ('k world, 'a) act \<Rightarrow> ('k world, 'a) act" where
  "scoped K f m = (\<lambda>w. case m w of (r, w') \<Rightarrow> scope_exit K f r w')"

section \<open>parser_dt\<close>

definition parser_example_serialize :: "uint32_t \<Rightarrow> uint16_t \<Rightarrow> uint8_t \<Rightarrow> uint32_t \<Rightarrow> string" where
  "parser_example_serialize val1 val2 val3 val4 =
     (let buffer = [];
          buffer = buffer @ [CHR 0x32];
          buffer = NetUnparser_u32 buffer val1;
          buffer = NetUnparser_u16 buffer val2;
          buffer = NetUnparser_u8 buffer val3;
          buffer = NetUnparser_u32 buffer val4 in
      buffer)"

definition parser_example_deserialize ::
  "string \<Rightarrow> (uint8_t \<times> uint32_t \<times> uint16_t \<times> uint8_t \<times> uint32_t) result" where
  "parser_example_deserialize buffer =
     (let p = NetParser_new (Buffer_new buffer) in
      bindR (NetParser_u8 p) (\<lambda>(out0, p).
      bindR (NetParser_u32 p) (\<lambda>(out1, p).
      bindR (NetParser_u16 p) (\<lambda>(out2, p).
      bindR (NetParser_u8 p) (\<lambda>(out3, p).
      bindR (NetParser_u32 p) (\<lambda>(out4, p). Inr (out0, out1, out2, out3, out4)))))))"

definition parser_example :: "uint32_t \<Rightarrow> uint16_t \<Rightarrow> uint8_t \<Rightarrow> uint32_t \<Rightarrow> unit result" where
  "parser_example val1 val2 val3 val4 =
     bindR (parser_example_deserialize (parser_example_serialize val1 val2 val3 val4)) (\<lambda>(out0, out1, out2, out3, out4).
       if out0 \<noteq> 0x32 \<or> out1 \<noteq> val1 \<or> out2 \<noteq> val2 \<or> out3 \<noteq> val3 \<or> out4 \<noteq> val4
       then Inl (runtime_error ''bad parse'') else Inr ())"

text \<open>The constants at the beginning of the example.\<close>

definition example_val1 :: uint32_t where
  "example_val1 = 0xdeadbeef"

definition example_val2 :: uint16_t where
  "example_val2 = 0xc0c0"

definition example_val3 :: uint8_t where
  "example_val3 = 0xff"

definition example_val4 :: uint32_t where
  "example_val4 = 0x0c05fefe"

definition parser_dt_main :: outcome where
  "parser_dt_main = exit_code (parser_example example_val1 example_val2 example_val3 example_val4)"

section \<open>address_dt\<close>

definition address_example_1 :: "('k, 'z) kernel_scheme \<Rightarrow> ('k world, Address) act" where
  "address_example_1 K = Address_of_host K ''www.google.com'' ''https''"

definition address_example_2 :: "('k, 'z) kernel_scheme \<Rightarrow> ('k world, Address) act" where
  "address_example_2 K = Address_of_ip K ''18.71.0.151'' 53"

definition address_example_3 :: "Address \<Rightarrow> uint32_t result" where
  "address_example_3 a_dns_server = Address_ipv4_numeric a_dns_server"

definition address_dt_body :: "('k, 'z) kernel_scheme \<Rightarrow> ('k world, unit) act" where
  "address_dt_body K =
     bindS (address_example_1 K) (\<lambda>google_webserver.
     bindS (address_example_2 K) (\<lambda>a_dns_server.
     bindS (liftS (address_example_3 a_dns_server)) (\<lambda>a_dns_server_numeric.
     bindS (Address_port K google_webserver) (\<lambda>port.
       if port \<noteq> 443 \<or> a_dns_server_numeric \<noteq> 0x12470097 then throwS (runtime_error ''unexpected value'')
       else retS ()))))"

definition address_dt_main :: "('k, 'z) kernel_scheme \<Rightarrow> 'k world \<Rightarrow> outcome \<times> 'k world" where
  "address_dt_main K w =
     (case address_dt_body K w of
        (Inl (Undefined u), w') \<Rightarrow> (Undefined_behaviour, w')
      | (Inl e, w') \<Rightarrow> (Exit 1, w'\<lparr>w_cerr := w_cerr w' @ ''This test requires Internet access and working DNS.'' @
          [CHR 0x0A] @ ''Error: '' @ exn_what K e @ [CHR 0x0A]\<rparr>)
      | (Inr _, w') \<Rightarrow> (Exit 0, w'))"

section \<open>socket_dt\<close>

record 'k test_kernel = "'k entropy_kernel" +
  os_socketpair :: "int \<Rightarrow> int \<Rightarrow> int \<Rightarrow> 'k \<Rightarrow> (int \<times> int \<times> int) \<times> 'k"

text \<open>\<open>(random_device()() % 50000) + 1025\<close>, computed in \<open>unsigned\<close> and stored in 16 bits.\<close>

definition portnum :: "uint32_t \<Rightarrow> uint16_t" where
  "portnum r = ucast (r mod 50000 + 1025)"

definition check_data :: "string \<Rightarrow> string \<Rightarrow> ('s, unit) act" where
  "check_data recvd recvd2 =
     (if recvd \<noteq> ''hi there'' \<or> recvd2 \<noteq> ''hi yourself'' then throwS (runtime_error ''wrong data received'')
      else retS ())"

text \<open>The conversation in the second and third example, between the ends \<open>f\<close> and \<open>g\<close> of a connection; \<open>m\<close> is what follows it.\<close>

definition conversation ::
  "('k, 'z) kernel_scheme \<Rightarrow> FileDescriptor \<Rightarrow> FileDescriptor \<Rightarrow> (string \<Rightarrow> string \<Rightarrow> ('k world, 'a) act) \<Rightarrow> ('k world, 'a) act" where
  "conversation K f g m =
     seqS (FileDescriptor_write_cstring K f ''hi there'' True) (
     bindS (FileDescriptor_read K g size_max) (\<lambda>recvd.
     seqS (FileDescriptor_write_cstring K g ''hi yourself'' True) (
     bindS (FileDescriptor_read K f size_max) (\<lambda>recvd2. m recvd recvd2))))"

text \<open>The first example, from the inner scope outwards.\<close>

definition example_1_sock2 ::
  "('k, 'z) kernel_scheme \<Rightarrow> uint16_t \<Rightarrow> FileDescriptor \<Rightarrow> FileDescriptor \<Rightarrow> ('k world, unit) act" where
  "example_1_sock2 K port sock1 sock2 =
     bindS (Address_of_ip K ''127.0.0.1'' port) (\<lambda>a.
     seqS (UDPSocket_sendto K sock2 a (BufferViewList_of_cstring ''hi there'')) (
     bindS (UDPSocket_recv K sock1 default_mtu) (\<lambda>recvd.
     seqS (Socket_connect K sock1 (dg_source_address recvd)) (
     seqS (UDPSocket_send K sock1 (BufferViewList_of_cstring ''hi yourself'')) (
     bindS (UDPSocket_recv K sock2 default_mtu) (\<lambda>recvd2.
       check_data (dg_payload recvd) (dg_payload recvd2)))))))"

definition example_1_sock1 :: "('k, 'z) kernel_scheme \<Rightarrow> uint16_t \<Rightarrow> FileDescriptor \<Rightarrow> ('k world, unit) act" where
  "example_1_sock1 K port sock1 =
     bindS (Address_of_ip K ''127.0.0.1'' port) (\<lambda>a.
     seqS (Socket_bind K sock1 a) (
     bindS (UDPSocket_new K) (\<lambda>sock2. scoped K sock2 (example_1_sock2 K port sock1 sock2))))"

definition socket_example_1 :: "('k, 'z) test_kernel_scheme \<Rightarrow> ('k world, unit) act" where
  "socket_example_1 K =
     bindS (osS (os_random_device K)) (\<lambda>rd.
     bindS (UDPSocket_new K) (\<lambda>sock1. scoped K sock1 (example_1_sock1 K (portnum rd) sock1)))"

text \<open>The second example, from the end of each scope outwards.\<close>

definition example_2_sock3 ::
  "('k, 'z) kernel_scheme \<Rightarrow> FileDescriptor \<Rightarrow> FileDescriptor \<Rightarrow> FileDescriptor \<Rightarrow> ('k world, unit) act" where
  "example_2_sock3 K sock1 sock2 sock3 =
     conversation K sock3 sock2 (\<lambda>recvd recvd2.
     seqS (FileDescriptor_close K sock1) (
     seqS (FileDescriptor_close K sock2) (
     seqS (Socket_shutdown K sock3 SHUT_RDWR)
       (check_data recvd recvd2))))"

definition example_2_sock2 ::
  "('k, 'z) kernel_scheme \<Rightarrow> uint16_t \<Rightarrow> FileDescriptor \<Rightarrow> FileDescriptor \<Rightarrow> ('k world, unit) act" where
  "example_2_sock2 K port sock1 sock2 =
     bindS (Address_of_ip K ''127.0.0.1'' port) (\<lambda>a.
     seqS (Socket_connect K sock2 a) (
     bindS (TCPSocket_accept K sock1) (\<lambda>sock3. scoped K sock3 (example_2_sock3 K sock1 sock2 sock3))))"

definition example_2_sock1 :: "('k, 'z) kernel_scheme \<Rightarrow> uint16_t \<Rightarrow> FileDescriptor \<Rightarrow> ('k world, unit) act" where
  "example_2_sock1 K port sock1 =
     bindS (Address_of_ip K ''127.0.0.1'' port) (\<lambda>a.
     seqS (Socket_bind K sock1 a) (
     seqS (TCPSocket_listen K sock1 1) (
     bindS (TCPSocket_new K) (\<lambda>sock2. scoped K sock2 (example_2_sock2 K port sock1 sock2)))))"

definition socket_example_2 :: "('k, 'z) test_kernel_scheme \<Rightarrow> ('k world, unit) act" where
  "socket_example_2 K =
     bindS (osS (os_random_device K)) (\<lambda>rd.
     bindS (TCPSocket_new K) (\<lambda>sock1. scoped K sock1 (example_2_sock1 K (portnum rd) sock1)))"

definition socket_example_3 :: "('k, 'z) test_kernel_scheme \<Rightarrow> ('k world, unit) act" where
  "socket_example_3 K =
     bindS (osS (os_socketpair K AF_UNIX SOCK_STREAM 0)) (\<lambda>(r, fd0, fd1).
     seqS (SystemCall K ''socketpair'' (to_int r) 0) (
     bindS (bindS (FileDescriptor_new fd0) (LocalStreamSocket_of_fd K)) (\<lambda>pipe1. scoped K pipe1 (
     bindS (bindS (FileDescriptor_new fd1) (LocalStreamSocket_of_fd K)) (\<lambda>pipe2.
       scoped K pipe2 (conversation K pipe1 pipe2 check_data))))))"

definition socket_dt_main :: "('k, 'z) test_kernel_scheme \<Rightarrow> 'k world \<Rightarrow> outcome \<times> 'k world" where
  "socket_dt_main K w =
     (case seqS (socket_example_1 K) (seqS (socket_example_2 K) (socket_example_3 K)) w of (r, w') \<Rightarrow> (exit_code r, w'))"

section \<open>Lemmas\<close>

lemma scoped_run:
  assumes "m w = (r, w1)" and "cell_at w1 f = Some c" and "cell_refs c = 1"
  shows "\<exists>w2. scoped K f m w = (r, w2) \<and> cell_at w2 f = None \<and> (\<forall>g. g \<noteq> f \<longrightarrow> cell_at w2 g = cell_at w1 g)"
  using destroy_run [OF assms(2), of K] assms(1,3) by (auto simp: scoped_def scope_exit_def)

text \<open>Streams that deliver: a short write is sent at once and whole, and a read hands over everything that has come.
  \<open>peer fd\<close> is the other end of the connection of \<open>fd\<close>.\<close>

definition delivering :: "('k, 'z) kernel_scheme \<Rightarrow> ('k \<Rightarrow> int \<Rightarrow> string) \<Rightarrow> (int \<Rightarrow> int) \<Rightarrow> bool" where
  "delivering K pend peer \<longleftrightarrow>
     (\<forall>fd iov cnt k. case os_writev K fd iov cnt k of (r, k') \<Rightarrow>
        let b = iovecs_bytes (take (nat cnt) iov) in
        length b \<le> 4096 \<longrightarrow> r = int (length b) \<and> pend k' = (pend k)(peer fd := pend k (peer fd) @ b)) \<and>
     (\<forall>fd n k. case os_read K fd n k of ((r, data), k') \<Rightarrow>
        pend k fd \<noteq> [] \<and> length (pend k fd) \<le> unat n \<longrightarrow>
        r = int (length data) \<and> data = pend k fd \<and> pend k' = (pend k)(fd := []))"

lemma delivering_writev:
  assumes "delivering K pend peer" and "os_writev K fd iov cnt k = (r, k')"
    and "iovecs_bytes (take (nat cnt) iov) = b" and "length b \<le> 4096"
  shows "r = int (length b) \<and> pend k' = (pend k)(peer fd := pend k (peer fd) @ b)"
  using conjunct1 [OF assms(1) [unfolded delivering_def], THEN spec, of fd, THEN spec, of iov, THEN spec, of cnt, THEN spec, of k]
    assms(2-4) by simp

lemma delivering_read:
  assumes "delivering K pend peer" and "os_read K fd n k = ((r, data), k')"
    and "pend k fd \<noteq> []" and "length (pend k fd) \<le> unat n"
  shows "r = int (length data) \<and> data = pend k fd \<and> pend k' = (pend k)(fd := [])"
  using conjunct2 [OF assms(1) [unfolded delivering_def], THEN spec, of fd, THEN spec, of n, THEN spec, of k]
    assms(2-4) by simp

lemma write_delivered:
  assumes "delivering K pend peer" and "cell_at w f = Some c" and "fd = fdw_fd (cell_obj c)"
    and "s \<noteq> []" and "length s \<le> 4096" and "CHR 0x00 \<notin> set s"
  shows "\<exists>n k. FileDescriptor_write_cstring K f s True w = (Inr n, fd_world f (wrote c) k w) \<and>
    pend k = (pend (w_os w))(peer fd := pend (w_os w) (peer fd) @ s)"
proof -
  let ?iov = "BufferViewList_as_iovecs [s]"
  have ok: "string_ok (concat [s])" and sok: "string_ok s"
    using assms(5) by (simp_all add: string_ok_def string_max_size_def)
  have cs: "BufferViewList_of_cstring s = [s]"
    using assms(6) by (auto simp: BufferViewList_of_cstring_def BufferViewList_of_view_def takeWhile_eq_all_conv)
  have len: "length ?iov = 1"
    by (simp add: BufferViewList_as_iovecs_def)
  have b: "iovecs_bytes ?iov = s"
    using as_iovecs_bytes [of "[s]"] sok by simp
  have one: "int_of_size (1 :: size_t) = 1"
    by (simp add: int_of_size_small)
  obtain r k where r: "os_writev K fd ?iov 1 (w_os w) = (r, k)" by fastforce
  then have k: "r = int (length s)" "pend k = (pend (w_os w))(peer fd := pend (w_os w) (peer fd) @ s)"
    using delivering_writev [OF assms(1) r, of s] assms(5) b len by simp_all
  have sz: "BufferViewList_size [s] \<noteq> 0" "sint (BufferViewList_size [s]) = int (length s)"
    using string_ok_concat [OF ok] assms(4) sint_size [OF ok] by (simp_all add: bvl.sz_0_iff)
  have u: "unat (of_nat (length s) :: size_t) = length s"
    using assms(5) by (simp add: unat_of_nat_size)
  then have nz: "(of_nat (length s) :: size_t) \<noteq> 0"
    using assms(4) by (metis length_0_conv unat_0)
  have rp: "BufferViewList_remove_prefix [s] (of_nat (length s)) = (Inr (), [])"
    using nz by (simp add: string_length_def word_gt_0)
  have i: "to_int (int (length s)) = int (length s)"
    using assms(5) by (intro to_int_id int_okI) simp_all
  have "write_once K f [s] w = (Inr (of_nat (length s), []), fd_world f (wrote c) k w)"
    using r k(1) sz rp i assms(2-4) len one
    by (simp add: write_once_def Let_def bindS_run syscall_run SystemCall_run seqS_run register_write_def wrote_def
        FileDescriptor_fd_num_def)
  then have "write_rounds K f True [s] 0 w = (Inr (of_nat (length s)), fd_world f (wrote c) k w)"
    by (simp add: write_rounds.simps [of K f True "[s]"] BufferViewList_size_def)
  with k(2) cs show ?thesis
    by (intro exI [of _ "of_nat (length s)"] exI [of _ k]) (simp add: FileDescriptor_write_cstring_def FileDescriptor_write_def)
qed

lemma read_delivered:
  assumes "delivering K pend peer" and "cell_at w f = Some c" and "fd = fdw_fd (cell_obj c)"
    and "pend (w_os w) fd = s" and "s \<noteq> []" and "length s \<le> 4096"
  shows "\<exists>k. FileDescriptor_read K f size_max w = (Inr s, fd_world f (did_read False c) k w) \<and>
    pend k = (pend (w_os w))(fd := [])"
proof -
  have sz: "min read_buffer_size size_max = 1048576"
    by (simp add: read_buffer_size_def size_max_def min_absorb1 word_order.extremum)
  obtain r data k where r: "os_read K fd 1048576 (w_os w) = ((r, data), k)"
    by (metis surj_pair)
  have d: "r = int (length s)" "data = s" "pend k = (pend (w_os w))(fd := [])"
    using delivering_read [OF assms(1) r] assms(4-6) by auto
  have "FileDescriptor_read K f size_max w = (Inr s, fd_world f (did_read False c) k w)"
    using FileDescriptor_read_exact [OF assms(2,3) sz [symmetric], of K s k] r d(1,2) assms(5,6) by simp
  with d(3) show ?thesis by blast
qed

lemma io_cells [simp]:
  "cell_refs (wrote c) = cell_refs c" "cell_refs (did_read b c) = cell_refs c"
  "fdw_fd (cell_obj (wrote c)) = fdw_fd (cell_obj c)" "fdw_fd (cell_obj (did_read b c)) = fdw_fd (cell_obj c)"
  "fdw_closed (cell_obj (wrote c)) = fdw_closed (cell_obj c)"
  "fdw_closed (cell_obj (did_read b c)) = fdw_closed (cell_obj c)"
  by (simp_all add: wrote_def did_read_def Let_def)

text \<open>Two ends of a connection talk: each gets what the other wrote.\<close>

lemma greetings:
  "''hi there'' \<noteq> []" "length ''hi there'' \<le> 4096" "CHR 0x00 \<notin> set ''hi there''"
  "''hi yourself'' \<noteq> []" "length ''hi yourself'' \<le> 4096" "CHR 0x00 \<notin> set ''hi yourself''"
  by simp_all

lemma conversation_run:
  assumes "delivering K pend peer" and "f \<noteq> g" and "a \<noteq> b" and "peer a = b" and "peer b = a"
    and "cell_at w f = Some c" "fdw_fd (cell_obj c) = a" and "cell_at w g = Some d" "fdw_fd (cell_obj d) = b"
    and "pend (w_os w) a = []" and "pend (w_os w) b = []"
  shows "\<exists>k. conversation K f g m w = m ''hi there'' ''hi yourself''
    (fd_world f (did_read False (wrote c)) k (fd_world g (wrote (did_read False d)) k w))"
proof -
  obtain n1 k1 where w1: "FileDescriptor_write_cstring K f ''hi there'' True w = (Inr n1, fd_world f (wrote c) k1 w)"
      "pend k1 = (pend (w_os w))(b := ''hi there'')"
    using write_delivered [OF assms(1,6) _ greetings(1-3), of a] assms(4,7,11) by auto
  let ?w1 = "fd_world f (wrote c) k1 w"
  have c1: "cell_at ?w1 g = Some d" "cell_at ?w1 f = Some (wrote c)" "fdw_fd (cell_obj (wrote c)) = a"
    using assms(2,6-8) by (simp_all add: cell_at_fd_world)
  obtain k2 where r1: "FileDescriptor_read K g size_max ?w1 = (Inr ''hi there'', fd_world g (did_read False d) k2 ?w1)"
      "pend k2 = (pend k1)(b := [])"
    using read_delivered [OF assms(1) c1(1) _ _ greetings(1,2), of b] assms(9) w1(2) by auto
  let ?w2 = "fd_world g (did_read False d) k2 ?w1"
  have c2: "cell_at ?w2 g = Some (did_read False d)" "cell_at ?w2 f = Some (wrote c)"
      "fdw_fd (cell_obj (did_read False d)) = b"
    using assms(2,9) c1 by (simp_all add: cell_at_fd_world)
  obtain n2 k3 where w2: "FileDescriptor_write_cstring K g ''hi yourself'' True ?w2 = (Inr n2, fd_world g (wrote (did_read False d)) k3 ?w2)"
      "pend k3 = (pend k2)(a := ''hi yourself'')"
    using write_delivered [OF assms(1) c2(1) _ greetings(4-6), of b] assms(3,5,10) c2(3) w1(2) r1(2) by auto
  let ?w3 = "fd_world g (wrote (did_read False d)) k3 ?w2"
  have c3: "cell_at ?w3 f = Some (wrote c)"
    by (subst cell_at_fd_world [OF c2(1)]) (use assms(2) c2(2) in simp)
  obtain k4 where r2: "FileDescriptor_read K f size_max ?w3 = (Inr ''hi yourself'', fd_world f (did_read False (wrote c)) k4 ?w3)"
    using read_delivered [OF assms(1) c3 _ _ greetings(4,5), of a] c1(3) w2(2) by auto
  have "fd_world f (did_read False (wrote c)) k4 ?w3 =
      fd_world f (did_read False (wrote c)) k4 (fd_world g (wrote (did_read False d)) k4 w)"
    using assms(2) by (simp add: fd_world_def list_update_swap)
  with w1(1) r1(1) w2(1) r2 show ?thesis
    by (intro exI [of _ k4]) (simp add: conversation_def seqS_run bindS_run)
qed

text \<open>A new socket of the right kind is the next cell of the heap.\<close>

definition with_cell :: "'k world \<Rightarrow> 'k \<Rightarrow> FDCell \<Rightarrow> 'k world" where
  "with_cell w k c = w\<lparr>w_os := k, w_heap := w_heap w @ [Some c]\<rparr>"

lemma cell_at_with_cell:
  "cell_at (with_cell w k c) g = (if g = length (w_heap w) then Some c else cell_at w g)"
  by (auto simp: with_cell_def cell_at_def nth_append)

lemma with_cell_simps [simp]:
  "length (w_heap (with_cell w k c)) = Suc (length (w_heap w))" "w_os (with_cell w k c) = k"
  "(with_cell w k c)\<lparr>w_os := k'\<rparr> = with_cell w k' c" "with_cell (w\<lparr>w_os := k'\<rparr>) k c = with_cell w k c"
  by (simp_all add: with_cell_def)

lemma cell_at_beyond: "length (w_heap w) \<le> g \<Longrightarrow> cell_at w g = None"
  by (simp add: cell_at_def)

lemma local_socket_new:
  assumes "0 \<le> fd"
    and "\<And>k. os_getsockopt K fd SOL_SOCKET SO_DOMAIN 4 k = ((0, AF_UNIX, 4), k)"
    and "\<And>k. os_getsockopt K fd SOL_SOCKET SO_TYPE 4 k = ((0, SOCK_STREAM, 4), k)"
  shows "bindS (FileDescriptor_new fd) (LocalStreamSocket_of_fd K) w =
    (Inr (length (w_heap w)), with_cell w (w_os w) (sock_cell fd))"
proof -
  have new: "FileDescriptor_new fd w = (Inr (length (w_heap w)), with_cell w (w_os w) (sock_cell fd))"
    using new_fd [OF assms(1), of w] by (simp add: with_cell_def sock_cell_def)
  have "LocalStreamSocket_of_fd K (length (w_heap w)) (with_cell w (w_os w) (sock_cell fd)) =
      (Inr (length (w_heap w)), with_cell w (w_os w) (sock_cell fd))"
    unfolding LocalStreamSocket_of_fd_def
    by (rule socket_of_fd_same_kind [where c = "sock_cell fd" and fd = fd]) (simp_all add: cell_at_with_cell assms(2,3))
  with new show ?thesis by (simp add: bindS_run)
qed

text \<open>The addresses of the examples are on the loopback interface.\<close>

definition loopback :: "uint16_t \<Rightarrow> string" where
  "loopback port = sockaddr_in_bytes (ipv4_sockaddr 0x7f000001 port)"

lemma loopback_address:
  assumes "os_getaddrinfo K ''127.0.0.1'' (to_string (uint port))
      (make_hints (AI_NUMERICHOST OR AI_NUMERICSERV) AF_INET) (w_os w) = ((0, [r]), w_os w)"
    and "ai_addr r = loopback port" and "ai_addrlen r = 16"
  shows "\<exists>a. Address_of_ip K ''127.0.0.1'' port w = (Inr a, w) \<and> addr_size a = 16 \<and> take 16 (addr_storage a) = loopback port"
proof -
  have quad: "dotted 0x7f000001 = ''127.0.0.1''"
    by code_simp
  obtain a where a: "Address_of_ip K ''127.0.0.1'' port w = (Inr a, w)" "addr_bytes a = loopback port" "addr_ok a"
    using Address_of_ip_run [of K "0x7f000001" port w r "[]" "w_os w"] assms quad by (auto simp: loopback_def)
  have "length (addr_bytes a) = 16"
    using a(2) by (simp add: loopback_def)
  then have "unat (addr_size a) = 16"
    using a(3) by (auto simp: addr_bytes_def addr_ok_def min_def split: if_splits)
  with a show ?thesis
    by (auto simp: addr_bytes_def word_unat_eq_iff)
qed

lemma inet_socket_new:
  assumes "os_socket K AF_INET type 0 (w_os w) = (fd, k)" and "0 \<le> fd" and "int_ok fd"
  shows "Socket_new K AF_INET type w = (Inr (length (w_heap w)), with_cell w k (sock_cell fd))"
  using assms by (simp add: Socket_new_def bindS_run syscall_ok new_fd sock_cell_def with_cell_def)

lemma shutdown_run:
  assumes "cell_at w f = Some c" and "os_shutdown K (fdw_fd (cell_obj c)) SHUT_RDWR (w_os w) = (0, k)"
  shows "Socket_shutdown K f SHUT_RDWR w = (Inr (), fd_world f (wrote (did_read False c)) k w)"
  using assms by (simp add: Socket_shutdown_def step_simps register_read_def register_write_def cell_at_fd_world
      did_read_def wrote_def Let_def)

lemma accept_run:
  assumes "cell_at w f = Some c" and "os_accept K (fdw_fd (cell_obj c)) (w_os w) = (n, k)" and "0 \<le> n" and "int_ok n"
    and "\<And>k. os_getsockopt K n SOL_SOCKET SO_DOMAIN 4 k = ((0, AF_INET, 4), k)"
    and "\<And>k. os_getsockopt K n SOL_SOCKET SO_TYPE 4 k = ((0, SOCK_STREAM, 4), k)"
  shows "TCPSocket_accept K f w =
    (Inr (length (w_heap w)), with_cell (fd_world f (did_read False c) k w) k (sock_cell n))"
proof -
  let ?w = "fd_world f (did_read False c) k w"
  have len: "length (w_heap ?w) = length (w_heap w)"
    by (simp add: fd_world_def)
  have new: "FileDescriptor_new n ?w = (Inr (length (w_heap w)), with_cell ?w k (sock_cell n))"
    using new_fd [OF assms(3), of ?w] by (simp add: with_cell_def sock_cell_def len)
  have kind: "TCPSocket_of_fd K (length (w_heap w)) (with_cell ?w k (sock_cell n)) =
      (Inr (length (w_heap w)), with_cell ?w k (sock_cell n))"
    unfolding TCPSocket_of_fd_def
    by (rule socket_of_fd_same_kind [where c = "sock_cell n" and fd = n])
      (simp_all add: cell_at_with_cell len assms(5,6))
  let ?v = "fd_world f (did_read False c) (w_os w) w"
  have rr: "register_read f w = (Inr (), ?v)" "cell_at ?v f = Some (did_read False c)"
    using assms(1) by (simp_all add: register_read_def did_read_def set_cell_def fd_world_def cell_at_fd_world Let_def)
      (simp add: cell_at_def split: if_splits)
  have "syscall K ''accept'' (os_accept K (fdw_fd (cell_obj c))) ?v = (Inr n, ?w)"
    using syscall_ok [of "os_accept K (fdw_fd (cell_obj c))" ?v n k K] assms(2-4) by simp
  with rr new kind show ?thesis
    by (simp add: TCPSocket_accept_def seqS_run bindS_run fd_num_run)
qed

text \<open>The end of the second example.\<close>

lemma farewell:
  assumes "cell_at w f = Some c" "cell_refs c = 1" and "cell_at w g = Some d" "cell_refs d = 1"
    and "cell_at w h = Some e" "cell_refs e = 1" and "f \<noteq> g" "f \<noteq> h" "g \<noteq> h"
    and "\<And>k. fst (os_close K (fdw_fd (cell_obj c)) k) = 0" and "\<And>k. fst (os_close K (fdw_fd (cell_obj d)) k) = 0"
    and "\<And>k. fst (os_shutdown K (fdw_fd (cell_obj e)) SHUT_RDWR k) = 0"
  shows "\<exists>w' c' d' e'. seqS (FileDescriptor_close K f) (seqS (FileDescriptor_close K g)
      (seqS (Socket_shutdown K h SHUT_RDWR) (check_data ''hi there'' ''hi yourself''))) w = (Inr (), w') \<and>
    cell_at w' f = Some c' \<and> cell_refs c' = 1 \<and> cell_at w' g = Some d' \<and> cell_refs d' = 1 \<and>
    cell_at w' h = Some e' \<and> cell_refs e' = 1 \<and> (\<forall>x. x \<notin> {f, g, h} \<longrightarrow> cell_at w' x = cell_at w x)"
proof -
  obtain k1 where k1: "os_close K (fdw_fd (cell_obj c)) (w_os w) = (0, k1)"
    using assms(10) by (metis prod.collapse)
  note cl1 = close_run [OF assms(1) k1]
  let ?w1 = "fd_world f (shut c) k1 w"
  have d1: "cell_at ?w1 g = Some d"
    using assms(1,3,7) by (simp add: cell_at_fd_world)
  obtain k2 where k2: "os_close K (fdw_fd (cell_obj d)) (w_os ?w1) = (0, k2)"
    using assms(11) by (metis prod.collapse)
  note cl2 = close_run [OF d1 k2]
  let ?w2 = "fd_world g (shut d) k2 ?w1"
  have e2: "cell_at ?w2 h = Some e"
    using assms(1,5,8,9) d1 by (simp add: cell_at_fd_world)
  obtain k3 where k3: "os_shutdown K (fdw_fd (cell_obj e)) 2 (w_os ?w2) = (0, k3)"
    using assms(12) by (metis prod.collapse)
  let ?e = "wrote (did_read False e)" and ?w3 = "fd_world h (wrote (did_read False e)) k3 ?w2"
  have sh: "Socket_shutdown K h SHUT_RDWR ?w2 = (Inr (), ?w3)"
    using shutdown_run [OF e2 k3] .
  have "cell_refs (shut x) = cell_refs x" for x by (simp add: shut_def)
  moreover have "cell_at ?w3 x = (if x = h then Some ?e else if x = g then Some (shut d)
      else if x = f then Some (shut c) else cell_at w x)" for x
    by (subst cell_at_fd_world [OF e2], subst cell_at_fd_world [OF d1], subst cell_at_fd_world [OF assms(1)]) auto
  ultimately show ?thesis
    using cl1 cl2 sh assms(2,4,6-9)
    by (intro exI [of _ ?w3] exI [of _ "shut c"] exI [of _ "shut d"] exI [of _ ?e])
      (auto simp: seqS_run FileDescriptor_close_def check_data_def)
qed

text \<open>A network of datagrams that delivers: \<open>inbox k fd\<close> is what waits on \<open>fd\<close>, source address and bytes, and
  \<open>route k fd name\<close> says where what \<open>fd\<close> sends to \<open>name\<close> (\<open>None\<close>: to its peer) arrives, and from which address.\<close>

definition datagrams :: "('k, 'z) kernel_scheme \<Rightarrow> ('k \<Rightarrow> int \<Rightarrow> (string \<times> string) list) \<Rightarrow>
    ('k \<Rightarrow> int \<Rightarrow> string option \<Rightarrow> int \<times> string) \<Rightarrow> bool" where
  "datagrams K inbox route \<longleftrightarrow>
     (\<forall>fd m k. let b = iovecs_bytes (msg_iov m); (t, src) = route k fd (map_option (take (unat (msg_namelen m))) (msg_name m)) in
        length b \<le> 512 \<longrightarrow>
        (case os_sendmsg K fd m 0 k of (r, k') \<Rightarrow> r = int (length b) \<and> inbox k' = (inbox k)(t := inbox k t @ [(src, b)]))) \<and>
     (\<forall>fd n k. case inbox k fd of [] \<Rightarrow> True | (src, p) # rest \<Rightarrow>
        length p \<le> 512 \<and> length src \<le> 128 \<longrightarrow>
        (case os_recvfrom K fd n MSG_TRUNC 128 k of (answer, k') \<Rightarrow>
           answer = (int (length p), take (unat n) p, src, of_nat (length src)) \<and> inbox k' = (inbox k)(fd := rest)))"

lemma datagrams_send:
  assumes "datagrams K inbox route" and "iovecs_bytes (msg_iov m) = b" and "length b \<le> 512"
    and "route k fd (map_option (take (unat (msg_namelen m))) (msg_name m)) = (t, src)"
  shows "\<exists>k'. os_sendmsg K fd m 0 k = (int (length b), k') \<and> inbox k' = (inbox k)(t := inbox k t @ [(src, b)])"
  using conjunct1 [OF assms(1) [unfolded datagrams_def], THEN spec, of fd, THEN spec, of m, THEN spec, of k] assms(2-4)
  by (auto split: prod.splits)

lemma datagrams_recv:
  assumes "datagrams K inbox route" and "inbox k fd = (src, p) # rest" and "length p \<le> 512" and "length src \<le> 128"
  shows "\<exists>k'. os_recvfrom K fd n MSG_TRUNC 128 k = ((int (length p), take (unat n) p, src, of_nat (length src)), k') \<and>
    inbox k' = (inbox k)(fd := rest)"
  using conjunct2 [OF assms(1) [unfolded datagrams_def], THEN spec, of fd, THEN spec, of n, THEN spec, of k] assms(2-4)
  by (auto split: prod.splits)

lemma sendmsg_delivered:
  assumes "datagrams K inbox route" and "route (w_os w) fd (map_option (take (unat len)) name) = (t, src)"
    and "length s \<le> 512" and "CHR 0x00 \<notin> set s"
  shows "\<exists>k. sendmsg_helper K fd name len (BufferViewList_of_cstring s) w = (Inr (), w\<lparr>w_os := k\<rparr>) \<and>
    inbox k = (inbox (w_os w))(t := inbox (w_os w) t @ [(src, s)])"
proof -
  let ?iov = "BufferViewList_as_iovecs [s]"
  let ?m = "\<lparr>msg_name = name, msg_namelen = len, msg_iov = ?iov, msg_iovlen = of_nat (length ?iov)\<rparr>"
  have sok: "string_ok s"
    using assms(3) by (simp add: string_ok_def string_max_size_def)
  have cs: "BufferViewList_of_cstring s = [s]"
    using assms(4) by (auto simp: BufferViewList_of_cstring_def BufferViewList_of_view_def takeWhile_eq_all_conv)
  have "iovecs_bytes (msg_iov ?m) = s"
    using as_iovecs_bytes [of "[s]"] sok by simp
  then obtain k where k: "os_sendmsg K fd ?m 0 (w_os w) = (int (length s), k)"
      "inbox k = (inbox (w_os w))(t := inbox (w_os w) t @ [(src, s)])"
    using datagrams_send [OF assms(1), of ?m s] assms(2,3) by fastforce
  have "int_ok (int (length s))"
    using assms(3) by (intro int_okI) simp_all
  moreover have "BufferViewList_size [s] = of_nat (length s)"
    by (simp add: BufferViewList_size_def string_length_def)
  ultimately have "sendmsg_helper K fd name len [s] w = (Inr (), w\<lparr>w_os := k\<rparr>)"
    using k(1) by (simp add: sendmsg_helper_def Let_def bindS_run syscall_ok)
  with k(2) cs show ?thesis by auto
qed

lemma register_write_run: "cell_at w f = Some c \<Longrightarrow> register_write f (w\<lparr>w_os := k\<rparr>) = (Inr (), fd_world f (wrote c) k w)"
  by (simp add: register_write_def wrote_def)

lemma recv_delivered:
  assumes "datagrams K inbox route" and "cell_at w f = Some c" and "fd = fdw_fd (cell_obj c)"
    and "inbox (w_os w) fd = (src, p) # rest" and "length p \<le> 512" and "length src \<le> 128"
  shows "\<exists>a k. UDPSocket_recv K f default_mtu w =
      (Inr \<lparr>dg_source_address = a, dg_payload = p\<rparr>, fd_world f (did_read False c) k w) \<and> addr_bytes a = src \<and>
    inbox k = (inbox (w_os w))(fd := rest)"
proof -
  obtain k where k: "os_recvfrom K fd 65536 MSG_TRUNC 128 (w_os w) =
      ((int (length p), take (unat (65536 :: size_t)) p, src, of_nat (length src)), k)" "inbox k = (inbox (w_os w))(fd := rest)"
    using datagrams_recv [OF assms(1,4-6)] by blast
  have "unat (of_nat (length src) :: socklen_t) = length src"
    using assms(6) by (simp add: unat_of_nat take_bit_nat_eq_self)
  then show ?thesis
    using recv_whole [OF assms(2,3) _ k(1)] k(2) assms(5,6) by (auto simp: default_mtu_def)
qed

text \<open>The two datagrams of the first example, with the sockets in place.\<close>

lemma datagram_exchange:
  assumes "datagrams K inbox route" and "f \<noteq> g" and "a \<noteq> b"
    and "cell_at w f = Some c" "fdw_fd (cell_obj c) = a" and "cell_at w g = Some d" "fdw_fd (cell_obj d) = b"
    and "inbox (w_os w) = (\<lambda>_. [])" and "length src \<le> 128" and "length src2 \<le> 128"
    and "Address_of_ip K ''127.0.0.1'' port w = (Inr x, w)" and "route (w_os w) b (Some (addr_bytes x)) = (a, src)"
    and "\<And>st len k. take (unat len) st = src \<Longrightarrow>
      (case os_connect K a st len k of (r, k') \<Rightarrow> r = 0 \<and> inbox k' = inbox k \<and> route k' a None = (b, src2))"
  shows "\<exists>k. example_1_sock2 K port f g w =
    (Inr (), fd_world g (did_read False (wrote d)) k (fd_world f (wrote (did_read False c)) k w))"
proof -
  obtain k1 where k1: "sendmsg_helper K b (Some (addr_storage x)) (addr_size x) (BufferViewList_of_cstring ''hi there'') w =
      (Inr (), w\<lparr>w_os := k1\<rparr>)" "inbox k1 = (\<lambda>_. [])(a := [(src, ''hi there'')])"
    using sendmsg_delivered [OF assms(1), of w b "addr_size x" "Some (addr_storage x)" a src "''hi there''"] assms(8,12)
    by (auto simp: addr_bytes_def)
  let ?w1 = "fd_world g (wrote d) k1 w"
  have send: "UDPSocket_sendto K g x (BufferViewList_of_cstring ''hi there'') w = (Inr (), ?w1)"
    using assms(6,7) k1(1) register_write_run by (simp add: UDPSocket_sendto_def step_simps)
  have c1: "cell_at ?w1 f = Some c" "cell_at ?w1 g = Some (wrote d)"
    using assms(2,4,6) by (simp_all add: cell_at_fd_world)
  obtain y k2 where k2: "UDPSocket_recv K f default_mtu ?w1 =
      (Inr \<lparr>dg_source_address = y, dg_payload = ''hi there''\<rparr>, fd_world f (did_read False c) k2 ?w1)"
      "addr_bytes y = src" "inbox k2 = (\<lambda>_. [])"
    using recv_delivered [OF assms(1) c1(1), of a src "''hi there''" "[]"] assms(5,9) k1(2)
    by (auto simp: fun_upd_idem)
  let ?w2 = "fd_world f (did_read False c) k2 ?w1"
  obtain k3 where k3: "os_connect K a (addr_storage y) (addr_size y) k2 = (0, k3)" "inbox k3 = (\<lambda>_. [])"
      "route k3 a None = (b, src2)"
    using assms(13) [of "addr_size y" "addr_storage y" k2] k2(2,3) by (auto simp: addr_bytes_def split: prod.splits)
  have c2: "cell_at ?w2 f = Some (did_read False c)" "fdw_fd (cell_obj (did_read False c)) = a" "w_os ?w2 = k2"
    using c1(1) assms(5) by (simp_all add: cell_at_fd_world)
  have con: "Socket_connect K f y ?w2 = (Inr (), ?w2\<lparr>w_os := k3\<rparr>)"
    using k3(1) c2 unfolding Socket_connect_def by (simp add: step_simps del: fd_world_simps(6))
  let ?w3 = "fd_world f (did_read False c) k3 ?w1"
  have c3: "cell_at ?w3 f = Some (did_read False c)" "cell_at ?w3 g = Some (wrote d)"
    using c1 assms(2) by (simp_all add: cell_at_fd_world)
  obtain k4 where k4: "sendmsg_helper K a None 0 (BufferViewList_of_cstring ''hi yourself'') ?w3 = (Inr (), ?w3\<lparr>w_os := k4\<rparr>)"
      "inbox k4 = (\<lambda>_. [])(b := [(src2, ''hi yourself'')])"
    using sendmsg_delivered [OF assms(1), of ?w3 a 0 None b src2 "''hi yourself''"] k3(2,3) by auto
  let ?w4 = "fd_world f (wrote (did_read False c)) k4 ?w3"
  have reply: "UDPSocket_send K f (BufferViewList_of_cstring ''hi yourself'') ?w3 = (Inr (), ?w4)"
    using c2(2) c3(1) k4(1) register_write_run [OF c3(1)]
    by (simp add: UDPSocket_send_def step_simps del: fd_world_simps)
  have c4: "cell_at ?w4 g = Some (wrote d)"
    by (subst cell_at_fd_world [OF c3(1)]) (use assms(2) c3(2) in simp)
  obtain z k5 where k5: "UDPSocket_recv K g default_mtu ?w4 =
      (Inr \<lparr>dg_source_address = z, dg_payload = ''hi yourself''\<rparr>, fd_world g (did_read False (wrote d)) k5 ?w4)"
    using recv_delivered [OF assms(1) c4, of b src2 "''hi yourself''" "[]"] assms(7,10) k4(2) by auto
  have "fd_world g (did_read False (wrote d)) k5 ?w4 =
      fd_world g (did_read False (wrote d)) k5 (fd_world f (wrote (did_read False c)) k5 w)"
    using assms(2) by (simp add: fd_world_def list_update_swap [of g f])
  then show ?thesis
    using assms(11) send k2(1) con reply k5
    by (intro exI [of _ k5]) (simp add: example_1_sock2_def seqS_run bindS_run check_data_def)
qed

text \<open>The scopes of the second example, entered one after the other.\<close>

lemma example_2_sock3_run:
  assumes "delivering K pend peer" and "peer b = c" and "peer c = b" and "b \<noteq> c" and "pend (w_os w) b = []" and "pend (w_os w) c = []"
    and "cell_at w f = Some x" "cell_refs x = 1" and "cell_at w g = Some (sock_cell b)" and "cell_at w h = Some (sock_cell c)"
    and "f \<noteq> g" "f \<noteq> h" "g \<noteq> h" and "\<And>fd k. fst (os_close K fd k) = 0" and "\<And>k. fst (os_shutdown K c SHUT_RDWR k) = 0"
  shows "\<exists>w'. example_2_sock3 K f g h w = (Inr (), w') \<and>
    (\<forall>y \<in> {f, g, h}. \<exists>z. cell_at w' y = Some z \<and> cell_refs z = 1) \<and> (\<forall>y. y \<notin> {f, g, h} \<longrightarrow> cell_at w' y = cell_at w y)"
proof -
  let ?cb = "wrote (did_read False (sock_cell b))" and ?cc = "did_read False (wrote (sock_cell c))"
  let ?m = "\<lambda>recvd recvd2. seqS (FileDescriptor_close K f) (seqS (FileDescriptor_close K g)
    (seqS (Socket_shutdown K h SHUT_RDWR) (check_data recvd recvd2)))"
  let ?u = "\<lambda>k. fd_world h ?cc k (fd_world g ?cb k w)"
  obtain k where talk: "example_2_sock3 K f g h w = ?m ''hi there'' ''hi yourself'' (?u k)"
    using conversation_run [OF assms(1) _ assms(4) [symmetric] assms(3,2,10) _ assms(9), of ?m] assms(5,6,13)
    by (auto simp: example_2_sock3_def)
  have u: "cell_at (?u k) y = (if y = h then Some ?cc else if y = g then Some ?cb else cell_at w y)" for y
    using assms(9,10,13) by (simp add: cell_at_fd_world)
  show ?thesis
    using farewell [of "?u k" f x g ?cb h ?cc K] u assms(7,8,11-15) unfolding talk by fastforce
qed

lemma example_2_sock2_setup:
  assumes "\<And>k. os_getaddrinfo K ''127.0.0.1'' (to_string (uint port))
      (make_hints (AI_NUMERICHOST OR AI_NUMERICSERV) AF_INET) k = ((0, [r]), k)"
    and "ai_addr r = loopback port" and "ai_addrlen r = 16"
    and "cell_at w f = Some x" and "fdw_fd (cell_obj x) = a" and "cell_at w g = Some (sock_cell b)"
    and "\<And>st. take 16 st = loopback port \<Longrightarrow> os_connect K b st 16 (w_os w) = (0, k5)"
    and "os_accept K a k5 = (c, k6)" and "0 \<le> c" and "int_ok c"
    and "\<And>k. os_getsockopt K c SOL_SOCKET SO_DOMAIN 4 k = ((0, AF_INET, 4), k)"
    and "\<And>k. os_getsockopt K c SOL_SOCKET SO_TYPE 4 k = ((0, SOCK_STREAM, 4), k)"
  shows "example_2_sock2 K port f g w = scoped K (length (w_heap w)) (example_2_sock3 K f g (length (w_heap w)))
    (with_cell (fd_world f (did_read False x) k6 w) k6 (sock_cell c))"
proof -
  obtain y where y: "Address_of_ip K ''127.0.0.1'' port w = (Inr y, w)" "addr_size y = 16"
      "take 16 (addr_storage y) = loopback port"
    using loopback_address [OF assms(1-3)] by blast
  have con: "Socket_connect K g y w = (Inr (), w\<lparr>w_os := k5\<rparr>)"
    using assms(6) assms(7) [OF y(3)] y(2) by (simp add: Socket_connect_def step_simps)
  have "TCPSocket_accept K f (w\<lparr>w_os := k5\<rparr>) =
      (Inr (length (w_heap w)), with_cell (fd_world f (did_read False x) k6 (w\<lparr>w_os := k5\<rparr>)) k6 (sock_cell c))"
    using accept_run [of "w\<lparr>w_os := k5\<rparr>" f x K c k6] assms(4,5,8-12) by simp
  then have acc: "TCPSocket_accept K f (w\<lparr>w_os := k5\<rparr>) =
      (Inr (length (w_heap w)), with_cell (fd_world f (did_read False x) k6 w) k6 (sock_cell c))"
    by (simp add: fd_world_def)
  show ?thesis
    using y(1) con acc by (simp add: example_2_sock2_def bindS_run seqS_run)
qed

lemma example_2_sock1_setup:
  assumes "\<And>k. os_getaddrinfo K ''127.0.0.1'' (to_string (uint port))
      (make_hints (AI_NUMERICHOST OR AI_NUMERICSERV) AF_INET) k = ((0, [r]), k)"
    and "ai_addr r = loopback port" and "ai_addrlen r = 16"
    and "\<And>st. take 16 st = loopback port \<Longrightarrow> os_bind K a st 16 k1 = (0, k2)" and "os_listen K a 1 k2 = (0, k3)"
    and "os_socket K AF_INET SOCK_STREAM 0 k3 = (b, k4)" and "0 \<le> b" and "int_ok b" and "n = length (w_heap w)"
  shows "example_2_sock1 K port n (with_cell w k1 (sock_cell a)) =
    scoped K (Suc n) (example_2_sock2 K port n (Suc n)) (with_cell (with_cell w k3 (sock_cell a)) k4 (sock_cell b))"
proof -
  obtain y where y: "Address_of_ip K ''127.0.0.1'' port (with_cell w k1 (sock_cell a)) = (Inr y, with_cell w k1 (sock_cell a))"
      "addr_size y = 16" "take 16 (addr_storage y) = loopback port"
    using loopback_address [OF assms(1-3)] by blast
  have cell: "cell_at (with_cell w k (sock_cell a)) n = Some (sock_cell a)" for k
    by (simp add: cell_at_with_cell assms(9))
  have "Socket_bind K n y (with_cell w k1 (sock_cell a)) = (Inr (), with_cell w k2 (sock_cell a))"
    using assms(4) [OF y(3)] y(2) cell by (simp add: Socket_bind_def step_simps)
  moreover have "TCPSocket_listen K n 1 (with_cell w k2 (sock_cell a)) = (Inr (), with_cell w k3 (sock_cell a))"
    using assms(5) cell by (simp add: TCPSocket_listen_def step_simps)
  moreover have "TCPSocket_new K (with_cell w k3 (sock_cell a)) =
      (Inr (Suc n), with_cell (with_cell w k3 (sock_cell a)) k4 (sock_cell b))"
    using inet_socket_new [of K SOCK_STREAM "with_cell w k3 (sock_cell a)"] assms(6-9) by (simp add: TCPSocket_new_def)
  ultimately show ?thesis
    using y(1) by (simp add: example_2_sock1_def bindS_run seqS_run)
qed

text \<open>A kernel with the two calls only these programs make.\<close>

definition test_kernel_of :: "'k kernel \<Rightarrow> ('k \<Rightarrow> uint32_t \<times> 'k) \<Rightarrow>
    (int \<Rightarrow> int \<Rightarrow> int \<Rightarrow> 'k \<Rightarrow> (int \<times> int \<times> int) \<times> 'k) \<Rightarrow> 'k test_kernel" where
  "test_kernel_of K rd sp =
     entropy_kernel.extend (kernel.extend K (entropy_kernel.fields rd)) (test_kernel.fields sp)"

section \<open>Safe with every kernel\<close>

text \<open>A local variable whose constructor makes an owner, and a rest of the scope that keeps the owners: the scope as a
  whole keeps them.\<close>

lemma scoped_safe:
  assumes "makes_owner m w" and "\<And>f w'. hrefs w' = (hrefs w)(f \<mapsto> 1) \<Longrightarrow> safe_wrt refs_kept (g f) w'"
  shows "safe_wrt refs_kept (bindS m (\<lambda>f. scoped K f (g f))) w"
proof (cases "m w")
  case (Pair r w1)
  show ?thesis
  proof (cases r)
    case (Inl e)
    with Pair assms(1) show ?thesis
      by (simp add: makes_owner_def safe_wrt_def bindS_run defined_def)
  next
    case (Inr f)
    with Pair assms(1) have w1: "hrefs w f = None" "hrefs w1 = (hrefs w)(f \<mapsto> 1)"
      by (simp_all add: makes_owner_def)
    obtain r2 w2 where r2: "g f w1 = (r2, w2)" by fastforce
    have "defined r2" "hrefs w2 = (hrefs w)(f \<mapsto> 1)"
      using assms(2) [OF w1(2)] r2 w1(2) by (simp_all add: safe_wrt_def refs_kept_def)
    with scope_exit_refs [OF w1(1), of w2 K r2] Pair Inr r2 show ?thesis
      by (auto simp: safe_wrt_def bindS_run scoped_def)
  qed
qed

lemma exit_code_defined: "defined r \<Longrightarrow> exit_code r \<noteq> Undefined_behaviour"
  by (cases r rule: exit_code.cases) simp_all

lemma check_data_safe [safe_intros]: "safe_wrt refs_kept (check_data recvd recvd2) w"
  unfolding check_data_def by (intro safe_intros) simp

lemma conversation_safe:
  assumes "hrefs w f \<noteq> None" and "hrefs w g \<noteq> None"
    and "\<And>recvd recvd2 w'. refs_kept w w' \<Longrightarrow> safe_wrt refs_kept (m recvd recvd2) w'"
  shows "safe_wrt refs_kept (conversation K f g m) w"
  unfolding conversation_def FileDescriptor_write_cstring_def FileDescriptor_read_def using assms
  by (intro safe_intros fd_method_safe) (simp_all add: refs_kept_def)

lemma example_2_safe:
  assumes "resolver_ok K" and "getsockopt_ok K"
  shows "safe_wrt refs_kept (socket_example_2 K) w"
  unfolding socket_example_2_def example_2_sock1_def example_2_sock2_def example_2_sock3_def TCPSocket_new_def
    Address_of_ip_def socket_methods Let_def
  using assms
  by (intro safe_intros scoped_safe conversation_safe constructors_make_owner fd_method_safe; simp add: refs_kept_def)

lemma ip_port_safe [safe_intros]: "safe_wrt refs_kept (Address_ip_port K a) w"
  unfolding Address_ip_port_def by (intro safe_intros) (auto simp: stoi_def Let_def split: prod.splits)

lemma address_dt_safe:
  assumes "resolver_ok K"
  shows "safe_wrt refs_kept (address_dt_body K) w"
  unfolding address_dt_body_def address_example_1_def address_example_2_def address_example_3_def
    Address_of_host_def Address_of_ip_def Address_port_def
  using assms by (intro safe_intros; simp add: Address_ipv4_numeric_def Let_def)

section \<open>Properties\<close>

text \<open>Local sockets carry a conversation: when \<open>socketpair\<close> gives two connected ends, the example program gets on each end what was
  written on the other, does not throw, and leaves no descriptor behind.\<close>

theorem socket_example_3_passes:
  assumes "os_socketpair K AF_UNIX SOCK_STREAM 0 (w_os w) = ((0, a, b), k)" and "0 \<le> a" and "0 \<le> b" and "a \<noteq> b"
    and "\<And>fd k. fd = a \<or> fd = b \<Longrightarrow> os_getsockopt K fd SOL_SOCKET SO_DOMAIN 4 k = ((0, AF_UNIX, 4), k)"
    and "\<And>fd k. fd = a \<or> fd = b \<Longrightarrow> os_getsockopt K fd SOL_SOCKET SO_TYPE 4 k = ((0, SOCK_STREAM, 4), k)"
    and "delivering K pend peer" and "peer a = b" and "peer b = a" and "pend k a = []" and "pend k b = []"
  shows "\<exists>w'. socket_example_3 K w = (Inr (), w') \<and> cell_at w' = cell_at w"
proof -
  let ?f = "length (w_heap w)" and ?c = "sock_cell a" and ?d = "sock_cell b"
  let ?w1 = "with_cell w k ?c"
  let ?w2 = "with_cell ?w1 k ?d"
  have s1: "bindS (FileDescriptor_new a) (LocalStreamSocket_of_fd K) (w\<lparr>w_os := k\<rparr>) = (Inr ?f, ?w1)"
    using local_socket_new [of a K "w\<lparr>w_os := k\<rparr>"] assms(2,5,6) by simp
  have s2: "bindS (FileDescriptor_new b) (LocalStreamSocket_of_fd K) ?w1 = (Inr (Suc ?f), ?w2)"
    using local_socket_new [of b K ?w1] assms(3,5,6) by simp
  have cells: "cell_at ?w2 ?f = Some ?c" "cell_at ?w2 (Suc ?f) = Some ?d"
    by (simp_all add: cell_at_with_cell)
  obtain k' where talk: "conversation K ?f (Suc ?f) check_data ?w2 = (Inr (), fd_world ?f (did_read False (wrote ?c)) k'
      (fd_world (Suc ?f) (wrote (did_read False ?d)) k' ?w2))" (is "_ = (_, ?w3)")
    using conversation_run [OF assms(7) _ assms(4,8,9) cells(1) _ cells(2), of check_data] assms(10,11)
    by (auto simp: check_data_def)
  have c3: "cell_at ?w3 g = (if g = ?f then Some (did_read False (wrote ?c))
      else if g = Suc ?f then Some (wrote (did_read False ?d)) else cell_at w g)" for g
    using cells by (simp add: cell_at_fd_world cell_at_with_cell)
  obtain w4 where w4: "scoped K (Suc ?f) (conversation K ?f (Suc ?f) check_data) ?w2 = (Inr (), w4)"
      "cell_at w4 (Suc ?f) = None" "\<forall>g. g \<noteq> Suc ?f \<longrightarrow> cell_at w4 g = cell_at ?w3 g"
    using scoped_run [of "conversation K ?f (Suc ?f) check_data" ?w2 _ ?w3 "Suc ?f" _ K] talk c3 by fastforce
  let ?inner = "bindS (bindS (FileDescriptor_new b) (LocalStreamSocket_of_fd K)) (\<lambda>pipe2.
     scoped K pipe2 (conversation K ?f pipe2 check_data))"
  have inner: "?inner ?w1 = (Inr (), w4)"
    using s2 w4(1) by (simp add: bindS_run [of "bindS (FileDescriptor_new b) _"])
  obtain w5 where w5: "scoped K ?f ?inner ?w1 = (Inr (), w5)" "cell_at w5 ?f = None"
      "\<forall>g. g \<noteq> ?f \<longrightarrow> cell_at w5 g = cell_at w4 g"
    using scoped_run [of ?inner ?w1 _ w4 ?f "did_read False (wrote ?c)" K] inner w4(3) c3 by auto
  have "socket_example_3 K w = (Inr (), w5)"
    using assms(1) s1 w5(1)
    by (simp add: socket_example_3_def bindS_run [of "osS _"] bindS_run [of "bindS (FileDescriptor_new a) _"] seqS_run
        SystemCall_run)
  moreover have "cell_at w5 g = cell_at w g" for g
    using w5(2,3) w4(2,3) c3 cell_at_beyond [of w g] by (cases "g = ?f"; cases "g = Suc ?f") simp_all
  ultimately show ?thesis by (intro exI [of _ w5]) (simp add: fun_eq_iff)
qed

text \<open>UDP sockets exchange datagrams: when the kernel binds and connects and the network delivers, the first example receives the
  datagram sent to the bound address, answers the address it came from, and the answer arrives; no
  exception is thrown and no descriptor is left behind.\<close>

theorem socket_example_1_passes:
  assumes "os_random_device K (w_os w) = (rd, k0)" and "port = portnum rd"
    and "os_socket K AF_INET SOCK_DGRAM 0 k0 = (a, k1)" and "0 \<le> a" and "int_ok a"
    and "\<And>k. os_getaddrinfo K ''127.0.0.1'' (to_string (uint port))
      (make_hints (AI_NUMERICHOST OR AI_NUMERICSERV) AF_INET) k = ((0, [r]), k)"
    and "ai_addr r = loopback port" and "ai_addrlen r = 16"
    and "\<And>st. take 16 st = loopback port \<Longrightarrow> os_bind K a st 16 k1 = (0, k2)"
    and "os_socket K AF_INET SOCK_DGRAM 0 k2 = (b, k3)" and "0 \<le> b" and "int_ok b" and "a \<noteq> b"
    and "datagrams K inbox route" and "inbox k3 = (\<lambda>_. [])" and "route k3 b (Some (loopback port)) = (a, src)"
    and "length src \<le> 128" and "length src2 \<le> 128"
    and "\<And>st len k. take (unat len) st = src \<Longrightarrow>
      (case os_connect K a st len k of (r, k') \<Rightarrow> r = 0 \<and> inbox k' = inbox k \<and> route k' a None = (b, src2))"
  shows "\<exists>w'. socket_example_1 K w = (Inr (), w') \<and> cell_at w' = cell_at w"
proof -
  let ?n = "length (w_heap w)"
  let ?w1 = "with_cell w k1 (sock_cell a)" and ?w2 = "with_cell (with_cell w k2 (sock_cell a)) k3 (sock_cell b)"
  note addr = loopback_address [OF assms(6,7,8)]
  have cells2: "cell_at ?w2 g = (if g = ?n then Some (sock_cell a) else if g = Suc ?n then Some (sock_cell b) else cell_at w g)"
    for g by (simp add: cell_at_with_cell)
  obtain x where x: "Address_of_ip K ''127.0.0.1'' port ?w2 = (Inr x, ?w2)" "addr_bytes x = loopback port"
    using addr [of ?w2] by (auto simp: addr_bytes_def)
  obtain k where talk: "example_1_sock2 K port ?n (Suc ?n) ?w2 =
      (Inr (), fd_world (Suc ?n) (did_read False (wrote (sock_cell b))) k
        (fd_world ?n (wrote (did_read False (sock_cell a))) k ?w2))" (is "_ = (_, ?w3)")
    using datagram_exchange [OF assms(14) _ assms(13), of ?n "Suc ?n" ?w2 "sock_cell a" "sock_cell b" src src2 port x]
      cells2 x assms(15-19) by auto
  have "cell_at ?w2 ?n = Some (sock_cell a)" "cell_at ?w2 (Suc ?n) = Some (sock_cell b)"
    using cells2 by simp_all
  then have cells3: "cell_at ?w3 g = (if g = ?n then Some (wrote (did_read False (sock_cell a)))
      else if g = Suc ?n then Some (did_read False (wrote (sock_cell b))) else cell_at w g)" for g
    using cells2 by (simp add: cell_at_fd_world)
  obtain w4 where w4: "scoped K (Suc ?n) (example_1_sock2 K port ?n (Suc ?n)) ?w2 = (Inr (), w4)"
      "cell_at w4 (Suc ?n) = None" "\<forall>g. g \<noteq> Suc ?n \<longrightarrow> cell_at w4 g = cell_at ?w3 g"
    using scoped_run [of "example_1_sock2 K port ?n (Suc ?n)" ?w2 _ ?w3 "Suc ?n" _ K] talk cells3 by fastforce
  have "example_1_sock1 K port ?n ?w1 = (Inr (), w4)"
  proof -
    obtain y where y: "Address_of_ip K ''127.0.0.1'' port ?w1 = (Inr y, ?w1)" "addr_size y = 16"
        "take 16 (addr_storage y) = loopback port"
      using addr by blast
    have "cell_at ?w1 ?n = Some (sock_cell a)"
      by (simp add: cell_at_with_cell)
    then have "Socket_bind K ?n y ?w1 = (Inr (), with_cell w k2 (sock_cell a))"
      using assms(9) [OF y(3)] y(2) by (simp add: Socket_bind_def step_simps)
    moreover have "UDPSocket_new K (with_cell w k2 (sock_cell a)) = (Inr (Suc ?n), ?w2)"
      using inet_socket_new [of K SOCK_DGRAM "with_cell w k2 (sock_cell a)"] assms(10-12) by (simp add: UDPSocket_new_def)
    ultimately show ?thesis
      using y(1) w4(1) by (simp add: example_1_sock1_def bindS_run seqS_run)
  qed
  then obtain w5 where w5: "scoped K ?n (example_1_sock1 K port ?n) ?w1 = (Inr (), w5)"
      "cell_at w5 ?n = None" "\<forall>g. g \<noteq> ?n \<longrightarrow> cell_at w5 g = cell_at w4 g"
    using scoped_run [of "example_1_sock1 K port ?n" ?w1 _ w4 ?n _ K] w4(3) cells3 by fastforce
  have "UDPSocket_new K (w\<lparr>w_os := k0\<rparr>) = (Inr ?n, ?w1)"
    using inet_socket_new [of K SOCK_DGRAM "w\<lparr>w_os := k0\<rparr>"] assms(3-5) by (simp add: UDPSocket_new_def)
  then have "socket_example_1 K w = (Inr (), w5)"
    using assms(1,2) w5(1) by (simp add: socket_example_1_def bindS_run)
  moreover have "cell_at w5 g = cell_at w g" for g
    using w5(2,3) w4(2,3) cells3 cell_at_beyond [of w g] by (cases "g = ?n"; cases "g = Suc ?n") simp_all
  ultimately show ?thesis by (intro exI [of _ w5]) (simp add: fun_eq_iff)
qed

text \<open>A kernel with two sockets, 3 and 4, in which what one sends arrives at the other.\<close>

record udp_net =
  udp_inbox :: "int \<Rightarrow> (string \<times> string) list"
  udp_next :: int

definition udp_route :: "udp_net \<Rightarrow> int \<Rightarrow> string option \<Rightarrow> int \<times> string" where
  "udp_route k fd name = (7 - fd, loopback (if fd = 3 then 1032 else 2000))"

definition udp_kernel :: "udp_net test_kernel" where
  "udp_kernel = (test_kernel_of failing_kernel (\<lambda>k. (7, k)) (\<lambda>d t p k. ((-1, 0, 0), k)))\<lparr>
     os_socket := (\<lambda>d t p k. (udp_next k, k\<lparr>udp_next := udp_next k + 1\<rparr>)),
     os_getaddrinfo := (\<lambda>node service hints k. ((0, [(make_hints 0 AF_INET)\<lparr>ai_addrlen := 16, ai_addr := loopback 1032\<rparr>]), k)),
     os_bind := (\<lambda>fd a len k. (0, k)), os_connect := (\<lambda>fd a len k. (0, k)),
     os_sendmsg := (\<lambda>fd m flags k. let b = iovecs_bytes (msg_iov m); (t, src) = udp_route k fd (msg_name m) in
        (int (length b), k\<lparr>udp_inbox := (udp_inbox k)(t := udp_inbox k t @ [(src, b)])\<rparr>)),
     os_recvfrom := (\<lambda>fd n flags len k. case udp_inbox k fd of
          (src, p) # rest \<Rightarrow> ((int (length p), take (unat n) p, src, of_nat (length src)),
            k\<lparr>udp_inbox := (udp_inbox k)(fd := rest)\<rparr>)
        | [] \<Rightarrow> ((-1, [], [], len), k))\<rparr>"

lemma udp_kernel_datagrams: "datagrams udp_kernel udp_inbox udp_route"
  by (auto simp: datagrams_def udp_kernel_def udp_route_def Let_def split: list.splits)

lemma udp_kernel_calls [simp]:
  "os_random_device udp_kernel k = (7, k)" "os_socket udp_kernel d t p k = (udp_next k, k\<lparr>udp_next := udp_next k + 1\<rparr>)"
  "os_getaddrinfo udp_kernel node service hints k' =
     ((0, [(make_hints 0 AF_INET)\<lparr>ai_addrlen := 16, ai_addr := loopback 1032\<rparr>]), k')"
  "os_bind udp_kernel fd st len k = (0, k)" "os_connect udp_kernel fd st len k = (0, k)"
  by (simp_all add: udp_kernel_def test_kernel_of_def kernel.defs entropy_kernel.defs test_kernel.defs)

theorem socket_example_1_passes_witness:
  "\<exists>w'. socket_example_1 udp_kernel (fresh_world \<lparr>udp_inbox = (\<lambda>_. []), udp_next = 3\<rparr>) = (Inr (), w')"
proof -
  let ?k = "\<lambda>n. \<lparr>udp_inbox = (\<lambda>_. []), udp_next = n\<rparr>"
  have port: "1032 = portnum 7"
    by (simp add: portnum_def)
  have ok: "int_ok 3" "int_ok 4"
    by (simp_all add: int_ok_def)
  have "\<exists>w'. socket_example_1 udp_kernel (fresh_world (?k 3)) = (Inr (), w') \<and> cell_at w' = cell_at (fresh_world (?k 3))"
    by (rule socket_example_1_passes [of udp_kernel "fresh_world (?k 3)" 7 "?k 3" 1032 3 "?k 4"
        "(make_hints 0 AF_INET)\<lparr>ai_addrlen := 16, ai_addr := loopback 1032\<rparr>" "?k 4" 4 "?k 5" udp_inbox udp_route
        "loopback 2000" "loopback 1032"])
      (simp_all add: port ok udp_kernel_datagrams udp_route_def, simp_all add: loopback_def)
  then show ?thesis by blast
qed

text \<open>C40. TCP sockets carry a conversation: when the kernel binds, listens, connects and accepts on the loopback address, the second
  example gets on each end what was written on the other, closes and shuts down without an exception,
  and leaves no descriptor behind.\<close>

theorem socket_example_2_passes:
  assumes "os_random_device K (w_os w) = (rd, k0)" and "port = portnum rd"
    and "os_socket K AF_INET SOCK_STREAM 0 k0 = (a, k1)" and "0 \<le> a" and "int_ok a"
    and "\<And>k. os_getaddrinfo K ''127.0.0.1'' (to_string (uint port))
      (make_hints (AI_NUMERICHOST OR AI_NUMERICSERV) AF_INET) k = ((0, [r]), k)"
    and "ai_addr r = loopback port" and "ai_addrlen r = 16"
    and "\<And>st. take 16 st = loopback port \<Longrightarrow> os_bind K a st 16 k1 = (0, k2)"
    and "os_listen K a 1 k2 = (0, k3)"
    and "os_socket K AF_INET SOCK_STREAM 0 k3 = (b, k4)" and "0 \<le> b" and "int_ok b"
    and "\<And>st. take 16 st = loopback port \<Longrightarrow> os_connect K b st 16 k4 = (0, k5)"
    and "os_accept K a k5 = (c, k6)" and "0 \<le> c" and "int_ok c"
    and "\<And>k. os_getsockopt K c SOL_SOCKET SO_DOMAIN 4 k = ((0, AF_INET, 4), k)"
    and "\<And>k. os_getsockopt K c SOL_SOCKET SO_TYPE 4 k = ((0, SOCK_STREAM, 4), k)"
    and "delivering K pend peer" and "peer b = c" and "peer c = b" and "b \<noteq> c" and "pend k6 b = []" and "pend k6 c = []"
    and "\<And>fd k. fst (os_close K fd k) = 0" and "\<And>k. fst (os_shutdown K c SHUT_RDWR k) = 0"
  shows "\<exists>w'. socket_example_2 K w = (Inr (), w') \<and> cell_at w' = cell_at w"
proof -
  let ?n = "length (w_heap w)" and ?w1 = "with_cell w k1 (sock_cell a)"
  let ?w2 = "with_cell (with_cell w k3 (sock_cell a)) k4 (sock_cell b)"
  let ?w3 = "with_cell (fd_world ?n (did_read False (sock_cell a)) k6 ?w2) k6 (sock_cell c)"
  let ?ex1 = "example_2_sock1 K port ?n" and ?ex2 = "example_2_sock2 K port ?n (Suc ?n)"
  let ?ex3 = "example_2_sock3 K ?n (Suc ?n) (Suc (Suc ?n))"
  have cells2: "cell_at ?w2 g = (if g = ?n then Some (sock_cell a) else if g = Suc ?n then Some (sock_cell b) else cell_at w g)"
    for g by (simp add: cell_at_with_cell)
  have len: "length (w_heap (fd_world ?n x k6 ?w2)) = Suc (Suc ?n)" for x
    by (simp add: fd_world_def)
  have cells3: "cell_at ?w3 g = (if g = ?n then Some (did_read False (sock_cell a)) else if g = Suc ?n then Some (sock_cell b)
      else if g = Suc (Suc ?n) then Some (sock_cell c) else cell_at w g)" for g
    using cells2 by (simp add: cell_at_with_cell len cell_at_fd_world [OF cells2 [of ?n, simplified]])
  obtain w4 where w4: "?ex3 ?w3 = (Inr (), w4)"
      "\<forall>g \<in> {?n, Suc ?n, Suc (Suc ?n)}. \<exists>x. cell_at w4 g = Some x \<and> cell_refs x = 1"
      "\<forall>g. g \<notin> {?n, Suc ?n, Suc (Suc ?n)} \<longrightarrow> cell_at w4 g = cell_at w g"
    using example_2_sock3_run [OF assms(20-23), of ?w3 ?n "did_read False (sock_cell a)" "Suc ?n" "Suc (Suc ?n)"]
      cells3 assms(24-27) by fastforce
  obtain w5 where w5: "scoped K (Suc (Suc ?n)) ?ex3 ?w3 = (Inr (), w5)"
      "cell_at w5 (Suc (Suc ?n)) = None" "\<forall>g. g \<noteq> Suc (Suc ?n) \<longrightarrow> cell_at w5 g = cell_at w4 g"
    using scoped_run [of ?ex3 ?w3 _ w4 "Suc (Suc ?n)" _ K] w4(1,2) by fastforce
  have "?ex2 ?w2 = (Inr (), w5)"
    using example_2_sock2_setup [OF assms(6-8), of ?w2 ?n "sock_cell a" a "Suc ?n" b k5 c k6] cells2 assms(14-19) w5(1) by simp
  then obtain w6 where w6: "scoped K (Suc ?n) ?ex2 ?w2 = (Inr (), w6)"
      "cell_at w6 (Suc ?n) = None" "\<forall>g. g \<noteq> Suc ?n \<longrightarrow> cell_at w6 g = cell_at w5 g"
    using scoped_run [of ?ex2 ?w2 _ w5 "Suc ?n" _ K] w4(2) w5(3) by fastforce
  have "?ex1 ?w1 = (Inr (), w6)"
    using example_2_sock1_setup [OF assms(6-13) refl] w6(1) by simp
  then obtain w7 where w7: "scoped K ?n ?ex1 ?w1 = (Inr (), w7)"
      "cell_at w7 ?n = None" "\<forall>g. g \<noteq> ?n \<longrightarrow> cell_at w7 g = cell_at w6 g"
    using scoped_run [of ?ex1 ?w1 _ w6 ?n _ K] w4(2) w5(3) w6(3) by fastforce
  have "TCPSocket_new K (w\<lparr>w_os := k0\<rparr>) = (Inr ?n, ?w1)"
    using inet_socket_new [of K SOCK_STREAM "w\<lparr>w_os := k0\<rparr>"] assms(3-5) by (simp add: TCPSocket_new_def)
  then have "socket_example_2 K w = (Inr (), w7)"
    using assms(1,2) w7(1) by (simp add: socket_example_2_def bindS_run)
  moreover have "cell_at w7 g = cell_at w g" for g
    using w7(2,3) w6(2,3) w5(2,3) w4(3) cell_at_beyond [of w g]
    by (cases "g = ?n"; cases "g = Suc ?n"; cases "g = Suc (Suc ?n)") simp_all
  ultimately show ?thesis by (intro exI [of _ w7]) (simp add: fun_eq_iff)
qed

text \<open>A kernel whose descriptors 3 and 4 are the ends of a connection; its state is what is pending on each.\<close>

definition pair_peer :: "int \<Rightarrow> int" where
  "pair_peer fd = (if fd = 3 then 4 else if fd = 4 then 3 else fd)"

definition pair_kernel :: "(int \<Rightarrow> string) test_kernel" where
  "pair_kernel = (test_kernel_of failing_kernel (\<lambda>k. (7, k)) (\<lambda>d t p k. ((0, 3, 4), k)))\<lparr>
     os_getsockopt := (\<lambda>fd level opt len k. ((0, 1, 4), k)),
     os_writev := (\<lambda>fd iov cnt k. let b = iovecs_bytes (take (nat cnt) iov) in
        (int (length b), k(pair_peer fd := k (pair_peer fd) @ b))),
     os_read := (\<lambda>fd n k. let m = min (unat n) (length (k fd)) in
        ((int m, take m (k fd)), k(fd := drop m (k fd))))\<rparr>"

lemma pair_kernel_delivering: "delivering pair_kernel (\<lambda>k. k) pair_peer"
  by (auto simp: delivering_def pair_kernel_def Let_def min_def)

theorem socket_example_3_passes_witness:
  "\<exists>w'. socket_example_3 pair_kernel (fresh_world (\<lambda>fd. [])) = (Inr (), w')"
  using socket_example_3_passes [of pair_kernel "fresh_world (\<lambda>fd. [])" 3 4 "\<lambda>fd. []" "\<lambda>k. k" pair_peer]
    pair_kernel_delivering
  by (auto simp: pair_kernel_def test_kernel_of_def kernel.defs entropy_kernel.defs test_kernel.defs pair_peer_def)

text \<open>A kernel that numbers its descriptors from 3 on, where 4 and 5 are the ends of a connection.\<close>

record net =
  net_pend :: "int \<Rightarrow> string"
  net_next :: int

definition tcp_peer :: "int \<Rightarrow> int" where
  "tcp_peer fd = (if fd = 4 then 5 else if fd = 5 then 4 else fd)"

definition new_descriptor :: "net \<Rightarrow> int \<times> net" where
  "new_descriptor k = (net_next k, k\<lparr>net_next := net_next k + 1\<rparr>)"

definition tcp_kernel :: "net test_kernel" where
  "tcp_kernel = (test_kernel_of failing_kernel (\<lambda>k. (7, k)) (\<lambda>d t p k. ((-1, 0, 0), k)))\<lparr>
     os_socket := (\<lambda>d t p. new_descriptor),
     os_getaddrinfo := (\<lambda>node service hints k. ((0, [(make_hints 0 AF_INET)\<lparr>ai_addrlen := 16, ai_addr := loopback 1032\<rparr>]), k)),
     os_bind := (\<lambda>fd a len k. (0, k)), os_listen := (\<lambda>fd backlog k. (0, k)), os_connect := (\<lambda>fd a len k. (0, k)),
     os_accept := (\<lambda>fd. new_descriptor),
     os_getsockopt := (\<lambda>fd level opt len k. ((0, if opt = SO_DOMAIN then AF_INET else SOCK_STREAM, 4), k)),
     os_close := (\<lambda>fd k. (0, k)), os_shutdown := (\<lambda>fd how k. (0, k)),
     os_writev := (\<lambda>fd iov cnt k. let b = iovecs_bytes (take (nat cnt) iov) in
        (int (length b), k\<lparr>net_pend := (net_pend k)(tcp_peer fd := net_pend k (tcp_peer fd) @ b)\<rparr>)),
     os_read := (\<lambda>fd n k. let m = min (unat n) (length (net_pend k fd)) in
        ((int m, take m (net_pend k fd)), k\<lparr>net_pend := (net_pend k)(fd := drop m (net_pend k fd))\<rparr>))\<rparr>"

lemma tcp_kernel_delivering: "delivering tcp_kernel net_pend tcp_peer"
  by (auto simp: delivering_def tcp_kernel_def Let_def min_def)

lemma tcp_kernel_calls [simp]:
  "os_random_device tcp_kernel k = (7, k)" "os_socket tcp_kernel d t p = new_descriptor"
  "os_getaddrinfo tcp_kernel node service hints k' =
     ((0, [(make_hints 0 AF_INET)\<lparr>ai_addrlen := 16, ai_addr := loopback 1032\<rparr>]), k')"
  "os_bind tcp_kernel fd st len k = (0, k)" "os_listen tcp_kernel fd backlog k = (0, k)"
  "os_connect tcp_kernel fd st len k = (0, k)" "os_accept tcp_kernel fd = new_descriptor"
  "os_getsockopt tcp_kernel fd level opt len' k = ((0, if opt = SO_DOMAIN then AF_INET else SOCK_STREAM, 4), k)"
  "os_close tcp_kernel fd k = (0, k)" "os_shutdown tcp_kernel fd how k = (0, k)"
  by (simp_all add: tcp_kernel_def test_kernel_of_def kernel.defs entropy_kernel.defs test_kernel.defs)

theorem socket_example_2_passes_witness:
  "\<exists>w'. socket_example_2 tcp_kernel (fresh_world \<lparr>net_pend = (\<lambda>fd. []), net_next = 3\<rparr>) = (Inr (), w')"
proof -
  let ?k = "\<lambda>n. \<lparr>net_pend = (\<lambda>fd. []), net_next = n\<rparr>"
  have port: "1032 = portnum 7"
    by (simp add: portnum_def)
  have ok: "int_ok 3" "int_ok 4" "int_ok 5"
    by (simp_all add: int_ok_def)
  have "\<exists>w'. socket_example_2 tcp_kernel (fresh_world (?k 3)) = (Inr (), w') \<and> cell_at w' = cell_at (fresh_world (?k 3))"
    by (rule socket_example_2_passes [of tcp_kernel "fresh_world (?k 3)" 7 "?k 3" 1032 3 "?k 4"
        "(make_hints 0 AF_INET)\<lparr>ai_addrlen := 16, ai_addr := loopback 1032\<rparr>" "?k 4" "?k 4" 4 "?k 5" "?k 5" 5 "?k 6" net_pend tcp_peer])
      (simp_all add: port ok tcp_kernel_delivering tcp_peer_def new_descriptor_def)
  then show ?thesis by blast
qed

text \<open>The parser example passes for any values: what \<open>NetUnparser\<close> wrote after a byte put there by hand, \<open>NetParser\<close> reads back in the
  same order.  In particular the program exits with 0.\<close>

theorem parser_example_passes: "parser_example val1 val2 val3 val4 = Inr () \<and> parser_dt_main = Exit 0"
proof -
  have "parser_example val1 val2 val3 val4 = Inr ()" for val1 val2 val3 val4
  proof -
    let ?t4 = "NetUnparser_u32 [] val4"
    let ?t3 = "NetUnparser_u8 [] val3 @ ?t4"
    let ?t2 = "NetUnparser_u16 [] val2 @ ?t3"
    let ?t1 = "NetUnparser_u32 [] val1 @ ?t2"
    have fifty: "NetUnparser_u8 [] 0x32 = [CHR 0x32]"
      by code_simp
    have ser: "parser_example_serialize val1 val2 val3 val4 = NetUnparser_u8 [] 0x32 @ ?t1"
      unfolding parser_example_serialize_def Let_def fifty
      by (simp add: u32.put_append [of "_ @ _"] u32.put_append [of "[_]"] u16.put_append [of "_ @ _"]
          u16.put_append [of "_ # _"] u8.put_append [of "_ # _"] u32.put_append [of "_ # _"])
    have "string_ok (NetUnparser_u8 [] 0x32 @ ?t1)"
      by (simp add: string_ok_def string_max_size_def u32.put_width u16.put_width u8.put_width)
    note at = np_at_new [OF this]
    from u8.get_put [OF at] obtain p1 where p1: "NetParser_u8 (NetParser_new (Buffer_new (NetUnparser_u8 [] 0x32 @ ?t1))) =
        Inr (0x32, p1)" "np_at p1 ?t1" by blast
    from u32.get_put [OF p1(2)] obtain p2 where p2: "NetParser_u32 p1 = Inr (val1, p2)" "np_at p2 ?t2" by blast
    from u16.get_put [OF p2(2)] obtain p3 where p3: "NetParser_u16 p2 = Inr (val2, p3)" "np_at p3 ?t3" by blast
    from u8.get_put [OF p3(2)] obtain p4 where p4: "NetParser_u8 p3 = Inr (val3, p4)" "np_at p4 (?t4 @ [])" by auto
    from u32.get_put [OF p4(2)] obtain p5 where p5: "NetParser_u32 p4 = Inr (val4, p5)" by blast
    have "parser_example_deserialize (NetUnparser_u8 [] 0x32 @ ?t1) = Inr (0x32, val1, val2, val3, val4)"
      using p1(1) p2(1) p3(1) p4(1) p5 by (simp add: parser_example_deserialize_def)
    then show ?thesis
      unfolding parser_example_def ser by simp
  qed
  then show ?thesis by (simp add: parser_dt_main_def)
qed

text \<open>The address example passes on a network with working DNS: if the host resolves to some address with port 443 and numeric
  strings convert to what they denote and back, the program exits with 0; if the host does not resolve, it
  exits with 1 and says why.\<close>

theorem address_dt_result:
  assumes "os_getaddrinfo K ''www.google.com'' ''https'' (make_hints AI_ALL AF_INET) (w_os w) = ((ret, rs), k1)"
    and "\<And>k. os_getaddrinfo K ''18.71.0.151'' ''53'' (make_hints (AI_NUMERICHOST OR AI_NUMERICSERV) AF_INET) k = ((0, [r]), k)"
    and "ai_addr r = sockaddr_in_bytes (ipv4_sockaddr 0x12470097 53)" and "ai_addrlen r = 16"
    and "\<And>ip port k. os_getnameinfo K (sockaddr_in_bytes (ipv4_sockaddr ip port)) NI_MAXHOST NI_MAXSERV
      (NI_NUMERICHOST OR NI_NUMERICSERV) k = ((0, dotted ip, to_string (uint port)), k)"
    and "ret = 0 \<Longrightarrow> \<exists>g gs. rs = g # gs \<and> ai_addr g = sockaddr_in_bytes (ipv4_sockaddr ip 443) \<and> ai_addrlen g = 16"
  shows "if ret = 0 then address_dt_main K w = (Exit 0, w\<lparr>w_os := k1\<rparr>)
    else address_dt_main K w = (Exit 1, w\<lparr>w_os := k1, w_cerr := w_cerr w @
      ''This test requires Internet access and working DNS.'' @ [CHR 0x0A] @
      ''Error: getaddrinfo(www.google.com, https): '' @ os_gai_strerror K ret @ [CHR 0x0A]\<rparr>)"
proof -
  have cs: "c_str ''www.google.com'' = ''www.google.com''" "c_str ''https'' = ''https''"
    by (simp_all add: c_str_def)
  have quad: "dotted 0x12470097 = ''18.71.0.151''" "to_string (uint (53 :: uint16_t)) = ''53''"
    by code_simp+
  show ?thesis
  proof (cases "ret = 0")
    case True
    then obtain g gs where g: "rs = g # gs" "ai_addr g = sockaddr_in_bytes (ipv4_sockaddr ip 443)" "ai_addrlen g = 16"
      using assms(6) by blast
    obtain b where b: "Address_of_sockaddr (ai_addr g) 16 = Inr b" "addr_bytes b = ai_addr g"
      using ipv4_address [OF g(2)] by blast
    have e1: "address_example_1 K w = (Inr b, w\<lparr>w_os := k1\<rparr>)"
      using assms(1) True g b(1) cs by (simp add: address_example_1_def Address_of_host_def Address_resolve_def bindS_run)
    obtain a where a: "Address_of_ip K ''18.71.0.151'' 53 (w\<lparr>w_os := k1\<rparr>) = (Inr a, w\<lparr>w_os := k1\<rparr>)"
        "Address_ipv4_numeric a = Inr 0x12470097"
      using Address_of_ip_run [of K "0x12470097" 53 "w\<lparr>w_os := k1\<rparr>" r "[]" k1] assms(2-4) quad by auto
    have "Address_port K b (w\<lparr>w_os := k1\<rparr>) = (Inr 443, w\<lparr>w_os := k1\<rparr>)"
      using ipv4_ip_port [of b ip 443 K] b(2) g(2) assms(5) by (simp add: Address_port_def bindS_run)
    with e1 a have "address_dt_body K w = (Inr (), w\<lparr>w_os := k1\<rparr>)"
      by (simp add: address_dt_body_def address_example_2_def address_example_3_def bindS_run)
    with True show ?thesis by (simp add: address_dt_main_def)
  next
    case False
    then show ?thesis
      using assms(1) cs
      by (simp add: address_dt_main_def address_dt_body_def address_example_1_def Address_of_host_def Address_resolve_def
          bindS_run)
  qed
qed

definition web_resolver :: "unit kernel" where
  "web_resolver = failing_kernel\<lparr>
     os_getaddrinfo := (\<lambda>node service hints k. ((0, [(make_hints 0 AF_INET)\<lparr>ai_addrlen := 16, ai_addr := sockaddr_in_bytes
        (if node = ''www.google.com'' then ipv4_sockaddr 0x08080404 443 else ipv4_sockaddr 0x12470097 53)\<rparr>]), k)),
     os_getnameinfo := (\<lambda>a hl sl flags k. let x = sockaddr_in_of_bytes a in
        ((0, dotted (be32toh (sin_addr x)), to_string (uint (bswap16 (sin_port x)))), k))\<rparr>"

lemma bswap16_bswap16: "bswap16 (bswap16 w) = w"
  by (rule bit_word_eqI) (auto simp: bswap16_def bit_simps dest: bit_imp_le_length)

lemma ipv4_sockaddr_fields: "be32toh (sin_addr (ipv4_sockaddr ip port)) = ip" "bswap16 (sin_port (ipv4_sockaddr ip port)) = port"
  by (simp_all add: ipv4_sockaddr_def be32toh_def htobe32_def bswap16_bswap16)

theorem address_dt_result_witness: "address_dt_main web_resolver (fresh_world ()) = (Exit 0, fresh_world ())"
  using address_dt_result [of web_resolver "fresh_world ()" 0
      "[(make_hints 0 AF_INET)\<lparr>ai_addrlen := 16, ai_addr := sockaddr_in_bytes (ipv4_sockaddr 0x08080404 443)\<rparr>]" "()"
      "(make_hints 0 AF_INET)\<lparr>ai_addrlen := 16, ai_addr := sockaddr_in_bytes (ipv4_sockaddr 0x12470097 53)\<rparr>" "0x08080404"]
  by (simp add: web_resolver_def sockaddr_in_of_ipv4 Let_def ipv4_sockaddr_fields)

text \<open>C38. The TCP example and the address examples are safe whatever happens: for every kernel, whatever it answers to any
  call, they end with an exit code and not with undefined behaviour, and every owner of a descriptor they
  made is gone, also when a constructor in the middle of a scope throws.  What is asked of the system is that
  the addresses the resolver returns have the length it says, and that a \<open>getsockopt\<close> that fails sets \<open>errno\<close>.  The other two
  socket examples are left out: the first one calls \<open>recv(mtu)\<close>, which hands a null pointer to \<open>memcpy\<close>, and the third one
  can lose a descriptor that has no owner yet.\<close>

theorem tcp_and_address_examples_safe:
  assumes "resolver_ok K" and "getsockopt_ok K"
  shows "(\<forall>u. fst (socket_example_2 K w) \<noteq> Inl (Undefined u)) \<and> fst (address_dt_main K w) \<noteq> Undefined_behaviour \<and>
    (\<forall>f. map_option cell_refs (cell_at (snd (socket_example_2 K w)) f) = map_option cell_refs (cell_at w f)) \<and>
    (\<forall>f. map_option cell_refs (cell_at (snd (address_dt_main K w)) f) = map_option cell_refs (cell_at w f))"
proof -
  from example_2_safe [OF assms, of w]
  have "(\<forall>u. fst (socket_example_2 K w) \<noteq> Inl (Undefined u)) \<and> hrefs (snd (socket_example_2 K w)) = hrefs w"
    by (cases rule: refs.safe_cases) (auto simp: refs_kept_def defined_def)
  moreover from address_dt_safe [OF assms(1), of w]
  have "fst (address_dt_main K w) \<noteq> Undefined_behaviour \<and> hrefs (snd (address_dt_main K w)) = hrefs w"
    by (cases rule: refs.safe_cases) (auto simp: address_dt_main_def refs_kept_def defined_def split: exn.splits)
  ultimately show ?thesis by (auto simp: hrefs_def fun_eq_iff)
qed

text \<open>With the kernel of the second example, and with one on which every call but \<open>socket\<close> fails, so that the address inside the
  scope of the first socket throws.\<close>

definition one_socket_kernel :: "unit test_kernel" where
  "one_socket_kernel = test_kernel_of (failing_kernel\<lparr>os_socket := (\<lambda>d t p k. (3, k))\<rparr>) (\<lambda>k. (7, k)) (\<lambda>d t p k. ((-1, 0, 0), k))"

theorem tcp_and_address_examples_safe_witness:
  "resolver_ok one_socket_kernel \<and> getsockopt_ok one_socket_kernel \<and>
   (\<forall>f. cell_at (snd (socket_example_2 one_socket_kernel (fresh_world ()))) f = None) \<and>
   resolver_ok tcp_kernel \<and> getsockopt_ok tcp_kernel \<and>
   (\<forall>f. cell_at (snd (socket_example_2 tcp_kernel (fresh_world \<lparr>net_pend = (\<lambda>fd. []), net_next = 3\<rparr>))) f = None)"
proof -
  have none: "cell_at (fresh_world k) f = None" for k f
    by (simp add: cell_at_def fresh_world_def)
  have ok: "resolver_ok one_socket_kernel" "getsockopt_ok one_socket_kernel"
    by (simp_all add: resolver_ok_def getsockopt_ok_def one_socket_kernel_def failing_kernel_def test_kernel_of_def
        test_kernel.defs entropy_kernel.defs kernel.defs)
  have tcp: "resolver_ok tcp_kernel" "getsockopt_ok tcp_kernel"
    by (simp_all add: resolver_ok_def getsockopt_ok_def loopback_def)
  show ?thesis
    using ok tcp tcp_and_address_examples_safe [OF ok, of "fresh_world ()"]
      tcp_and_address_examples_safe [OF tcp, of "fresh_world \<lparr>net_pend = (\<lambda>fd. []), net_next = 3\<rparr>"]
    by (simp add: none)
qed

text \<open>What \<open>socketpair(2)\<close>, \<open>getsockopt(2)\<close> and \<open>close(2)\<close> do to the table of open descriptors of the process.\<close>

definition descriptor_table :: "('k, 'z) test_kernel_scheme \<Rightarrow> ('k \<Rightarrow> int set) \<Rightarrow> bool" where
  "descriptor_table K table \<longleftrightarrow>
     (\<forall>d t p k. case os_socketpair K d t p k of ((r, a, b), k') \<Rightarrow>
        r = 0 \<longrightarrow> 0 \<le> a \<and> 0 \<le> b \<and> a \<noteq> b \<and> a \<notin> table k \<and> b \<notin> table k \<and> table k' = table k \<union> {a, b}) \<and>
     (\<forall>fd level option len k. table (snd (os_getsockopt K fd level option len k)) = table k) \<and>
     (\<forall>fd k. table (snd (os_close K fd k)) = table k - {fd})"

lemma descriptor_tableD:
  assumes "descriptor_table K table"
  shows "os_socketpair K d t p k = ((0, a, b), k') \<Longrightarrow>
      0 \<le> a \<and> a \<noteq> b \<and> a \<notin> table k \<and> b \<notin> table k \<and> table k' = table k \<union> {a, b}"
    and "os_getsockopt K fd level option len k = (x, k') \<Longrightarrow> table k' = table k"
    and "os_close K fd k = (r, k') \<Longrightarrow> table k' = table k - {fd}"
  using assms unfolding descriptor_table_def
  by (metis (mono_tags, lifting) case_prod_conv, metis snd_conv, metis snd_conv)

text \<open>A constructor of a local socket that throws: the descriptor it was given is closed and its owner gone.\<close>

lemma local_socket_throws:
  assumes "0 \<le> a" and "os_getsockopt K a SOL_SOCKET SO_DOMAIN 4 (w_os w) = ((-1, v, len), k)" and "os_errno K k \<noteq> 0"
    and "os_close K a k = (0, k')"
  shows "\<exists>w'. bindS (FileDescriptor_new a) (LocalStreamSocket_of_fd K) w = (Inl (unix_error ''getsockopt'' (os_errno K k)), w') \<and>
    w_os w' = k' \<and> cell_at w' = cell_at w"
proof -
  let ?n = "length (w_heap w)" and ?w1 = "\<lambda>k. with_cell w k (sock_cell a)"
  have new: "FileDescriptor_new a w = (Inr ?n, ?w1 (w_os w))"
    using new_fd [OF assms(1), of w] by (simp add: with_cell_def sock_cell_def)
  have cell: "cell_at (?w1 k) ?n = Some (sock_cell a)" for k
    by (simp add: cell_at_with_cell)
  obtain w2 where w2: "FileDescriptor_destroy K ?n (?w1 k) = (Inr (), w2)" "w_os w2 = k'" "cell_at w2 ?n = None"
    using destroy_last [OF cell [of k], of k' K] assms(4) by (auto simp: sock_cell_def)
  moreover have "\<forall>g. g \<noteq> ?n \<longrightarrow> cell_at w2 g = cell_at (?w1 k) g"
    using destroy_run [OF cell [of k], of K] w2(1) by auto
  ultimately have "cell_at w2 g = cell_at w g" for g
    using cell_at_beyond [of w g] by (cases "g = ?n") (simp_all add: cell_at_with_cell)
  moreover have "LocalStreamSocket_of_fd K ?n (?w1 (w_os w)) = (Inl (unix_error ''getsockopt'' (os_errno K k)), w2)"
    unfolding LocalStreamSocket_of_fd_def Socket_of_fd_def using assms(2,3) cell [of "w_os w"] w2(1)
    by (subst on_throw_run(3) [where s' = "?w1 k"]) (simp_all add: step_simps socket_option_def SystemCall_run)
  ultimately show ?thesis
    using new w2(2) by (simp add: bindS_run fun_eq_iff)
qed

text \<open>C39. A descriptor can be lost.  The third socket example gets two descriptors from \<open>socketpair\<close> and then makes the first socket.  When
  that constructor throws, because \<open>getsockopt\<close> fails, the first descriptor is closed, but the second one has no owner:
  the exception leaves the example with the owners there were before and one descriptor more in the table of the process.\<close>

theorem socket_example_3_loses_descriptor:
  assumes "descriptor_table K table" and "os_socketpair K AF_UNIX SOCK_STREAM 0 (w_os w) = ((0, a, b), k)"
    and "os_getsockopt K a SOL_SOCKET SO_DOMAIN 4 k = ((-1, v, len), k1)" and "os_errno K k1 \<noteq> 0"
    and "os_close K a k1 = (0, k2)"
  shows "\<exists>w'. socket_example_3 K w = (Inl (unix_error ''getsockopt'' (os_errno K k1)), w') \<and> cell_at w' = cell_at w \<and>
    b \<notin> table (w_os w) \<and> table (w_os w') = insert b (table (w_os w))"
proof -
  note fds = descriptor_tableD(1) [OF assms(1,2)]
  have "table k2 = insert b (table (w_os w))"
    using fds descriptor_tableD(2) [OF assms(1,3)] descriptor_tableD(3) [OF assms(1,5)] by auto
  moreover obtain w' where "bindS (FileDescriptor_new a) (LocalStreamSocket_of_fd K) (w\<lparr>w_os := k\<rparr>) =
      (Inl (unix_error ''getsockopt'' (os_errno K k1)), w')" "w_os w' = k2" "cell_at w' = cell_at (w\<lparr>w_os := k\<rparr>)"
    using local_socket_throws [of a K "w\<lparr>w_os := k\<rparr>" v len k1 k2] fds assms(3-5) by auto
  moreover have "cell_at (w\<lparr>w_os := k\<rparr>) = cell_at w"
    by (simp add: cell_at_def fun_eq_iff)
  ultimately show ?thesis
    using assms(2) fds by (simp add: socket_example_3_def bindS_run seqS_run SystemCall_run)
qed

text \<open>A kernel whose state is the set of open descriptors: \<open>socketpair\<close> gives out 3 and 4, and \<open>getsockopt\<close> fails.\<close>

definition leaky_kernel :: "int set test_kernel" where
  "leaky_kernel = (test_kernel_of failing_kernel (\<lambda>k. (7, k))
       (\<lambda>d t p k. if k = {} then ((0, 3, 4), {3, 4}) else ((-1, 0, 0), k)))\<lparr>os_close := (\<lambda>fd k. (0, k - {fd}))\<rparr>"

theorem socket_example_3_loses_descriptor_witness:
  "\<exists>w'. socket_example_3 leaky_kernel (fresh_world {}) = (Inl (unix_error ''getsockopt'' 9), w') \<and> w_os w' = {4} \<and>
     cell_at w' = cell_at (fresh_world ({} :: int set))"
proof -
  have "descriptor_table leaky_kernel (\<lambda>k. k)"
    by (auto simp: descriptor_table_def leaky_kernel_def failing_kernel_def test_kernel_of_def test_kernel.defs
        entropy_kernel.defs kernel.defs)
  from socket_example_3_loses_descriptor [OF this, of "fresh_world {}" 3 4 "{3, 4}" 0 4 "{3, 4}" "{4}"]
  show ?thesis
    by (auto simp: leaky_kernel_def failing_kernel_def test_kernel_of_def test_kernel.defs entropy_kernel.defs kernel.defs
        fresh_world_def)
qed

end
