(* ===== verification/Byte_Stream_Tests.thy ===== *)
theory Byte_Stream_Tests
  imports Byte_Stream Webget Random_Generator
begin

unbundle bit_operations_syntax

text \<open>
  The test programs of \<open>ByteStream\<close> under \<open>tests\<close>: the harness of \<open>byte_stream_test_harness.cc\<close>, which runs a list of
  steps on a stream and reports the first one whose expectation is violated, and the five programs built on it.
  The harness is proved to decide the contract of \<open>Stream_Contract\<close>: a list of steps passes on the class exactly
  when its expectations hold on the abstract stream.  With that, the verdict of each program is computed on the
  abstract stream, the loop of 99997 rounds by an invariant and the random writes for every random device.
\<close>

section \<open>The harness\<close>

text \<open>The subclasses of \<open>ByteStreamTestStep\<close>.  The first three are actions, the others expectations; nothing creates an
  object of the base classes.\<close>

datatype ByteStreamTestStep =
    EndInput
  | Write string "size_t option"
  | Pop size_t
  | InputEnded bool
  | BufferEmpty bool
  | Eof bool
  | BufferSize size_t
  | BytesWritten size_t
  | BytesRead size_t
  | RemainingCapacity size_t
  | Peek string

text \<open>What a step throws: the harness tells a violated expectation from any other exception.\<close>

datatype test_exn = ByteStreamExpectationViolation string | Exception exn

definition quoted :: "string \<Rightarrow> string" where
  "quoted s = [CHR 0x22] @ s @ [CHR 0x22]"

definition newline_tab :: string where
  "newline_tab = [CHR 0x0A, CHR 0x09]"

definition size_text :: "size_t \<Rightarrow> string" where
  "size_text n = to_string (uint n)"

definition bool_text :: "bool \<Rightarrow> string" where
  "bool_text b = to_string (if b then 1 else 0)"

definition property :: "string \<Rightarrow> string \<Rightarrow> string \<Rightarrow> test_exn" where
  "property property_name expected actual = ByteStreamExpectationViolation
     (''The ByteStream should have had '' @ property_name @ '' equal to '' @ expected @ '' but instead it was '' @ actual)"

fun description :: "ByteStreamTestStep \<Rightarrow> string" where
  "description EndInput = ''end input''"
| "description (Write data n) = ''write '' @ quoted data @ '' to the stream''"
| "description (Pop len) = ''pop '' @ size_text len"
| "description (InputEnded b) = ''input_ended: '' @ bool_text b"
| "description (BufferEmpty b) = ''buffer_empty: '' @ bool_text b"
| "description (Eof b) = ''eof: '' @ bool_text b"
| "description (BufferSize n) = ''buffer_size: '' @ size_text n"
| "description (RemainingCapacity n) = ''remaining_capacity: '' @ size_text n"
| "description (BytesWritten n) = ''bytes_written: '' @ size_text n"
| "description (BytesRead n) = ''bytes_read: '' @ size_text n"
| "description (Peek output) = quoted output @ '' at the front of the stream''"

fun is_action :: "ByteStreamTestStep \<Rightarrow> bool" where
  "is_action EndInput = True"
| "is_action (Write data n) = True"
| "is_action (Pop len) = True"
| "is_action _ = False"

definition step_string :: "ByteStreamTestStep \<Rightarrow> string" where
  "step_string t = (if is_action t then ''     Action: '' else ''Expectation: '') @ description t"

text \<open>The comparisons of the expectations, on a flag and on a number.\<close>

definition expect_bool :: "string \<Rightarrow> bool \<Rightarrow> bool \<Rightarrow> test_exn + unit" where
  "expect_bool name expected actual =
     (if actual \<noteq> expected then Inl (property name (bool_text expected) (bool_text actual)) else Inr ())"

definition expect_size :: "string \<Rightarrow> size_t \<Rightarrow> size_t result \<Rightarrow> test_exn + unit" where
  "expect_size name expected r =
     (case r of
        Inl e \<Rightarrow> Inl (Exception e)
      | Inr actual \<Rightarrow>
          if actual \<noteq> expected then Inl (property name (size_text expected) (size_text actual)) else Inr ())"

text \<open>\<open>execute\<close> of each subclass; the stream is returned as the step leaves it.\<close>

fun step_execute :: "ByteStreamTestStep \<Rightarrow> ByteStream \<Rightarrow> (test_exn + unit) \<times> ByteStream" where
  "step_execute EndInput bs = (Inr (), ByteStream_end_input bs)"
| "step_execute (Write data n) bs =
     (case ByteStream_write bs data of
        Inl e \<Rightarrow> (Inl (Exception e), bs)
      | Inr (k, bs') \<Rightarrow>
          (case n of
             None \<Rightarrow> Inr ()
           | Some m \<Rightarrow> if k \<noteq> m then Inl (property ''bytes_written'' (size_text m) (size_text k)) else Inr (), bs'))"
| "step_execute (Pop len) bs =
     (case ByteStream_pop_output bs len of Inl e \<Rightarrow> (Inl (Exception e), bs) | Inr bs' \<Rightarrow> (Inr (), bs'))"
| "step_execute (InputEnded b) bs = (expect_bool ''input_ended'' b (ByteStream_input_ended bs), bs)"
| "step_execute (BufferEmpty b) bs = (expect_bool ''buffer_empty'' b (ByteStream_buffer_empty bs), bs)"
| "step_execute (Eof b) bs = (expect_bool ''eof'' b (ByteStream_eof bs), bs)"
| "step_execute (BufferSize n) bs = (expect_size ''buffer_size'' n (ByteStream_buffer_size bs), bs)"
| "step_execute (RemainingCapacity n) bs =
     (expect_size ''remaining_capacity'' n (ByteStream_remaining_capacity bs), bs)"
| "step_execute (BytesWritten n) bs = (expect_size ''bytes_written'' n (Inr (ByteStream_bytes_written bs)), bs)"
| "step_execute (BytesRead n) bs = (expect_size ''bytes_read'' n (Inr (ByteStream_bytes_read bs)), bs)"
| "step_execute (Peek expected) bs =
     (case ByteStream_peek_output bs (string_length expected) of
        Inl e \<Rightarrow> Inl (Exception e)
      | Inr output \<Rightarrow>
          if output \<noteq> expected then Inl (ByteStreamExpectationViolation (''Expected '' @ quoted expected @
            '' at the front of the stream, but found '' @ quoted output))
          else Inr (), bs)"

record ByteStreamTestHarness =
  test_name :: string
  byte_stream :: ByteStream
  steps_executed :: "string list"

definition initialized_text :: "size_t \<Rightarrow> string" where
  "initialized_text capacity = ''Initialized with ('' @ ''capacity='' @ size_text capacity @ '')''"

definition ByteStreamTestHarness_new :: "string \<Rightarrow> size_t \<Rightarrow> ByteStreamTestHarness result" where
  "ByteStreamTestHarness_new name capacity =
     bindR (ByteStream_new capacity) (\<lambda>bs.
       Inr \<lparr>test_name = name, byte_stream = bs, steps_executed = [initialized_text capacity]\<rparr>)"

definition cerr_put :: "string \<Rightarrow> 'k world \<Rightarrow> 'k world" where
  "cerr_put s w = w\<lparr>w_cerr := w_cerr w @ s\<rparr>"

text \<open>The report of the two handlers, which differ in the headline before the message.\<close>

definition failure_report :: "ByteStreamTestStep \<Rightarrow> string \<Rightarrow> string \<Rightarrow> string list \<Rightarrow> string" where
  "failure_report t headline what executed =
     ''Test Failure on expectation:'' @ newline_tab @ step_string t @
     [CHR 0x0A, CHR 0x0A] @ headline @ newline_tab @ what @
     [CHR 0x0A, CHR 0x0A] @ ''List of steps that executed successfully:'' @
     concat (map (\<lambda>s. newline_tab @ s) executed) @ [CHR 0x0A, CHR 0x0A]"

definition harness_execute :: "('k, 'z) kernel_scheme \<Rightarrow> ByteStreamTestHarness \<Rightarrow> ByteStreamTestStep \<Rightarrow> 'k world \<Rightarrow>
    (test_exn + ByteStreamTestHarness) \<times> 'k world" where
  "harness_execute K h t w =
     (case step_execute t (byte_stream h) of
        (Inr _, bs) \<Rightarrow> (Inr (h\<lparr>byte_stream := bs, steps_executed := steps_executed h @ [step_string t]\<rparr>), w)
      | (Inl (ByteStreamExpectationViolation what), bs) \<Rightarrow>
          (Inl (ByteStreamExpectationViolation (''The test '' @ quoted (test_name h) @ '' failed'')),
           cerr_put (failure_report t ''Failure message:'' what (steps_executed h)) w)
      | (Inl (Exception (Undefined u)), bs) \<Rightarrow> (Inl (Exception (Undefined u)), w)
      | (Inl (Exception e), bs) \<Rightarrow>
          (Inl (ByteStreamExpectationViolation (''The test '' @ quoted (test_name h) @
             '' caused your implementation to throw an exception!'')),
           cerr_put (failure_report t ''Exception:'' (exn_what K e) (steps_executed h)) w))"

text \<open>A sequence of statements \<open>test.execute(...)\<close>; the first exception ends it.\<close>

fun run_steps :: "('k, 'z) kernel_scheme \<Rightarrow> ByteStreamTestHarness \<Rightarrow> ByteStreamTestStep list \<Rightarrow> 'k world \<Rightarrow>
    (test_exn + ByteStreamTestHarness) \<times> 'k world" where
  "run_steps K h [] w = (Inr h, w)"
| "run_steps K h (t # ts) w =
     (case harness_execute K h t w of (Inl e, w') \<Rightarrow> (Inl e, w') | (Inr h', w') \<Rightarrow> run_steps K h' ts w')"

section \<open>The programs\<close>

text \<open>A block \<open>{ ByteStreamTestHarness test{name, capacity}; ... }\<close>, several of them in order, and the \<open>main\<close> around
  them.\<close>

fun run_block :: "('k, 'z) kernel_scheme \<Rightarrow> string \<times> size_t \<times> ByteStreamTestStep list \<Rightarrow> 'k world \<Rightarrow>
    (test_exn + unit) \<times> 'k world" where
  "run_block K (name, capacity, ts) w =
     (case ByteStreamTestHarness_new name capacity of
        Inl e \<Rightarrow> (Inl (Exception e), w)
      | Inr h \<Rightarrow> (case run_steps K h ts w of (Inl e, w') \<Rightarrow> (Inl e, w') | (Inr _, w') \<Rightarrow> (Inr (), w')))"

fun run_blocks :: "('k, 'z) kernel_scheme \<Rightarrow> (string \<times> size_t \<times> ByteStreamTestStep list) list \<Rightarrow> 'k world \<Rightarrow>
    (test_exn + unit) \<times> 'k world" where
  "run_blocks K [] w = (Inr (), w)"
| "run_blocks K (b # bs) w = (case run_block K b w of (Inl e, w') \<Rightarrow> (Inl e, w') | (Inr _, w') \<Rightarrow> run_blocks K bs w')"

fun test_what :: "('k, 'z) kernel_scheme \<Rightarrow> test_exn \<Rightarrow> string" where
  "test_what K (ByteStreamExpectationViolation s) = s"
| "test_what K (Exception e) = exn_what K e"

definition test_main :: "('k, 'z) kernel_scheme \<Rightarrow> ('k world \<Rightarrow> (test_exn + 'a) \<times> 'k world) \<Rightarrow> 'k world \<Rightarrow>
    outcome \<times> 'k world" where
  "test_main K body w =
     (case body w of
        (Inr _, w') \<Rightarrow> (Exit 0, w')
      | (Inl (Exception (Undefined u)), w') \<Rightarrow> (Undefined_behaviour, w')
      | (Inl e, w') \<Rightarrow> (Exit 1, cerr_put (''Exception: '' @ test_what K e @ [CHR 0x0A]) w'))"

definition construction_tests :: "(string \<times> size_t \<times> ByteStreamTestStep list) list" where
  "construction_tests =
     [(''construction'', 15,
        [InputEnded False, BufferEmpty True, Eof False, BytesRead 0, BytesWritten 0, RemainingCapacity 15,
         BufferSize 0]),
      (''construction-end'', 15,
        [EndInput, InputEnded True, BufferEmpty True, Eof True, BytesRead 0, BytesWritten 0,
         RemainingCapacity 15, BufferSize 0])]"

definition one_write_tests :: "(string \<times> size_t \<times> ByteStreamTestStep list) list" where
  "one_write_tests =
     [(''write-end-pop'', 15,
        [Write ''cat'' None, InputEnded False, BufferEmpty False, Eof False, BytesRead 0, BytesWritten 3,
         RemainingCapacity 12, BufferSize 3, Peek ''cat'', EndInput, InputEnded True, BufferEmpty False,
         Eof False, BytesRead 0, BytesWritten 3, RemainingCapacity 12, BufferSize 3, Peek ''cat'', Pop 3,
         InputEnded True, BufferEmpty True, Eof True, BytesRead 3, BytesWritten 3, RemainingCapacity 15,
         BufferSize 0]),
      (''write-pop-end'', 15,
        [Write ''cat'' None, InputEnded False, BufferEmpty False, Eof False, BytesRead 0, BytesWritten 3,
         RemainingCapacity 12, BufferSize 3, Peek ''cat'', Pop 3, InputEnded False, BufferEmpty True,
         Eof False, BytesRead 3, BytesWritten 3, RemainingCapacity 15, BufferSize 0, EndInput, InputEnded True,
         BufferEmpty True, Eof True, BytesRead 3, BytesWritten 3, RemainingCapacity 15, BufferSize 0]),
      (''write-pop2-end'', 15,
        [Write ''cat'' None, InputEnded False, BufferEmpty False, Eof False, BytesRead 0, BytesWritten 3,
         RemainingCapacity 12, BufferSize 3, Peek ''cat'', Pop 1, InputEnded False, BufferEmpty False,
         Eof False, BytesRead 1, BytesWritten 3, RemainingCapacity 13, BufferSize 2, Peek ''at'', Pop 2,
         InputEnded False, BufferEmpty True, Eof False, BytesRead 3, BytesWritten 3, RemainingCapacity 15,
         BufferSize 0, EndInput, InputEnded True, BufferEmpty True, Eof True, BytesRead 3, BytesWritten 3,
         RemainingCapacity 15, BufferSize 0])]"

definition two_writes_tests :: "(string \<times> size_t \<times> ByteStreamTestStep list) list" where
  "two_writes_tests =
     [(''write-write-end-pop-pop'', 15,
        [Write ''cat'' None, InputEnded False, BufferEmpty False, Eof False, BytesRead 0, BytesWritten 3,
         RemainingCapacity 12, BufferSize 3, Peek ''cat'', Write ''tac'' None, InputEnded False,
         BufferEmpty False, Eof False, BytesRead 0, BytesWritten 6, RemainingCapacity 9, BufferSize 6,
         Peek ''cattac'', EndInput, InputEnded True, BufferEmpty False, Eof False, BytesRead 0, BytesWritten 6,
         RemainingCapacity 9, BufferSize 6, Peek ''cattac'', Pop 2, InputEnded True, BufferEmpty False,
         Eof False, BytesRead 2, BytesWritten 6, RemainingCapacity 11, BufferSize 4, Peek ''ttac'', Pop 4,
         InputEnded True, BufferEmpty True, Eof True, BytesRead 6, BytesWritten 6, RemainingCapacity 15,
         BufferSize 0]),
      (''write-pop-write-end-pop'', 15,
        [Write ''cat'' None, InputEnded False, BufferEmpty False, Eof False, BytesRead 0, BytesWritten 3,
         RemainingCapacity 12, BufferSize 3, Peek ''cat'', Pop 2, InputEnded False, BufferEmpty False,
         Eof False, BytesRead 2, BytesWritten 3, RemainingCapacity 14, BufferSize 1, Peek ''t'',
         Write ''tac'' None, InputEnded False, BufferEmpty False, Eof False, BytesRead 2, BytesWritten 6,
         RemainingCapacity 11, BufferSize 4, Peek ''ttac'', EndInput, InputEnded True, BufferEmpty False,
         Eof False, BytesRead 2, BytesWritten 6, RemainingCapacity 11, BufferSize 4, Peek ''ttac'', Pop 4,
         InputEnded True, BufferEmpty True, Eof True, BytesRead 6, BytesWritten 6, RemainingCapacity 15,
         BufferSize 0])]"

definition long_stream_round :: "ByteStreamTestStep list" where
  "long_stream_round =
     [RemainingCapacity 1, BufferSize 2, Write ''abc'' (Some 1), RemainingCapacity 0, Peek ''bca'', Pop 1,
      RemainingCapacity 1, BufferSize 2, Write ''bca'' (Some 1), RemainingCapacity 0, Peek ''cab'', Pop 1,
      RemainingCapacity 1, BufferSize 2, Write ''cab'' (Some 1), RemainingCapacity 0, Peek ''abc'', Pop 1]"

definition capacity_tests :: "(string \<times> size_t \<times> ByteStreamTestStep list) list" where
  "capacity_tests =
     [(''overwrite'', 2,
        [Write ''cat'' (Some 2), InputEnded False, BufferEmpty False, Eof False, BytesRead 0, BytesWritten 2,
         RemainingCapacity 0, BufferSize 2, Peek ''ca'', Write ''t'' (Some 0), InputEnded False,
         BufferEmpty False, Eof False, BytesRead 0, BytesWritten 2, RemainingCapacity 0, BufferSize 2,
         Peek ''ca'']),
      (''overwrite-clear-overwrite'', 2,
        [Write ''cat'' (Some 2), Pop 2, Write ''tac'' (Some 2), InputEnded False, BufferEmpty False, Eof False,
         BytesRead 2, BytesWritten 4, RemainingCapacity 0, BufferSize 2, Peek ''ta'']),
      (''overwrite-pop-overwrite'', 2,
        [Write ''cat'' (Some 2), Pop 1, Write ''tac'' (Some 1), InputEnded False, BufferEmpty False, Eof False,
         BytesRead 1, BytesWritten 3, RemainingCapacity 0, BufferSize 2, Peek ''at'']),
      (''long-stream'', 3,
        [Write ''abcdef'' (Some 3), Peek ''abc'', Pop 1] @
        concat (replicate 99997 long_stream_round) @
        [EndInput, Peek ''bc'', Pop 2, Eof True])]"

text \<open>The program with random writes.  \<open>rd()\<close> yields 32 random bits as a 64-bit number; the lambda given to
  \<open>generate\<close> yields a letter.\<close>

definition NREPS :: nat where
  "NREPS = 1000"

definition MIN_WRITE :: size_t where
  "MIN_WRITE = 10"

definition MAX_WRITE :: size_t where
  "MAX_WRITE = 200"

definition CAPACITY :: size_t where
  "CAPACITY = MAX_WRITE * of_nat NREPS"

definition rd_call :: "mt19937 \<Rightarrow> size_t \<times> mt19937" where
  "rd_call rd = (let (r, rd') = mt19937_next rd in (ucast r, rd'))"

definition random_letter :: "mt19937 \<Rightarrow> char \<times> mt19937" where
  "random_letter rd = (let (r, rd') = rd_call rd in (char_of (unat (97 + r mod 26)), rd'))"

definition many_writes_steps :: "size_t \<Rightarrow> ByteStreamTestStep list" where
  "many_writes_steps acc =
     [InputEnded False, BufferEmpty False, Eof False, BytesRead 0, BytesWritten acc,
      RemainingCapacity (CAPACITY - acc), BufferSize acc]"

fun many_writes_loop :: "('k, 'z) kernel_scheme \<Rightarrow> nat \<Rightarrow> ByteStreamTestHarness \<Rightarrow> mt19937 \<Rightarrow> size_t \<Rightarrow> 'k world \<Rightarrow>
    (test_exn + ByteStreamTestHarness) \<times> 'k world" where
  "many_writes_loop K 0 h rd acc w = (Inr h, w)"
| "many_writes_loop K (Suc n) h rd acc w =
     (let (r, rd1) = rd_call rd;
          size = MIN_WRITE + r mod (MAX_WRITE - MIN_WRITE);
          (d, rd2) = generate random_letter (unat size) rd1 in
      case harness_execute K h (Write d (Some size)) w of
        (Inl e, w1) \<Rightarrow> (Inl e, w1)
      | (Inr h1, w1) \<Rightarrow>
          (case run_steps K h1 (many_writes_steps (acc + size)) w1 of
             (Inl e, w2) \<Rightarrow> (Inl e, w2)
           | (Inr h2, w2) \<Rightarrow> many_writes_loop K n h2 rd2 (acc + size) w2))"

definition many_writes_body :: "('k, 'z) entropy_kernel_scheme \<Rightarrow> 'k world \<Rightarrow>
    (test_exn + ByteStreamTestHarness) \<times> 'k world" where
  "many_writes_body K w =
     (case get_random_generator K w of
        (Inl e, w1) \<Rightarrow> (Inl (Exception e), w1)
      | (Inr rd, w1) \<Rightarrow>
          (case ByteStreamTestHarness_new ''many writes'' CAPACITY of
             Inl e \<Rightarrow> (Inl (Exception e), w1)
           | Inr h \<Rightarrow> many_writes_loop K NREPS h rd 0 w1))"

section \<open>The verdict of the contract\<close>

text \<open>The method a step calls, whether it accepts the answer, and the first step of a list that does not accept the
  answer of the abstract stream.\<close>

fun step_op :: "ByteStreamTestStep \<Rightarrow> stream_op" where
  "step_op EndInput = OpEndInput"
| "step_op (Write data n) = OpWrite data"
| "step_op (Pop len) = OpPop len"
| "step_op (InputEnded b) = OpInputEnded"
| "step_op (BufferEmpty b) = OpBufferEmpty"
| "step_op (Eof b) = OpEof"
| "step_op (BufferSize n) = OpBufferSize"
| "step_op (RemainingCapacity n) = OpRemainingCapacity"
| "step_op (BytesWritten n) = OpBytesWritten"
| "step_op (BytesRead n) = OpBytesRead"
| "step_op (Peek output) = OpPeek (string_length output)"

fun accepts :: "ByteStreamTestStep \<Rightarrow> stream_obs \<Rightarrow> bool" where
  "accepts EndInput ob = True"
| "accepts (Write data n) ob = (case n of None \<Rightarrow> True | Some m \<Rightarrow> ob = Count m)"
| "accepts (Pop len) ob = True"
| "accepts (InputEnded b) ob = (ob = Flag b)"
| "accepts (BufferEmpty b) ob = (ob = Flag b)"
| "accepts (Eof b) ob = (ob = Flag b)"
| "accepts (BufferSize n) ob = (ob = Count n)"
| "accepts (RemainingCapacity n) ob = (ob = Count n)"
| "accepts (BytesWritten n) ob = (ob = Count n)"
| "accepts (BytesRead n) ob = (ob = Count n)"
| "accepts (Peek output) ob = (ob = Bytes output)"

fun first_failure :: "abs_stream \<Rightarrow> ByteStreamTestStep list \<Rightarrow> nat option" where
  "first_failure a [] = None"
| "first_failure a (t # ts) =
     (if accepts t (fst (as_step a (step_op t)))
      then map_option Suc (first_failure (snd (as_step a (step_op t))) ts) else Some 0)"

fun after_steps :: "abs_stream \<Rightarrow> ByteStreamTestStep list \<Rightarrow> abs_stream" where
  "after_steps a [] = a"
| "after_steps a (t # ts) = after_steps (snd (as_step a (step_op t))) ts"

text \<open>Strings in a step are strings a program can hold.\<close>

definition step_ok :: "ByteStreamTestStep \<Rightarrow> bool" where
  "step_ok t \<longleftrightarrow> op_ok (step_op t)"

lemma expectations [simp]:
  "expect_bool name b c = Inr () \<longleftrightarrow> c = b"
  "expect_size name n (Inr m) = Inr () \<longleftrightarrow> m = n"
  by (simp_all add: expect_bool_def expect_size_def)

text \<open>A step executes the method it names, and throws a violation exactly when it does not accept the answer.\<close>

lemma step_execute_op:
  assumes "ByteStream_step bs (step_op t) = Inr (ob, bs')"
  shows "\<exists>msg. step_execute t bs = (if accepts t ob then Inr () else Inl (ByteStreamExpectationViolation msg), bs')"
  using assms
  by (cases t) (auto simp: expect_bool_def expect_size_def property_def bindR_eq_Inr split: option.splits)

lemma harness_step:
  assumes "bs_ok (byte_stream h)" and "step_ok t" and "a = bs_abs (byte_stream h)"
  shows "if accepts t (fst (as_step a (step_op t)))
    then \<exists>bs. harness_execute K h t w =
        (Inr (h\<lparr>byte_stream := bs, steps_executed := steps_executed h @ [step_string t]\<rparr>), w) \<and>
      bs_ok bs \<and> bs_abs bs = snd (as_step a (step_op t))
    else \<exists>msg. harness_execute K h t w =
        (Inl (ByteStreamExpectationViolation (''The test '' @ quoted (test_name h) @ '' failed'')),
         cerr_put (failure_report t ''Failure message:'' msg (steps_executed h)) w)"
proof -
  obtain bs where bs: "ByteStream_step (byte_stream h) (step_op t) = Inr (fst (as_step a (step_op t)), bs)"
      "bs_ok bs" "bs_abs bs = snd (as_step a (step_op t))"
    using bs.step_refines [OF assms(1), of "step_op t"] assms(2,3) by (auto simp: step_ok_def)
  from step_execute_op [OF bs(1)] obtain msg where "step_execute t (byte_stream h) =
      (if accepts t (fst (as_step a (step_op t))) then Inr () else Inl (ByteStreamExpectationViolation msg), bs)" by blast
  with bs(2,3) show ?thesis
    by (auto simp: harness_execute_def)
qed

lemma run_steps_verdict:
  assumes "bs_ok (byte_stream h)" and "list_all step_ok ts" and "a = bs_abs (byte_stream h)"
  shows "case first_failure a ts of
      None \<Rightarrow> \<exists>h'. run_steps K h ts w = (Inr h', w) \<and> bs_ok (byte_stream h') \<and> bs_abs (byte_stream h') = after_steps a ts
    | Some i \<Rightarrow> i < length ts \<and> (\<exists>msg. run_steps K h ts w =
        (Inl (ByteStreamExpectationViolation (''The test '' @ quoted (test_name h) @ '' failed'')),
         cerr_put (failure_report (ts ! i) ''Failure message:'' msg
           (steps_executed h @ map step_string (take i ts))) w))"
  using assms
proof (induction ts arbitrary: h a)
  case (Cons t ts)
  let ?a = "snd (as_step a (step_op t))"
  note step = harness_step [OF Cons.prems(1) _ Cons.prems(3), of t K w]
  show ?case
  proof (cases "accepts t (fst (as_step a (step_op t)))")
    case True
    then obtain bs where bs: "harness_execute K h t w =
        (Inr (h\<lparr>byte_stream := bs, steps_executed := steps_executed h @ [step_string t]\<rparr>), w)" "bs_ok bs" "bs_abs bs = ?a"
      using step Cons.prems(2) by auto
    from Cons.IH [of "h\<lparr>byte_stream := bs, steps_executed := steps_executed h @ [step_string t]\<rparr>" ?a] bs(2,3) Cons.prems(2)
    show ?thesis
      using True bs(1) by (auto split: option.splits)
  next
    case False
    then show ?thesis
      using step Cons.prems(2) by auto
  qed
qed simp

lemmas run_steps_pass = run_steps_verdict [where a = "bs_abs (byte_stream h)" and h = h for h, OF _ _ refl]

lemma new_harness:
  assumes "unat capacity \<le> 2 ^ 30"
  shows "\<exists>bs. ByteStreamTestHarness_new name capacity =
      Inr \<lparr>test_name = name, byte_stream = bs, steps_executed = [initialized_text capacity]\<rparr> \<and>
    bs_ok bs \<and> bs_abs bs = as_new (unat capacity)"
  using new_ok [OF assms] by (auto simp: ByteStreamTestHarness_new_def)

lemma run_block_verdict:
  assumes "unat capacity \<le> 2 ^ 30" and "list_all step_ok ts"
  shows "case first_failure (as_new (unat capacity)) ts of
      None \<Rightarrow> run_block K (name, capacity, ts) w = (Inr (), w)
    | Some i \<Rightarrow> i < length ts \<and> (\<exists>msg. run_block K (name, capacity, ts) w =
        (Inl (ByteStreamExpectationViolation (''The test '' @ quoted name @ '' failed'')),
         cerr_put (failure_report (ts ! i) ''Failure message:'' msg
           (initialized_text capacity # map step_string (take i ts))) w))"
proof -
  obtain bs where bs: "ByteStreamTestHarness_new name capacity =
      Inr \<lparr>test_name = name, byte_stream = bs, steps_executed = [initialized_text capacity]\<rparr>"
    "bs_ok bs" "bs_abs bs = as_new (unat capacity)"
    using new_harness [OF assms(1)] by blast
  with run_steps_pass [of "\<lparr>test_name = name, byte_stream = bs, steps_executed = [initialized_text capacity]\<rparr>" ts K w]
    assms(2) show ?thesis
    by (auto split: option.splits)
qed

lemma first_failure_append:
  "first_failure a (xs @ ys) = None \<longleftrightarrow> first_failure a xs = None \<and> first_failure (after_steps a xs) ys = None"
  by (induction xs arbitrary: a) simp_all

lemma after_steps_append [simp]: "after_steps a (xs @ ys) = after_steps (after_steps a xs) ys"
  by (induction xs arbitrary: a) simp_all

definition block_passes :: "string \<times> size_t \<times> ByteStreamTestStep list \<Rightarrow> bool" where
  "block_passes b = (case b of (name, capacity, ts) \<Rightarrow>
     unat capacity \<le> 2 ^ 30 \<and> list_all step_ok ts \<and> first_failure (as_new (unat capacity)) ts = None)"

lemma run_blocks_pass: "list_all block_passes bs \<Longrightarrow> run_blocks K bs w = (Inr (), w)"
proof (induction bs)
  case (Cons b bs)
  obtain name capacity ts where b: "b = (name, capacity, ts)" by (metis prod_cases3)
  from Cons.prems b have "run_block K b w = (Inr (), w)"
    using run_block_verdict [of capacity ts K name w] by (simp add: block_passes_def del: run_block.simps)
  with Cons show ?case by simp
qed simp

lemma test_main_pass: "body w = (Inr x, w') \<Longrightarrow> test_main K body w = (Exit 0, w')"
  by (simp add: test_main_def)

subsection \<open>The fixed programs\<close>

text \<open>The facts that run a list of steps on the abstract stream.\<close>

lemmas run_contract = block_passes_def step_ok_def as_new_def as_pop_def as_room_def string_ok_def string_max_size_def
  string_length_def Let_def

lemma construction_pass: "list_all block_passes construction_tests"
  by (simp add: construction_tests_def run_contract)

lemma one_write_pass: "list_all block_passes one_write_tests"
  by (simp add: one_write_tests_def run_contract)

lemma two_writes_pass: "list_all block_passes two_writes_tests"
  by (simp add: two_writes_tests_def run_contract)

text \<open>A round of the long test starts and ends with two bytes in the stream; only the counters move on.\<close>

definition long_stream_state :: "size_t \<Rightarrow> abs_stream" where
  "long_stream_state n = \<lparr>as_capacity = 3, as_queue = ''bc'', as_written = n + 2, as_popped = n, as_ended = False,
     as_failed = False\<rparr>"

lemma long_stream_round:
  "first_failure (long_stream_state n) long_stream_round = None"
  "after_steps (long_stream_state n) long_stream_round = long_stream_state (n + 3)"
  by (simp_all add: long_stream_round_def long_stream_state_def run_contract)

lemma long_stream_rounds:
  "first_failure (long_stream_state n) (concat (replicate m long_stream_round)) = None \<and>
   after_steps (long_stream_state n) (concat (replicate m long_stream_round)) = long_stream_state (n + of_nat (3 * m))"
  by (induction m arbitrary: n) (simp_all add: first_failure_append long_stream_round algebra_simps)

lemma long_stream_pass:
  "block_passes (''long-stream'', 3, [Write ''abcdef'' (Some 3), Peek ''abc'', Pop 1] @
     concat (replicate m long_stream_round) @ [EndInput, Peek ''bc'', Pop 2, Eof True])"
proof -
  let ?pre = "[Write ''abcdef'' (Some 3), Peek ''abc'', Pop 1]"
  have "first_failure (as_new 3) ?pre = None" "after_steps (as_new 3) ?pre = long_stream_state 1"
    by (simp_all add: run_contract long_stream_state_def)
  moreover have "first_failure (long_stream_state n) [EndInput, Peek ''bc'', Pop 2, Eof True] = None" for n
    by (simp add: run_contract long_stream_state_def)
  ultimately have "first_failure (as_new 3) (?pre @ concat (replicate m long_stream_round) @
      [EndInput, Peek ''bc'', Pop 2, Eof True]) = None"
    unfolding first_failure_append by (simp only: long_stream_rounds simp_thms)
  moreover have "list_all step_ok (concat (replicate m long_stream_round))"
    by (induction m) (simp_all add: long_stream_round_def run_contract)
  ultimately show ?thesis
    unfolding block_passes_def prod.case by (simp add: step_ok_def string_ok_def string_max_size_def)
qed

lemma capacity_pass: "list_all block_passes capacity_tests"
  unfolding capacity_tests_def list.pred_inject
  by (intro conjI long_stream_pass TrueI) (simp_all add: run_contract)

subsection \<open>The program with random writes\<close>

lemma unat_write_size: "unat (MIN_WRITE + r mod (MAX_WRITE - MIN_WRITE)) = 10 + unat r mod 190"
proof -
  have "unat (r mod 190) = unat r mod 190"
    by (simp add: unat_mod)
  moreover have "unat r mod 190 < 190" by simp
  ultimately show ?thesis
    by (simp add: MIN_WRITE_def MAX_WRITE_def unat_word_ariths del: mod_less_divisor)
qed

definition many_writes_state :: "string \<Rightarrow> abs_stream" where
  "many_writes_state q = (as_new 200000)\<lparr>as_queue := q, as_written := of_nat (length q)\<rparr>"

lemma many_writes_round:
  assumes "length q + length d \<le> 200000" and "d \<noteq> []"
  shows "first_failure (many_writes_state q) (Write d (Some (of_nat (length d))) #
      many_writes_steps (of_nat (length q) + of_nat (length d))) = None"
    and "after_steps (many_writes_state q) (Write d (Some (of_nat (length d))) # many_writes_steps acc) =
      many_writes_state (q @ d)"
proof -
  have "min (length d) (200000 - length q) = length d"
    using assms(1) by simp
  then show "first_failure (many_writes_state q) (Write d (Some (of_nat (length d))) #
      many_writes_steps (of_nat (length q) + of_nat (length d))) = None"
    and "after_steps (many_writes_state q) (Write d (Some (of_nat (length d))) # many_writes_steps acc) =
      many_writes_state (q @ d)"
    using assms
    by (simp_all add: many_writes_state_def many_writes_steps_def as_new_def as_room_def CAPACITY_def MAX_WRITE_def
        NREPS_def of_nat_diff Let_def)
qed

lemma many_writes_loop_pass:
  assumes "bs_ok (byte_stream h)" and "bs_abs (byte_stream h) = many_writes_state q"
    and "length q + 200 * n \<le> 200000"
  shows "\<exists>h'. many_writes_loop K n h rd (of_nat (length q)) w = (Inr h', w)"
  using assms
proof (induction n arbitrary: h q rd)
  case (Suc n)
  obtain r rd1 where r: "rd_call rd = (r, rd1)" by fastforce
  define size where "size = MIN_WRITE + r mod (MAX_WRITE - MIN_WRITE)"
  obtain d rd2 where d: "generate random_letter (unat size) rd1 = (d, rd2)" by fastforce
  have "length d = unat size"
    using generate_draws(1) [OF d] .
  moreover from this have size: "size = of_nat (length d)"
    by (simp only: of_nat_unat_size)
  ultimately have len: "10 \<le> length d" "length d \<le> 200"
    using unat_write_size [of r] mod_less_divisor [of 190 "unat r"] unfolding size_def by auto
  let ?ts = "Write d (Some size) # many_writes_steps (of_nat (length q) + size)"
  have room: "length q + length d \<le> 200000" "d \<noteq> []"
    using len Suc.prems(3) by auto
  have "list_all step_ok ?ts"
    using len by (simp add: many_writes_steps_def step_ok_def string_ok_def string_max_size_def)
  with run_steps_pass [OF Suc.prems(1), of ?ts K w] obtain h' where h':
      "run_steps K h ?ts w = (Inr h', w)" "bs_ok (byte_stream h')" "bs_abs (byte_stream h') = many_writes_state (q @ d)"
    unfolding Suc.prems(2) size many_writes_round [OF room] by auto
  have "many_writes_loop K (Suc n) h rd (of_nat (length q)) w =
      many_writes_loop K n h' rd2 (of_nat (length (q @ d))) w"
    using h'(1) r d size by (auto simp: size_def [symmetric] Let_def split: prod.splits sum.splits)
  then show ?case
    using Suc.IH [OF h'(2,3), of rd2] len Suc.prems(3) by simp
qed simp

section \<open>Properties\<close>

text \<open>C36. The harness decides the contract of \<open>ByteStream\<close>: on a stream of capacity at most \<open>2 ^ 30\<close> a test passes, silently
  and with exit code 0, exactly when every expectation holds on the abstract bounded queue.  Otherwise the exit
  code is 1, and standard error names the first step whose expectation fails, lists exactly the
  steps before it, and ends with the name of the test.\<close>

theorem harness_verdict:
  assumes "unat capacity \<le> 2 ^ 30" and "list_all step_ok ts"
  shows "case first_failure (as_new (unat capacity)) ts of
      None \<Rightarrow> test_main K (run_block K (name, capacity, ts)) w = (Exit 0, w)
    | Some i \<Rightarrow> i < length ts \<and> (\<exists>msg. test_main K (run_block K (name, capacity, ts)) w = (Exit 1, w\<lparr>w_cerr := w_cerr w @
        failure_report (ts ! i) ''Failure message:'' msg (initialized_text capacity # map step_string (take i ts)) @
        ''Exception: The test '' @ quoted name @ '' failed'' @ [CHR 0x0A]\<rparr>))"
  using run_block_verdict [OF assms, of K name w]
  by (auto simp: test_main_def cerr_put_def simp del: run_block.simps split: option.splits)

theorem harness_verdict_witness:
  "\<forall>(K :: unit kernel) w. \<exists>msg. test_main K (run_block K (''t'', 2, [Write ''cat'' (Some 2), BufferSize 3, EndInput])) w =
     (Exit 1, w\<lparr>w_cerr := w_cerr w @ failure_report (BufferSize 3) ''Failure message:'' msg
        [initialized_text 2, step_string (Write ''cat'' (Some 2))] @
        ''Exception: The test '' @ quoted ''t'' @ '' failed'' @ [CHR 0x0A]\<rparr>)"
proof (intro allI)
  fix K :: "unit kernel" and w
  show "\<exists>msg. test_main K (run_block K (''t'', 2, [Write ''cat'' (Some 2), BufferSize 3, EndInput])) w =
     (Exit 1, w\<lparr>w_cerr := w_cerr w @ failure_report (BufferSize 3) ''Failure message:'' msg
        [initialized_text 2, step_string (Write ''cat'' (Some 2))] @
        ''Exception: The test '' @ quoted ''t'' @ '' failed'' @ [CHR 0x0A]\<rparr>)"
    using harness_verdict [of 2 "[Write ''cat'' (Some 2), BufferSize 3, EndInput]" K "''t''" w]
    by (simp add: run_contract del: run_block.simps)
qed

text \<open>The four test programs with fixed data pass: each ends with exit code 0 and writes nothing to
  standard error, the loop of 99997 rounds of the capacity test included.\<close>

theorem fixed_tests_pass:
  "test_main K (run_blocks K construction_tests) w = (Exit 0, w) \<and>
   test_main K (run_blocks K one_write_tests) w = (Exit 0, w) \<and>
   test_main K (run_blocks K two_writes_tests) w = (Exit 0, w) \<and>
   test_main K (run_blocks K capacity_tests) w = (Exit 0, w)"
  by (simp only: test_main_pass [OF run_blocks_pass] construction_pass one_write_pass two_writes_pass capacity_pass simp_thms)

text \<open>C37. The test with 1000 random writes passes whatever the random device yields: it draws the 624 words of the seed,
  writes nothing to standard error and ends with exit code 0.\<close>

theorem many_writes_pass:
  "test_main K (many_writes_body K) w =
     (Exit 0, w\<lparr>w_os := ((\<lambda>k. snd (os_random_device K k)) ^^ 624) (w_os w)\<rparr>)"
proof -
  let ?w = "w\<lparr>w_os := ((\<lambda>k. snd (os_random_device K k)) ^^ 624) (w_os w)\<rparr>"
  obtain rd where rd: "get_random_generator K w = (Inr rd, ?w)"
    using get_random_generator_run by blast
  have cap: "unat CAPACITY = 200000"
    by (simp add: CAPACITY_def MAX_WRITE_def NREPS_def)
  obtain bs where bs: "ByteStreamTestHarness_new ''many writes'' CAPACITY =
      Inr \<lparr>test_name = ''many writes'', byte_stream = bs, steps_executed = [initialized_text CAPACITY]\<rparr>"
    "bs_ok bs" "bs_abs bs = many_writes_state []"
    using new_harness [of CAPACITY "''many writes''"] by (auto simp: cap many_writes_state_def as_new_def)
  from many_writes_loop_pass [of "\<lparr>test_name = ''many writes'', byte_stream = bs,
      steps_executed = [initialized_text CAPACITY]\<rparr>" "[]" NREPS K rd ?w] bs
  obtain h' where "many_writes_body K w = (Inr h', ?w)"
    by (auto simp: many_writes_body_def rd NREPS_def)
  then show ?thesis
    by (rule test_main_pass)
qed

end
