(* ===== verification/Spec2Isabelle.thy ===== *)
theory Spec2Isabelle
  imports Byte_Stream Internet_Checksum Hexdump Event_Loop Doctests Byte_Stream_Tests
begin

text \<open>
  A verification of the \<open>sponge\<close> library and its program \<open>webget\<close> (the starter code of a course on networks,
  with the solutions to its first exercises).

  \<^bold>\<open>The program.\<close>  \<open>libsponge/byte_stream.cc\<close> is a bounded byte stream between one writer and one reader.
  \<open>libsponge/util\<close> holds what the programs stand on: shared byte buffers (\<open>buffer.cc\<close>), a parser and an
  unparser of integers in network byte order (\<open>parser.cc\<close>), the Internet checksum, error wrapping, a clock
  and a hex dump (\<open>util.cc\<close>), socket addresses (\<open>address.cc\<close>), reference-counted file descriptors
  (\<open>file_descriptor.cc\<close>), sockets on top of them (\<open>socket.cc\<close>), TUN and TAP devices (\<open>tun.cc\<close>) and an event loop
  that polls descriptors and runs callbacks (\<open>eventloop.cc\<close>).  \<open>apps/webget.cc\<close> puts address, socket and
  descriptor together to fetch a page, the programs of \<open>doctests\<close> exercise parser, addresses and sockets,
  and those of \<open>tests\<close> the byte stream.

  \<^bold>\<open>How the theories follow the sources.\<close>  A class is a \<open>record\<close> with its fields, an enumeration a \<open>datatype\<close>, a
  method \<open>C::m\<close> a definition \<open>C_m\<close>.
  \<^item> \<open>Sponge_Prelude\<close>: results and exceptions (\<open>Inl\<close> an exception or undefined behaviour, \<open>Inr\<close> a value), actions
    on a state that may throw, \<open>int\<close> arithmetic checked for overflow, \<open>size_t\<close> and the other unsigned types as
    words, and the operations on \<open>std::string\<close>; the locale \<open>kept_relation\<close>, with which a component proves once that its
    actions keep a relation and stay within the language.  \<open>Cpp_Text\<close>: C strings, \<open>to_string\<close>, \<open>stoi\<close>.
  \<^item> \<open>Stream_Contract\<close>: the abstract bounded queue, and the locale of what an implementation owes to it.
    \<open>Byte_Stream\<close>: the circular buffer of \<open>ByteStream\<close>, the interpretation of the locale, and the properties
    that rest on it: refinement, the bytes \<open>read\<close> and \<open>peek_output\<close> returned, accounting, end of file, the indices of
    the ring for every capacity, and what happens beyond the capacities an \<open>int\<close> can count.
  \<^item> \<open>Buffers\<close>: \<open>Buffer\<close>, \<open>BufferList\<close>, \<open>BufferViewList\<close>; removing a prefix, and views that follow a list.
  \<^item> \<open>Net_Parser\<close>: \<open>NetParser\<close> and \<open>NetUnparser\<close> as inverses, and the sticky error.
  \<^item> \<open>Internet_Checksum\<close>: the checksum as the ones' complement sum of RFC 1071, and the errors it detects.
  \<^item> \<open>Sponge_System\<close>: the operating system as a parameter, \<open>SystemCall\<close>, \<open>timestamp_ms\<close>.  \<open>Hexdump\<close>: \<open>hexdump\<close>.
    \<open>Random_Generator\<close>: \<open>get_random_generator\<close>, with \<open>std::seed_seq\<close> and the engine \<open>std::mt19937\<close>.
  \<^item> \<open>Address\<close>: \<open>Address\<close> over the bytes of a \<open>sockaddr_storage\<close>.
  \<^item> \<open>File_Descriptor\<close>: a heap of reference-counted wrappers, so that copies alias as with \<open>shared_ptr\<close>; reading,
    writing, closing.  \<open>Sockets\<close>: the socket classes and the TUN and TAP devices.  \<open>Fd_Programs\<close>: the moves, and programs on
    variables of these classes: the owners a wrapper counts are the variables that refer to it, whatever the
    program and the kernel do.  Descriptors count as owned from the moment they are in a wrapper.
  \<^item> \<open>Event_Loop\<close>: rules as nodes of a list, iterators, and the two loops of \<open>wait_next_event\<close>.  Its properties are about
    closures that keep away from the rules and from the owners of descriptors; closures made of methods of
    descriptors the program holds are shown to be such.
  \<^item> \<open>Webget\<close>: the program, with its copying loop proved once for every source of bytes that keeps the contract of
    the locale \<open>byte_source\<close>.
  \<^item> \<open>Doctests\<close>: the example programs, each proved to end normally and to leave no descriptor behind on a system that
    binds, connects and delivers.  The TCP example and the address examples are free of undefined behaviour and
    leave no owner behind whatever the system answers; the example with \<open>socketpair\<close> can lose a descriptor.
  \<^item> \<open>Byte_Stream_Tests\<close>: the harness of \<open>tests/byte_stream_test_harness.cc\<close> and the five test programs.  The harness
    decides the contract of \<open>Stream_Contract\<close>, and every program passes, the one with random writes for every
    random device.

  \<^bold>\<open>The operating system\<close> and the resolver are not part of the sources.  They are the record \<open>kernel\<close>, one function for
  each call, an argument of the definitions that make the call.  What a theorem relies on (that \<open>writev\<close> sends a
  prefix of what it is given and says how much, that \<open>read\<close> hands over pending bytes in order, and the like) is a
  hypothesis on it, and a witness gives a kernel that satisfies the hypotheses.  The theorems for every kernel ask
  only, where it matters, that resolved addresses have the length the resolver says (\<open>resolver_ok\<close>) and that a
  \<open>getsockopt\<close> that fails sets \<open>errno\<close> (\<open>getsockopt_ok\<close>).  They leave out \<open>UDPSocket::recv(mtu)\<close>, which passes a null pointer
  to \<open>memcpy\<close> of no bytes: its definition does what implementations do, but the language leaves it undefined.  The closures of event loop rules
  are a parameter in the same way.

  \<^bold>\<open>Bounds and termination.\<close>  No definition uses fuel.  Loops whose end depends on the code alone are total functions
  with termination proofs (writing, folding carries, printing); \<open>copy_loop\<close>, \<open>setup_loop\<close> and \<open>dispatch_loop\<close> depend on
  the kernel or on closures, their value \<open>None\<close> is a run that does not end, and the properties prove that they
  end.  The properties of \<open>ByteStream\<close>, but for the one on its indices, hold for capacities up to \<open>2 ^ 30\<close>, above which its \<open>int\<close> arithmetic overflows, as
  two theorems show; those of the checksum for at most 131074 bytes, since with one byte more the 32-bit sum wraps.

  \<^bold>\<open>Not modelled.\<close>  The shell script \<open>tests/webget_t.sh\<close> runs \<open>webget\<close> against a server on the Internet; the headers
  \<open>test_err_if.hh\<close> and \<open>test_should_be.hh\<close> are included nowhere; the build files and the documentation carry no behaviour
  of the program.  Allocation failure, other threads, and signals except
  through \<open>EINTR\<close> are not modelled; nor are \<open>freeaddrinfo\<close> and the lifetime of the list \<open>getaddrinfo\<close> returns, and the format
  flags of \<open>cout\<close> other than the number base and the fill character; \<open>std::function\<close> objects are names whose effect is a parameter.
\<close>

end
